theory Spec2Isabelle
  imports Main "HOL-Library.Word"
begin

section \<open>Constants and machine types (fs.c, error.h)\<close>

text \<open>
  C \<open>int\<close> values are modelled as \<open>int\<close>; \<open>uint32_t\<close> and \<open>uint8_t\<close> values as
  \<open>32 word\<close> and \<open>8 word\<close>. The casts of the source are written out:
  \<open>(uint32_t)x\<close> is \<open>word_of_int x\<close>, a \<open>uint32_t\<close> stored into an \<open>int\<close> is \<open>sint\<close>.
\<close>

type_synonym byte = "8 word"
type_synonym u32 = "32 word"

text \<open>A \<open>uint8_t[BLOCK_SIZE]\<close> buffer, indexed by the byte position.\<close>
type_synonym block = "nat \<Rightarrow> byte"

abbreviation BLOCK_SIZE :: int where "BLOCK_SIZE \<equiv> 1024"
abbreviation INODE_SIZE :: int where "INODE_SIZE \<equiv> 32"
abbreviation INODES_PER_BLOCK :: int where "INODES_PER_BLOCK \<equiv> 32"
abbreviation POINTERS_PER_BLOCK :: int where "POINTERS_PER_BLOCK \<equiv> 256"

definition MAGIC_NUMBER :: "byte list" where
  "MAGIC_NUMBER = [0xf0, 0x55, 0x4c, 0x49, 0x45, 0x47, 0x45, 0x49,
                   0x4e, 0x46, 0x4f, 0x30, 0x39, 0x34, 0x30, 0x0f]"

abbreviation E_DISK_NOT_MOUNTED :: int where "E_DISK_NOT_MOUNTED \<equiv> - 100"
abbreviation E_DISK_ALREADY_MOUNTED :: int where "E_DISK_ALREADY_MOUNTED \<equiv> - 101"
abbreviation E_INVALID_INODE :: int where "E_INVALID_INODE \<equiv> - 102"
abbreviation E_OUT_OF_SPACE :: int where "E_OUT_OF_SPACE \<equiv> - 103"
abbreviation E_OUT_OF_INODES :: int where "E_OUT_OF_INODES \<equiv> - 104"
abbreviation E_CORRUPT_DISK :: int where "E_CORRUPT_DISK \<equiv> - 105"
abbreviation E_INVALID_OFFSET :: int where "E_INVALID_OFFSET \<equiv> - 106"

text \<open>C's \<open>/\<close> and \<open>%\<close> on \<open>int\<close> truncate towards zero.\<close>

definition c_div :: "int \<Rightarrow> int \<Rightarrow> int" where
  "c_div a b = sgn a * sgn b * (\<bar>a\<bar> div \<bar>b\<bar>)"

definition c_mod :: "int \<Rightarrow> int \<Rightarrow> int" where
  "c_mod a b = a - b * c_div a b"

text \<open>\<open>int\<close> arithmetic that leaves the 32-bit range wraps around (two's complement).\<close>

definition wrap32 :: "int \<Rightarrow> int" where
  "wrap32 x = sint (word_of_int x :: u32)"

section \<open>The block device (include/vdisk.h)\<close>

datatype vdisk_error = ENODISK | EACCESS | ENOEXIST | EEXCEED | ESECTOR

text \<open>
  Modelled from the spec: the block device layer (vdisk.c and include/vdisk.h) is not among
  the sources; error.h only declares its error codes as \<open>extern const int\<close>. The spec
  describes them as small negative integers, and a sector-addressed device whose
  \<open>read\<close>/\<open>write\<close>/\<open>sync\<close> return success (0) or a device error (out-of-range sector, I/O
  failure, access error).
\<close>
fun vdisk_code :: "vdisk_error \<Rightarrow> int" where
  "vdisk_code ENODISK = - 1"
| "vdisk_code EACCESS = - 2"
| "vdisk_code ENOEXIST = - 3"
| "vdisk_code EEXCEED = - 4"
| "vdisk_code ESECTOR = - 5"

text \<open>
  Modelled from the spec: the \<open>DISK\<close> handle. fs.c reads its field \<open>size_in_sectors\<close>;
  \<open>sectors\<close> is the content of the image. \<open>faults\<close> is the environment's schedule of I/O
  failures: every device operation consumes its head, \<open>Some e\<close> makes the operation fail
  with \<open>e\<close>, and an empty schedule means that the device works from then on.
\<close>
record DISK =
  size_in_sectors :: u32
  sectors :: "nat \<Rightarrow> block"
  faults :: "vdisk_error option list"

definition next_fault :: "DISK \<Rightarrow> vdisk_error option \<times> DISK" where
  "next_fault d = (case faults d of
       [] \<Rightarrow> (None, d)
     | f # fs \<Rightarrow> (f, d\<lparr>faults := fs\<rparr>))"

text \<open>Modelled from the spec: \<open>vdisk_read(&disk, sector, buffer)\<close>; \<open>Inl\<close> is a nonzero result.\<close>
definition vdisk_read :: "DISK \<Rightarrow> u32 \<Rightarrow> (vdisk_error + block) \<times> DISK" where
  "vdisk_read d sector = (case next_fault d of
       (Some e, d') \<Rightarrow> (Inl e, d')
     | (None, d') \<Rightarrow>
         if sector < size_in_sectors d' then (Inr (sectors d' (unat sector)), d')
         else (Inl EEXCEED, d'))"

text \<open>Modelled from the spec: \<open>vdisk_write(&disk, sector, buffer)\<close>; \<open>None\<close> is the result 0.\<close>
definition vdisk_write :: "DISK \<Rightarrow> u32 \<Rightarrow> block \<Rightarrow> vdisk_error option \<times> DISK" where
  "vdisk_write d sector buf = (case next_fault d of
       (Some e, d') \<Rightarrow> (Some e, d')
     | (None, d') \<Rightarrow>
         if sector < size_in_sectors d'
         then (None, d'\<lparr>sectors := (sectors d')(unat sector := buf)\<rparr>)
         else (Some EEXCEED, d'))"

text \<open>Modelled from the spec: \<open>vdisk_sync(&disk)\<close>.\<close>
definition vdisk_sync :: "DISK \<Rightarrow> vdisk_error option \<times> DISK" where
  "vdisk_sync d = next_fault d"

section \<open>On-disk records\<close>

record superblock_t =
  magic :: "byte list"
  num_blocks :: u32
  num_inode_blocks :: u32
  block_size :: u32

text \<open>
  \<open>inode_t\<close>: the compiler pads the \<open>uint8_t valid\<close> to the alignment of the following
  \<open>uint32_t\<close>, so the record is 1 + 3 + 4 + 16 + 4 + 4 = 32 bytes; \<open>memcpy\<close> moves the
  padding bytes along with the fields.
\<close>
record inode_t =
  valid :: byte
  padding :: "byte list"
  size_bytes :: u32
  direct_blocks :: "u32 list"
  indirect_block :: u32
  double_indirect_block :: u32

definition zero_block :: block where
  "zero_block = (\<lambda>_. 0)"

text \<open>\<open>((uint32_t * )(buf + off))[0]\<close> on a little-endian machine.\<close>
definition get_u32 :: "block \<Rightarrow> nat \<Rightarrow> u32" where
  "get_u32 b off = word_of_nat (unat (b off) + 256 * unat (b (off + 1))
       + 65536 * unat (b (off + 2)) + 16777216 * unat (b (off + 3)))"

definition set_u32 :: "block \<Rightarrow> nat \<Rightarrow> u32 \<Rightarrow> block" where
  "set_u32 b off w = b(off := word_of_nat (unat w mod 256),
       off + 1 := word_of_nat (unat w div 256 mod 256),
       off + 2 := word_of_nat (unat w div 65536 mod 256),
       off + 3 := word_of_nat (unat w div 16777216 mod 256))"

text \<open>\<open>pointers[k]\<close> for \<open>uint32_t *pointers = (uint32_t * )page\<close>.\<close>
definition get_ptr :: "block \<Rightarrow> nat \<Rightarrow> u32" where
  "get_ptr page k = get_u32 page (4 * k)"

definition set_ptr :: "block \<Rightarrow> nat \<Rightarrow> u32 \<Rightarrow> block" where
  "set_ptr page k w = set_u32 page (4 * k) w"

text \<open>\<open>memcpy(inode, block + offset, INODE_SIZE)\<close>.\<close>
definition inode_of_bytes :: "block \<Rightarrow> nat \<Rightarrow> inode_t" where
  "inode_of_bytes b off = \<lparr>
     valid = b off,
     padding = [b (off + 1), b (off + 2), b (off + 3)],
     size_bytes = get_u32 b (off + 4),
     direct_blocks = [get_u32 b (off + 8), get_u32 b (off + 12),
                      get_u32 b (off + 16), get_u32 b (off + 20)],
     indirect_block = get_u32 b (off + 24),
     double_indirect_block = get_u32 b (off + 28) \<rparr>"

text \<open>\<open>memcpy(block + offset, inode, INODE_SIZE)\<close>.\<close>
definition inode_to_bytes :: "block \<Rightarrow> nat \<Rightarrow> inode_t \<Rightarrow> block" where
  "inode_to_bytes b off ino =
     set_u32 (set_u32 (set_u32 (set_u32 (set_u32 (set_u32 (set_u32
       (b(off := valid ino, off + 1 := padding ino ! 0,
          off + 2 := padding ino ! 1, off + 3 := padding ino ! 2))
       (off + 4) (size_bytes ino))
       (off + 8) (direct_blocks ino ! 0))
       (off + 12) (direct_blocks ino ! 1))
       (off + 16) (direct_blocks ino ! 2))
       (off + 20) (direct_blocks ino ! 3))
       (off + 24) (indirect_block ino))
       (off + 28) (double_indirect_block ino)"

text \<open>\<open>memcpy(&superblock, block_buffer, sizeof(superblock_t))\<close> and its converse.\<close>
definition superblock_of_bytes :: "block \<Rightarrow> superblock_t" where
  "superblock_of_bytes b = \<lparr>
     magic = map b [0 ..< 16],
     num_blocks = get_u32 b 16,
     num_inode_blocks = get_u32 b 20,
     block_size = get_u32 b 24 \<rparr>"

definition superblock_to_bytes :: "block \<Rightarrow> superblock_t \<Rightarrow> block" where
  "superblock_to_bytes b sb =
     set_u32 (set_u32 (set_u32
       (\<lambda>k. if k < 16 then magic sb ! k else b k)
       16 (num_blocks sb)) 20 (num_inode_blocks sb)) 24 (block_size sb)"

section \<open>File system state (the static variables of fs.c)\<close>

text \<open>
  \<open>block_bitmap\<close> is the \<open>calloc\<close>ed array of \<open>num_blocks\<close> entries, indexed by block number.
  \<open>images\<close> is the environment of \<open>vdisk_on\<close>: the image file behind each path.
\<close>
record fs_state =
  disk_mounted :: bool
  disk :: DISK
  superblock :: superblock_t
  block_bitmap :: "nat \<Rightarrow> u32"
  mounted_disk :: "string option"
  images :: "string \<Rightarrow> DISK option"

section \<open>Helper functions of fs.c\<close>

text \<open>
  A function that returns a nonzero \<open>int\<close> for failure and fills an out-parameter otherwise
  returns a sum here: \<open>Inl\<close> carries the error code, \<open>Inr\<close> the value.
\<close>

text \<open>The bound \<open>superblock.num_inode_blocks * INODES_PER_BLOCK\<close>, computed in \<open>uint32_t\<close>.\<close>
definition inode_limit :: "fs_state \<Rightarrow> u32" where
  "inode_limit s = num_inode_blocks (superblock s) * 32"

definition read_inode :: "fs_state \<Rightarrow> int \<Rightarrow> bool \<Rightarrow> (int + inode_t) \<times> fs_state" where
  "read_inode s inode_num bypass_mount_check =
     (if \<not> disk_mounted s \<and> \<not> bypass_mount_check then (Inl E_DISK_NOT_MOUNTED, s)
      else if inode_num < 0 \<or> (word_of_int inode_num :: u32) \<ge> inode_limit s
      then (Inl E_INVALID_INODE, s)
      else
        let block_num = 1 + inode_num div INODES_PER_BLOCK;
            offset = (inode_num mod INODES_PER_BLOCK) * INODE_SIZE
        in case vdisk_read (disk s) (word_of_int block_num) of
             (Inl e, d') \<Rightarrow> (Inl (vdisk_code e), s\<lparr>disk := d'\<rparr>)
           | (Inr blk, d') \<Rightarrow> (Inr (inode_of_bytes blk (nat offset)), s\<lparr>disk := d'\<rparr>))"

definition write_inode :: "fs_state \<Rightarrow> int \<Rightarrow> inode_t \<Rightarrow> int \<times> fs_state" where
  "write_inode s inode_num inode =
     (if \<not> disk_mounted s then (E_DISK_NOT_MOUNTED, s)
      else if inode_num < 0 \<or> (word_of_int inode_num :: u32) \<ge> inode_limit s
      then (E_INVALID_INODE, s)
      else
        let block_num = 1 + inode_num div INODES_PER_BLOCK;
            offset = (inode_num mod INODES_PER_BLOCK) * INODE_SIZE
        in case vdisk_read (disk s) (word_of_int block_num) of
             (Inl e, d') \<Rightarrow> (vdisk_code e, s\<lparr>disk := d'\<rparr>)
           | (Inr blk, d') \<Rightarrow>
               (case vdisk_write d' (word_of_int block_num)
                       (inode_to_bytes blk (nat offset) inode) of
                  (Some e, d'') \<Rightarrow> (vdisk_code e, s\<lparr>disk := d''\<rparr>)
                | (None, d'') \<Rightarrow> (0, s\<lparr>disk := d''\<rparr>)))"

lemma unat_inc_lt: "(i :: u32) < n \<Longrightarrow> unat n - unat (i + 1) < unat n - unat i"
proof -
  assume lt: "i < n"
  then have "unat (i + 1) = unat i + 1"
    by (metis (no_types, lifting) add.commute add_0 inc_i inc_le
        unat_plus_simple unsigned_0 unsigned_1 word_gt_0)
  moreover from lt have "unat i < unat n"
    by (simp add: word_less_nat_alt)
  ultimately show ?thesis by simp
qed

text \<open>The loop of \<open>find_free_block\<close>: \<open>for (uint32_t i = ...; i < superblock.num_blocks; i++)\<close>.\<close>
function find_free_from :: "fs_state \<Rightarrow> u32 \<Rightarrow> int \<times> fs_state" where
  "find_free_from s i =
     (if i < num_blocks (superblock s) then
        (if block_bitmap s (unat i) = 0
         then (sint i, s\<lparr>block_bitmap := (block_bitmap s)(unat i := 1)\<rparr>)
         else find_free_from s (i + 1))
      else (E_OUT_OF_SPACE, s))"
  by pat_completeness auto
termination
  by (relation "measure (\<lambda>(s, i). unat (num_blocks (superblock s)) - unat i)")
     (auto simp: unat_inc_lt)

definition find_free_block :: "fs_state \<Rightarrow> int \<times> fs_state" where
  "find_free_block s =
     (if \<not> disk_mounted s then (E_DISK_NOT_MOUNTED, s)
      else
        let first_data_block = sint (1 + num_inode_blocks (superblock s))
        in find_free_from s (word_of_int first_data_block))"

definition free_block :: "fs_state \<Rightarrow> int \<Rightarrow> fs_state" where
  "free_block s block_num =
     (if disk_mounted s \<and> block_num > 0
         \<and> (word_of_int block_num :: u32) < num_blocks (superblock s)
      then s\<lparr>block_bitmap := (block_bitmap s)(unat (word_of_int block_num :: u32) := 0)\<rparr>
      else s)"

text \<open>
  The allocation sequence that \<open>get_block_for_offset\<close> repeats at each of its five
  allocation sites: \<open>find_free_block\<close>, return its error if negative, write a zero block
  to the new block, and on a device error \<open>free_block\<close> it and return the error.
\<close>
definition alloc_zeroed :: "fs_state \<Rightarrow> (int + int) \<times> fs_state" where
  "alloc_zeroed s = (case find_free_block s of (new_block, s1) \<Rightarrow>
     if new_block < 0 then (Inl new_block, s1)
     else (case vdisk_write (disk s1) (word_of_int new_block) zero_block of
             (Some e, d') \<Rightarrow> (Inl (vdisk_code e), free_block (s1\<lparr>disk := d'\<rparr>) new_block)
           | (None, d') \<Rightarrow> (Inr new_block, s1\<lparr>disk := d'\<rparr>)))"

text \<open>Direct blocks: \<open>block_index < 4\<close>.\<close>
definition gbo_direct :: "fs_state \<Rightarrow> inode_t \<Rightarrow> nat \<Rightarrow> bool \<Rightarrow> int \<times> inode_t \<times> fs_state" where
  "gbo_direct s inode block_index allocate =
     (if direct_blocks inode ! block_index = 0 \<and> allocate then
        (case alloc_zeroed s of
           (Inl e, s1) \<Rightarrow> (e, inode, s1)
         | (Inr new_block, s1) \<Rightarrow>
             let inode' = inode\<lparr>direct_blocks :=
                   (direct_blocks inode)[block_index := word_of_int new_block]\<rparr>
             in (sint (direct_blocks inode' ! block_index), inode', s1))
      else (sint (direct_blocks inode ! block_index), inode, s))"

text \<open>
  Reading the indirection page stored in block \<open>page_block\<close> and resolving its entry
  \<open>entry_index\<close>, allocating the data block and writing the page back when the entry is 0
  and \<open>allocate\<close> holds. The source has this code twice: for \<open>inode->indirect_block\<close> and
  for the page \<open>pointers[indirect_index]\<close> under the double-indirect block.
\<close>
definition gbo_entry :: "fs_state \<Rightarrow> inode_t \<Rightarrow> u32 \<Rightarrow> nat \<Rightarrow> bool \<Rightarrow> int \<times> inode_t \<times> fs_state" where
  "gbo_entry s inode page_block entry_index allocate =
     (case vdisk_read (disk s) page_block of
        (Inl e, d1) \<Rightarrow> (vdisk_code e, inode, s\<lparr>disk := d1\<rparr>)
      | (Inr page, d1) \<Rightarrow>
          let s1 = s\<lparr>disk := d1\<rparr> in
          if get_ptr page entry_index = 0 \<and> allocate then
            (case alloc_zeroed s1 of
               (Inl e, s2) \<Rightarrow> (e, inode, s2)
             | (Inr new_block, s2) \<Rightarrow>
                 let page' = set_ptr page entry_index (word_of_int new_block) in
                 (case vdisk_write (disk s2) page_block page' of
                    (Some e, d3) \<Rightarrow> (vdisk_code e, inode, free_block (s2\<lparr>disk := d3\<rparr>) new_block)
                  | (None, d3) \<Rightarrow> (sint (get_ptr page' entry_index), inode, s2\<lparr>disk := d3\<rparr>)))
          else (sint (get_ptr page entry_index), inode, s1))"

text \<open>Single indirect blocks: \<open>block_index - 4 < POINTERS_PER_BLOCK\<close>.\<close>
definition gbo_indirect :: "fs_state \<Rightarrow> inode_t \<Rightarrow> nat \<Rightarrow> bool \<Rightarrow> int \<times> inode_t \<times> fs_state" where
  "gbo_indirect s inode block_index allocate =
     (if indirect_block inode = 0 then
        (if \<not> allocate then (0, inode, s)
         else (case alloc_zeroed s of
                 (Inl e, s1) \<Rightarrow> (e, inode, s1)
               | (Inr new_block, s1) \<Rightarrow>
                   let inode' = inode\<lparr>indirect_block := word_of_int new_block\<rparr>
                   in gbo_entry s1 inode' (indirect_block inode') block_index allocate))
      else gbo_entry s inode (indirect_block inode) block_index allocate)"

text \<open>The double-indirect page, once \<open>inode->double_indirect_block\<close> is set.\<close>
definition gbo_double_page :: "fs_state \<Rightarrow> inode_t \<Rightarrow> nat \<Rightarrow> bool \<Rightarrow> int \<times> inode_t \<times> fs_state" where
  "gbo_double_page s inode block_index allocate =
     (case vdisk_read (disk s) (double_indirect_block inode) of
        (Inl e, d1) \<Rightarrow> (vdisk_code e, inode, s\<lparr>disk := d1\<rparr>)
      | (Inr pointers, d1) \<Rightarrow>
          let s1 = s\<lparr>disk := d1\<rparr>;
              indirect_index = block_index div 256;
              entry_index = block_index mod 256
          in
          if get_ptr pointers indirect_index = 0 \<and> allocate then
            (case alloc_zeroed s1 of
               (Inl e, s2) \<Rightarrow> (e, inode, s2)
             | (Inr new_block, s2) \<Rightarrow>
                 let pointers' = set_ptr pointers indirect_index (word_of_int new_block) in
                 (case vdisk_write (disk s2) (double_indirect_block inode) pointers' of
                    (Some e, d3) \<Rightarrow> (vdisk_code e, inode, free_block (s2\<lparr>disk := d3\<rparr>) new_block)
                  | (None, d3) \<Rightarrow>
                      gbo_entry (s2\<lparr>disk := d3\<rparr>) inode
                        (get_ptr pointers' indirect_index) entry_index allocate))
          else if get_ptr pointers indirect_index = 0 then (0, inode, s1)
          else gbo_entry s1 inode (get_ptr pointers indirect_index) entry_index allocate)"

text \<open>Double indirect blocks: \<open>block_index - 4 - 256 < 256 * 256\<close>.\<close>
definition gbo_double :: "fs_state \<Rightarrow> inode_t \<Rightarrow> nat \<Rightarrow> bool \<Rightarrow> int \<times> inode_t \<times> fs_state" where
  "gbo_double s inode block_index allocate =
     (if double_indirect_block inode = 0 then
        (if \<not> allocate then (0, inode, s)
         else (case alloc_zeroed s of
                 (Inl e, s1) \<Rightarrow> (e, inode, s1)
               | (Inr new_block, s1) \<Rightarrow>
                   gbo_double_page s1 (inode\<lparr>double_indirect_block := word_of_int new_block\<rparr>)
                     block_index allocate))
      else gbo_double_page s inode block_index allocate)"

text \<open>
  \<open>get_block_for_offset(inode, offset, allocate)\<close>: the result, the inode as the call
  leaves it behind the pointer, and the state. After the check \<open>offset < 0\<close> every
  \<open>block_index\<close> is non-negative, so C's division and remainder are \<open>div\<close> and \<open>mod\<close>.
\<close>
definition get_block_for_offset :: "fs_state \<Rightarrow> inode_t \<Rightarrow> int \<Rightarrow> bool \<Rightarrow> int \<times> inode_t \<times> fs_state" where
  "get_block_for_offset s inode offset allocate =
     (if \<not> disk_mounted s then (E_DISK_NOT_MOUNTED, inode, s)
      else if offset < 0 then (E_INVALID_OFFSET, inode, s)
      else
        let block_index = offset div BLOCK_SIZE in
        if block_index < 4 then gbo_direct s inode (nat block_index) allocate
        else
          let block_index = block_index - 4 in
          if (word_of_int block_index :: u32) < 256
          then gbo_indirect s inode (nat block_index) allocate
          else
            let block_index = block_index - POINTERS_PER_BLOCK in
            if (word_of_int block_index :: u32) < 256 * 256
            then gbo_double s inode (nat block_index) allocate
            else (E_INVALID_OFFSET, inode, s))"

section \<open>Core functions of fs.c\<close>

definition bad_inode_num :: "fs_state \<Rightarrow> int \<Rightarrow> bool" where
  "bad_inode_num s inode_num \<longleftrightarrow>
     inode_num < 0 \<or> (word_of_int inode_num :: u32) \<ge> inode_limit s"

text \<open>\<open>memset(block + off, c, n)\<close> and \<open>memcpy(block + off, src, n)\<close>.\<close>
definition memset_block :: "block \<Rightarrow> nat \<Rightarrow> byte \<Rightarrow> nat \<Rightarrow> block" where
  "memset_block b off c n = (\<lambda>k. if off \<le> k \<and> k < off + n then c else b k)"

definition memcpy_block :: "block \<Rightarrow> nat \<Rightarrow> byte list \<Rightarrow> nat \<Rightarrow> block" where
  "memcpy_block b off src n = (\<lambda>k. if off \<le> k \<and> k < off + n then src ! (k - off) else b k)"

text \<open>\<open>bytes = BLOCK_SIZE - block_offset; if (bytes > remaining) bytes = remaining;\<close>\<close>
definition chunk :: "int \<Rightarrow> int \<Rightarrow> int" where
  "chunk block_offset remaining =
     (if BLOCK_SIZE - block_offset > remaining then remaining else BLOCK_SIZE - block_offset)"

lemma c_mod_nonneg: "0 \<le> a \<Longrightarrow> c_mod a 1024 = a mod 1024"
  by (cases "a = 0") (simp_all add: c_mod_def c_div_def minus_mult_div_eq_mod)

lemma c_mod_neg: "a < 0 \<Longrightarrow> c_mod a 1024 = - ((- a) mod 1024)"
proof -
  assume "a < 0"
  then have "c_mod a 1024 = a + 1024 * ((- a) div 1024)"
    by (simp add: c_mod_def c_div_def)
  also have "\<dots> = - ((- a) - 1024 * ((- a) div 1024))" by simp
  also have "\<dots> = - ((- a) mod 1024)" by (simp only: minus_mult_div_eq_mod)
  finally show ?thesis .
qed

lemma c_mod_lt: "c_mod a 1024 < 1024"
proof (cases "0 \<le> a")
  case True then show ?thesis by (simp add: c_mod_nonneg)
next
  case False
  then have "c_mod a 1024 = - ((- a) mod 1024)" by (simp add: c_mod_neg)
  moreover have "0 \<le> (- a) mod 1024" by simp
  ultimately show ?thesis by linarith
qed

lemma uint_mod_lt: "uint ((w::u32) mod 1024) < 1024"
  by (simp add: uint_mod_distrib)

lemma chunk_pos: "bo < 1024 \<Longrightarrow> 0 < r \<Longrightarrow> 0 < chunk bo r"
  by (simp add: chunk_def)


subsection \<open>create\<close>

text \<open>The scan \<open>for (int inode_num = 0; inode_num < max_inodes; inode_num++)\<close>.\<close>
function create_loop :: "fs_state \<Rightarrow> int \<Rightarrow> int \<Rightarrow> int \<times> fs_state" where
  "create_loop s max_inodes inode_num =
     (if inode_num < max_inodes then
        (case read_inode s inode_num False of
           (Inl result, s1) \<Rightarrow> (result, s1)
         | (Inr inode, s1) \<Rightarrow>
             if valid inode = 0 then
               let inode' = inode\<lparr>valid := 1, size_bytes := 0,
                     direct_blocks := (direct_blocks inode)[0 := 0, 1 := 0, 2 := 0, 3 := 0],
                     indirect_block := 0, double_indirect_block := 0\<rparr>
               in (case write_inode s1 inode_num inode' of
                     (result, s2) \<Rightarrow> if result \<noteq> 0 then (result, s2) else (inode_num, s2))
             else create_loop s1 max_inodes (inode_num + 1))
      else (E_OUT_OF_INODES, s))"
  by pat_completeness auto
termination
  by (relation "measure (\<lambda>(s, max_inodes, inode_num). nat (max_inodes - inode_num))") auto

text \<open>The message printed on standard output when no disk is mounted is not modelled.\<close>
definition create :: "fs_state \<Rightarrow> int \<times> fs_state" where
  "create s =
     (if \<not> disk_mounted s then (E_DISK_NOT_MOUNTED, s)
      else create_loop s (sint (inode_limit s)) 0)"

subsection \<open>delete\<close>

text \<open>\<open>for (i = 0; i < POINTERS_PER_BLOCK; i++) if (pointers[i] != 0) free_block(pointers[i]);\<close>\<close>
definition free_entries :: "block \<Rightarrow> fs_state \<Rightarrow> fs_state" where
  "free_entries pointers s =
     fold (\<lambda>i s. if get_ptr pointers i \<noteq> 0 then free_block s (sint (get_ptr pointers i)) else s)
       [0 ..< 256] s"

text \<open>The loop over the entries of the double-indirect page; it returns at the first failed read.\<close>
fun delete_double :: "block \<Rightarrow> nat list \<Rightarrow> fs_state \<Rightarrow> vdisk_error option \<times> fs_state" where
  "delete_double indirect_pointers [] s = (None, s)"
| "delete_double indirect_pointers (i # is) s =
     (if get_ptr indirect_pointers i \<noteq> 0 then
        (case vdisk_read (disk s) (get_ptr indirect_pointers i) of
           (Inl e, d') \<Rightarrow> (Some e, s\<lparr>disk := d'\<rparr>)
         | (Inr data_pointers, d') \<Rightarrow>
             delete_double indirect_pointers is
               (free_block (free_entries data_pointers (s\<lparr>disk := d'\<rparr>))
                  (sint (get_ptr indirect_pointers i))))
      else delete_double indirect_pointers is s)"

text \<open>\<open>for (i = 0; i < 4; i++) if (direct_blocks[i] != 0) { free_block(...); direct_blocks[i] = 0; }\<close>\<close>
definition delete_direct :: "inode_t \<times> fs_state \<Rightarrow> inode_t \<times> fs_state" where
  "delete_direct = fold (\<lambda>i (inode, s).
       if direct_blocks inode ! i \<noteq> 0
       then (inode\<lparr>direct_blocks := (direct_blocks inode)[i := 0]\<rparr>,
             free_block s (sint (direct_blocks inode ! i)))
       else (inode, s)) [0 ..< 4]"

definition delete :: "fs_state \<Rightarrow> int \<Rightarrow> int \<times> fs_state" where
  "delete s inode_num =
     (if \<not> disk_mounted s then (E_DISK_NOT_MOUNTED, s)
      else if bad_inode_num s inode_num then (E_INVALID_INODE, s)
      else (case read_inode s inode_num False of
        (Inl result, s1) \<Rightarrow> (result, s1)
      | (Inr inode0, s1) \<Rightarrow>
          if valid inode0 = 0 then (E_INVALID_INODE, s1)
          else (case delete_direct (inode0, s1) of (inode1, s2) \<Rightarrow>
            (case (if indirect_block inode1 \<noteq> 0 then
                     (case vdisk_read (disk s2) (indirect_block inode1) of
                        (Inl e, d') \<Rightarrow> (Inl (vdisk_code e), s2\<lparr>disk := d'\<rparr>)
                      | (Inr pointers, d') \<Rightarrow>
                          (Inr (inode1\<lparr>indirect_block := 0\<rparr>),
                           free_block (free_entries pointers (s2\<lparr>disk := d'\<rparr>))
                             (sint (indirect_block inode1))))
                   else (Inr inode1, s2)) of
               (Inl result, s3) \<Rightarrow> (result, s3)
             | (Inr inode2, s3) \<Rightarrow>
                 (case (if double_indirect_block inode2 \<noteq> 0 then
                          (case vdisk_read (disk s3) (double_indirect_block inode2) of
                             (Inl e, d') \<Rightarrow> (Inl (vdisk_code e), s3\<lparr>disk := d'\<rparr>)
                           | (Inr indirect_pointers, d') \<Rightarrow>
                               (case delete_double indirect_pointers [0 ..< 256] (s3\<lparr>disk := d'\<rparr>) of
                                  (Some e, s4) \<Rightarrow> (Inl (vdisk_code e), s4)
                                | (None, s4) \<Rightarrow>
                                    (Inr (inode2\<lparr>double_indirect_block := 0\<rparr>),
                                     free_block s4 (sint (double_indirect_block inode2)))))
                        else (Inr inode2, s3)) of
                    (Inl result, s5) \<Rightarrow> (result, s5)
                  | (Inr inode3, s5) \<Rightarrow>
                      (case write_inode s5 inode_num (inode3\<lparr>valid := 0, size_bytes := 0\<rparr>) of
                         (result, s6) \<Rightarrow> if result \<noteq> 0 then (result, s6) else (0, s6)))))))"

subsection \<open>stat\<close>

definition stat :: "fs_state \<Rightarrow> int \<Rightarrow> int \<times> fs_state" where
  "stat s inode_num =
     (if \<not> disk_mounted s then (E_DISK_NOT_MOUNTED, s)
      else if bad_inode_num s inode_num then (E_INVALID_INODE, s)
      else (case read_inode s inode_num False of
        (Inl result, s1) \<Rightarrow> (result, s1)
      | (Inr inode, s1) \<Rightarrow>
          if valid inode = 0 then (E_INVALID_INODE, s1)
          else (sint (size_bytes inode), s1)))"

subsection \<open>read\<close>

text \<open>
  The block loop of \<open>read\<close>. \<open>data\<close> is what has been copied into the caller's buffer so
  far, that is \<open>data[0 .. bytes_read)\<close>; \<open>current_offset\<close> is a \<open>uint32_t\<close>.
\<close>
function read_loop ::
  "fs_state \<Rightarrow> inode_t \<Rightarrow> int \<Rightarrow> int \<Rightarrow> u32 \<Rightarrow> byte list \<Rightarrow> int \<times> byte list \<times> fs_state" where
  "read_loop s inode bytes_to_read bytes_read current_offset data =
     (if bytes_read < bytes_to_read then
        let block_offset = uint (current_offset mod 1024) in
        (case get_block_for_offset s inode (sint current_offset) False of
           (block_num, inode1, s1) \<Rightarrow>
             if block_num \<le> 0 then (bytes_read, data, s1)
             else (case vdisk_read (disk s1) (word_of_int block_num) of
                (Inl e, d') \<Rightarrow>
                  ((if bytes_read > 0 then bytes_read else vdisk_code e), data, s1\<lparr>disk := d'\<rparr>)
              | (Inr blk, d') \<Rightarrow>
                  let bytes_to_copy = chunk block_offset (bytes_to_read - bytes_read) in
                  read_loop (s1\<lparr>disk := d'\<rparr>) inode1 bytes_to_read
                    (bytes_read + bytes_to_copy)
                    (current_offset + word_of_int bytes_to_copy)
                    (data @ map blk [nat block_offset ..< nat (block_offset + bytes_to_copy)])))
      else (bytes_read, data, s))"
  by pat_completeness auto
termination
proof (relation "measure (\<lambda>(s, inode, bytes_to_read, bytes_read, current_offset, data).
                              nat (bytes_to_read - bytes_read))", goal_cases)
  case 1
  show ?case by simp
next
  case (2 s inode bytes_to_read bytes_read current_offset data)
  have "0 < chunk (uint (current_offset mod 1024)) (bytes_to_read - bytes_read)"
    using 2(1) by (intro chunk_pos uint_mod_lt) simp
  with 2 show ?case by simp
qed

definition read :: "fs_state \<Rightarrow> int \<Rightarrow> int \<Rightarrow> int \<Rightarrow> int \<times> byte list \<times> fs_state" where
  "read s inode_num len offset =
     (if \<not> disk_mounted s then (E_DISK_NOT_MOUNTED, [], s)
      else if bad_inode_num s inode_num then (E_INVALID_INODE, [], s)
      else (case read_inode s inode_num False of
        (Inl result, s1) \<Rightarrow> (result, [], s1)
      | (Inr inode, s1) \<Rightarrow>
          if valid inode = 0 then (E_INVALID_INODE, [], s1)
          else
            let bytes_to_read =
                 (if (word_of_int offset :: u32) < size_bytes inode then
                    let n = sint (size_bytes inode - word_of_int offset)
                    in if n > len then len else n
                  else 0)
            in if bytes_to_read \<le> 0 then (0, [], s1)
               else read_loop s1 inode bytes_to_read 0 (word_of_int offset) []))"

subsection \<open>write\<close>

text \<open>
  The error exits of the zero-fill loop: \<open>inode.size\<close> becomes the larger of \<open>curr_offset\<close>
  and itself, and \<open>write_inode\<close> is called with its result ignored.
\<close>
definition fill_fail :: "fs_state \<Rightarrow> int \<Rightarrow> inode_t \<Rightarrow> int \<Rightarrow> fs_state" where
  "fill_fail s inode_num inode curr_offset =
     snd (write_inode s inode_num
            (inode\<lparr>size_bytes := (if (word_of_int curr_offset :: u32) > size_bytes inode
                                    then word_of_int curr_offset else size_bytes inode)\<rparr>))"

text \<open>
  The zero-fill loop \<open>for (curr_offset = zero_fill_start; curr_offset < zero_fill_end; )\<close>.
  \<open>Inl r\<close>: \<open>write\<close> returns \<open>r\<close> from inside the loop; \<open>Inr inode\<close>: the loop has finished.
\<close>
function fill_loop ::
  "fs_state \<Rightarrow> int \<Rightarrow> inode_t \<Rightarrow> int \<Rightarrow> int \<Rightarrow> (int + inode_t) \<times> fs_state" where
  "fill_loop s inode_num inode curr_offset zero_fill_end =
     (if curr_offset < zero_fill_end then
        let block_offset = c_mod curr_offset BLOCK_SIZE in
        (case get_block_for_offset s inode curr_offset True of
           (block_num, inode1, s1) \<Rightarrow>
             if block_num \<le> 0 then (Inl block_num, fill_fail s1 inode_num inode1 curr_offset)
             else
               let bytes_to_fill = chunk block_offset (zero_fill_end - curr_offset) in
               (case (if block_offset > 0 \<or> bytes_to_fill < BLOCK_SIZE
                      then vdisk_read (disk s1) (word_of_int block_num)
                      else (Inr zero_block, disk s1)) of
                  (Inl e, d2) \<Rightarrow>
                    (Inl (vdisk_code e), fill_fail (s1\<lparr>disk := d2\<rparr>) inode_num inode1 curr_offset)
                | (Inr blk, d2) \<Rightarrow>
                    (case vdisk_write d2 (word_of_int block_num)
                            (memset_block blk (nat block_offset) 0 (nat bytes_to_fill)) of
                       (Some e, d3) \<Rightarrow>
                         (Inl (vdisk_code e),
                          fill_fail (s1\<lparr>disk := d3\<rparr>) inode_num inode1 curr_offset)
                     | (None, d3) \<Rightarrow>
                         fill_loop (s1\<lparr>disk := d3\<rparr>) inode_num inode1
                           (curr_offset + bytes_to_fill) zero_fill_end)))
      else (Inr inode, s))"
  by pat_completeness auto
termination
proof (relation "measure (\<lambda>(s, inode_num, inode, curr_offset, zero_fill_end).
                              nat (zero_fill_end - curr_offset))", goal_cases)
  case 1
  show ?case by simp
next
  case (2 s inode_num inode curr_offset zero_fill_end)
  have "0 < chunk (c_mod curr_offset 1024) (zero_fill_end - curr_offset)"
    using 2(1) by (intro chunk_pos c_mod_lt) simp
  with 2 show ?case by simp
qed

text \<open>
  \<open>if ((uint32_t)current_offset > inode.size) { inode.size = current_offset;
  write_inode(inode_num, &inode); }\<close>, the result of \<open>write_inode\<close> being ignored or, at
  the end of \<open>write\<close>, leading to the same return value.
\<close>
definition persist_size :: "fs_state \<Rightarrow> int \<Rightarrow> inode_t \<Rightarrow> int \<Rightarrow> fs_state" where
  "persist_size s inode_num inode current_offset =
     (if (word_of_int current_offset :: u32) > size_bytes inode
      then snd (write_inode s inode_num (inode\<lparr>size_bytes := word_of_int current_offset\<rparr>))
      else s)"

text \<open>
  The payload loop \<open>while (bytes_written < len)\<close> followed by step 7 of \<open>write\<close>. A full
  block is written from a buffer that the source leaves uninitialised and then overwrites
  completely; the model starts it from \<open>zero_block\<close>.
\<close>
function write_loop ::
  "fs_state \<Rightarrow> int \<Rightarrow> inode_t \<Rightarrow> byte list \<Rightarrow> int \<Rightarrow> int \<Rightarrow> int \<Rightarrow> int \<times> fs_state" where
  "write_loop s inode_num inode data len bytes_written current_offset =
     (if bytes_written < len then
        let block_offset = c_mod current_offset BLOCK_SIZE in
        (case get_block_for_offset s inode current_offset True of
           (block_num, inode1, s1) \<Rightarrow>
             if block_num \<le> 0 then
               ((if bytes_written > 0 then bytes_written else block_num),
                persist_size s1 inode_num inode1 current_offset)
             else
               let bytes_to_write = chunk block_offset (len - bytes_written) in
               (case (if block_offset > 0 \<or> bytes_to_write < BLOCK_SIZE
                      then vdisk_read (disk s1) (word_of_int block_num)
                      else (Inr zero_block, disk s1)) of
                  (Inl e, d2) \<Rightarrow>
                    if bytes_written > 0
                    then (bytes_written, persist_size (s1\<lparr>disk := d2\<rparr>) inode_num inode1 current_offset)
                    else (vdisk_code e, s1\<lparr>disk := d2\<rparr>)
                | (Inr blk, d2) \<Rightarrow>
                    (case vdisk_write d2 (word_of_int block_num)
                            (memcpy_block blk (nat block_offset)
                               (drop (nat bytes_written) data) (nat bytes_to_write)) of
                       (Some e, d3) \<Rightarrow>
                         if bytes_written > 0
                         then (bytes_written,
                               persist_size (s1\<lparr>disk := d3\<rparr>) inode_num inode1 current_offset)
                         else (vdisk_code e, s1\<lparr>disk := d3\<rparr>)
                     | (None, d3) \<Rightarrow>
                         write_loop (s1\<lparr>disk := d3\<rparr>) inode_num inode1 data len
                           (bytes_written + bytes_to_write) (current_offset + bytes_to_write))))
      else (bytes_written, persist_size s inode_num inode current_offset))"
  by pat_completeness auto
termination
proof (relation "measure (\<lambda>(s, inode_num, inode, data, len, bytes_written, current_offset).
                              nat (len - bytes_written))", goal_cases)
  case 1
  show ?case by simp
next
  case (2 s inode_num inode data len bytes_written current_offset)
  have "0 < chunk (c_mod current_offset 1024) (len - bytes_written)"
    using 2(1) by (intro chunk_pos c_mod_lt) simp
  with 2 show ?case by simp
qed

text \<open>\<open>write\<close> of fs.c; the name carries a suffix because \<open>write\<close> is a keyword of Isabelle.\<close>
definition write_fs :: "fs_state \<Rightarrow> int \<Rightarrow> byte list \<Rightarrow> int \<Rightarrow> int \<Rightarrow> int \<times> fs_state" where
  "write_fs s inode_num data len offset =
     (if \<not> disk_mounted s then (E_DISK_NOT_MOUNTED, s)
      else if bad_inode_num s inode_num then (E_INVALID_INODE, s)
      else (case read_inode s inode_num False of
        (Inl result, s1) \<Rightarrow> (result, s1)
      | (Inr inode, s1) \<Rightarrow>
          if valid inode = 0 then (E_INVALID_INODE, s1)
          else if (word_of_int offset :: u32) > size_bytes inode then
            (case fill_loop s1 inode_num inode (sint (size_bytes inode)) offset of
               (Inl r, s2) \<Rightarrow> (r, s2)
             | (Inr inode2, s2) \<Rightarrow>
                 write_loop s2 inode_num (inode2\<lparr>size_bytes := word_of_int offset\<rparr>)
                   data len 0 offset)
          else write_loop s1 inode_num inode data len 0 offset))"

subsection \<open>format, mount, unmount\<close>

text \<open>
  Modelled from the spec: \<open>vdisk_on(path, &handle)\<close> binds a handle to the image behind
  the path or returns a device error, and \<open>vdisk_off(&handle)\<close> closes it; the image then
  holds what was written through the handle.
\<close>
definition vdisk_on :: "(string \<Rightarrow> DISK option) \<Rightarrow> string \<Rightarrow> vdisk_error + DISK" where
  "vdisk_on imgs disk_name = (case imgs disk_name of None \<Rightarrow> Inl ENOEXIST | Some d \<Rightarrow> Inr d)"

definition vdisk_off :: "fs_state \<Rightarrow> string \<Rightarrow> DISK \<Rightarrow> fs_state" where
  "vdisk_off s disk_name d = s\<lparr>images := (images s)(disk_name \<mapsto> d)\<rparr>"

text \<open>\<open>for (int i = 1; i <= num_inode_blocks; i++)\<close>, each round writing a zero block.\<close>
function format_loop :: "DISK \<Rightarrow> int \<Rightarrow> int \<Rightarrow> vdisk_error option \<times> DISK" where
  "format_loop d i nib =
     (if i \<le> nib then
        (case vdisk_write d (word_of_int i) zero_block of
           (Some e, d') \<Rightarrow> (Some e, d')
         | (None, d') \<Rightarrow> format_loop d' (i + 1) nib)
      else (None, d))"
  by pat_completeness auto
termination
  by (relation "measure (\<lambda>(d, i, n). nat (n + 1 - i))") auto

text \<open>
  \<open>inodes + INODES_PER_BLOCK - 1\<close> is an \<open>int\<close> addition; beyond \<open>INT_MAX\<close> it is
  undefined in C and wraps around here. \<open>nib\<close> is the local \<open>num_inode_blocks\<close>.
\<close>
definition format :: "fs_state \<Rightarrow> string \<Rightarrow> int \<Rightarrow> int \<times> fs_state" where
  "format s disk_name inodes0 =
     (if disk_mounted s then (E_DISK_ALREADY_MOUNTED, s)
      else
        let inodes = (if inodes0 \<le> 0 then 1 else inodes0) in
        (case vdisk_on (images s) disk_name of
           Inl e \<Rightarrow> (vdisk_code e, s)
         | Inr format_disk \<Rightarrow>
             let n = c_div (wrap32 (inodes + INODES_PER_BLOCK - 1)) INODES_PER_BLOCK;
                 nib = (if n \<le> 0 then 1 else n);
                 total_blocks = size_in_sectors format_disk
             in
             if (word_of_int nib :: u32) + 1 \<ge> total_blocks
             then (E_OUT_OF_SPACE, vdisk_off s disk_name format_disk)
             else
               let sb = \<lparr>magic = MAGIC_NUMBER, num_blocks = total_blocks,
                         num_inode_blocks = word_of_int nib, block_size = 1024\<rparr>
               in (case vdisk_write format_disk 0 (superblock_to_bytes zero_block sb) of
                     (Some e, d1) \<Rightarrow> (vdisk_code e, vdisk_off s disk_name d1)
                   | (None, d1) \<Rightarrow>
                       (case format_loop d1 1 nib of
                          (Some e, d2) \<Rightarrow> (vdisk_code e, vdisk_off s disk_name d2)
                        | (None, d2) \<Rightarrow>
                            (case vdisk_sync d2 of
                               (Some e, d3) \<Rightarrow> (vdisk_code e, vdisk_off s disk_name d3)
                             | (None, d3) \<Rightarrow> (0, vdisk_off s disk_name d3))))))"

text \<open>\<open>for (k = 0; k < POINTERS_PER_BLOCK; k++) if (pointers[k] != 0) block_bitmap[pointers[k]] = 1;\<close>\<close>
definition mark_entries :: "block \<Rightarrow> fs_state \<Rightarrow> fs_state" where
  "mark_entries pointers s =
     fold (\<lambda>k s. if get_ptr pointers k \<noteq> 0
                  then s\<lparr>block_bitmap := (block_bitmap s)(unat (get_ptr pointers k) := 1)\<rparr>
                  else s) [0 ..< 256] s"

fun mount_double :: "block \<Rightarrow> nat list \<Rightarrow> fs_state \<Rightarrow> vdisk_error option \<times> fs_state" where
  "mount_double indirect_pointers [] s = (None, s)"
| "mount_double indirect_pointers (j # js) s =
     (if get_ptr indirect_pointers j \<noteq> 0 then
        let s1 = s\<lparr>block_bitmap := (block_bitmap s)(unat (get_ptr indirect_pointers j) := 1)\<rparr> in
        (case vdisk_read (disk s1) (get_ptr indirect_pointers j) of
           (Inl e, d') \<Rightarrow> (Some e, s1\<lparr>disk := d'\<rparr>)
         | (Inr data_pointers, d') \<Rightarrow>
             mount_double indirect_pointers js (mark_entries data_pointers (s1\<lparr>disk := d'\<rparr>)))
      else mount_double indirect_pointers js s)"

text \<open>The body of the inode scan for one inode with \<open>valid \<noteq> 0\<close>.\<close>
definition mount_inode :: "inode_t \<Rightarrow> fs_state \<Rightarrow> vdisk_error option \<times> fs_state" where
  "mount_inode inode s =
     (let s1 = fold (\<lambda>j s. if direct_blocks inode ! j \<noteq> 0
                            then s\<lparr>block_bitmap := (block_bitmap s)(unat (direct_blocks inode ! j) := 1)\<rparr>
                            else s) [0 ..< 4] s
      in case (if indirect_block inode \<noteq> 0 then
                 let s2 = s1\<lparr>block_bitmap := (block_bitmap s1)(unat (indirect_block inode) := 1)\<rparr> in
                 (case vdisk_read (disk s2) (indirect_block inode) of
                    (Inl e, d') \<Rightarrow> (Some e, s2\<lparr>disk := d'\<rparr>)
                  | (Inr pointers, d') \<Rightarrow> (None, mark_entries pointers (s2\<lparr>disk := d'\<rparr>)))
               else (None, s1)) of
           (Some e, s3) \<Rightarrow> (Some e, s3)
         | (None, s3) \<Rightarrow>
             if double_indirect_block inode \<noteq> 0 then
               let s4 = s3\<lparr>block_bitmap := (block_bitmap s3)(unat (double_indirect_block inode) := 1)\<rparr> in
               (case vdisk_read (disk s4) (double_indirect_block inode) of
                  (Inl e, d') \<Rightarrow> (Some e, s4\<lparr>disk := d'\<rparr>)
                | (Inr indirect_pointers, d') \<Rightarrow>
                    mount_double indirect_pointers [0 ..< 256] (s4\<lparr>disk := d'\<rparr>))
             else (None, s3))"

text \<open>
  The inode scan \<open>for (uint32_t i = 0; i < num_inode_blocks * INODES_PER_BLOCK; i++)\<close>.
  The loop does not change the superblock, so its bound is passed as \<open>limit\<close>.
\<close>
function mount_scan :: "fs_state \<Rightarrow> u32 \<Rightarrow> u32 \<Rightarrow> int option \<times> fs_state" where
  "mount_scan s limit i =
     (if i < limit then
        (case read_inode s (sint i) True of
           (Inl result, s1) \<Rightarrow> (Some result, s1)
         | (Inr inode, s1) \<Rightarrow>
             if valid inode \<noteq> 0 then
               (case mount_inode inode s1 of
                  (Some e, s2) \<Rightarrow> (Some (vdisk_code e), s2)
                | (None, s2) \<Rightarrow> mount_scan s2 limit (i + 1))
             else mount_scan s1 limit (i + 1))
      else (None, s))"
  by pat_completeness auto
termination
  by (relation "measure (\<lambda>(s, limit, i). unat limit - unat i)") (auto simp: unat_inc_lt)

text \<open>
  \<open>mount\<close>. \<open>None\<close> stands for a call that does not return: with
  \<open>num_inode_blocks = 0xFFFFFFFF\<close> in the superblock the loop
  \<open>for (uint32_t i = 1; i <= superblock.num_inode_blocks; i++)\<close> never ends. The two
  memory allocations are taken to succeed, and a bitmap that has been freed is modelled as
  all zero. Stores to \<open>block_bitmap[p]\<close> for a pointer \<open>p\<close> read from the disk are
  recorded at index \<open>p\<close> whatever its value.
\<close>
definition mount :: "fs_state \<Rightarrow> string \<Rightarrow> (int \<times> fs_state) option" where
  "mount s disk_name =
     (if disk_mounted s then Some (E_DISK_ALREADY_MOUNTED, s)
      else (case vdisk_on (images s) disk_name of
        Inl e \<Rightarrow> Some (vdisk_code e, s)
      | Inr d0 \<Rightarrow>
          (case vdisk_read d0 0 of
             (Inl e, d1) \<Rightarrow> Some (vdisk_code e, vdisk_off (s\<lparr>disk := d1\<rparr>) disk_name d1)
           | (Inr block_buffer, d1) \<Rightarrow>
               let s1 = s\<lparr>disk := d1, superblock := superblock_of_bytes block_buffer\<rparr> in
               if magic (superblock s1) \<noteq> MAGIC_NUMBER
               then Some (E_CORRUPT_DISK, vdisk_off s1 disk_name d1)
               else if num_inode_blocks (superblock s1) = - 1 then None
               else
                 let s2 = s1\<lparr>block_bitmap :=
                            (\<lambda>k. if k \<le> unat (num_inode_blocks (superblock s1)) then 1 else 0)\<rparr>
                 in (case mount_scan s2 (inode_limit s2) 0 of
                       (Some result, s3) \<Rightarrow>
                         Some (result, vdisk_off (s3\<lparr>block_bitmap := (\<lambda>_. 0)\<rparr>) disk_name (disk s3))
                     | (None, s3) \<Rightarrow>
                         Some (0, s3\<lparr>mounted_disk := Some disk_name, disk_mounted := True\<rparr>)))))"

definition unmount :: "fs_state \<Rightarrow> int \<times> fs_state" where
  "unmount s =
     (if \<not> disk_mounted s then (E_DISK_NOT_MOUNTED, s)
      else (case vdisk_sync (disk s) of (result, d') \<Rightarrow>
        let s1 = s\<lparr>disk := d', block_bitmap := (\<lambda>_. 0), mounted_disk := None\<rparr>;
            s2 = (case mounted_disk s of
                    None \<Rightarrow> s1
                  | Some disk_name \<Rightarrow> vdisk_off s1 disk_name d')
        in ((case result of None \<Rightarrow> 0 | Some e \<Rightarrow> vdisk_code e),
            s2\<lparr>disk_mounted := False\<rparr>)))"

section \<open>Well-formed states\<close>

text \<open>An \<open>inode_t\<close> value has three padding bytes and four direct block pointers.\<close>
definition inode_ok :: "inode_t \<Rightarrow> bool" where
  "inode_ok ino \<longleftrightarrow> length (padding ino) = 3 \<and> length (direct_blocks ino) = 4"

text \<open>
  The inode record with index \<open>i\<close> as the disk holds it, by the addressing of
  \<open>read_inode\<close>: block \<open>1 + i / 32\<close>, byte offset \<open>(i % 32) * 32\<close>.
\<close>
definition inode_at :: "fs_state \<Rightarrow> nat \<Rightarrow> inode_t" where
  "inode_at s i = inode_of_bytes (sectors (disk s) (1 + i div 32)) ((i mod 32) * 32)"

text \<open>
  What \<open>format\<close> followed by \<open>mount\<close> establishes: a disk is mounted, the superblock
  gives the size of the device, the inode blocks are followed by at least one data block,
  and inode numbers and block numbers fit the \<open>int\<close> values the code passes around.
\<close>
definition mounted_ok :: "fs_state \<Rightarrow> bool" where
  "mounted_ok s \<longleftrightarrow>
     disk_mounted s
   \<and> size_in_sectors (disk s) = num_blocks (superblock s)
   \<and> unat (num_inode_blocks (superblock s)) + 1 < unat (num_blocks (superblock s))
   \<and> unat (num_inode_blocks (superblock s)) * 32 < 2 ^ 31
   \<and> unat (num_blocks (superblock s)) \<le> 2 ^ 31"

text \<open>The number of inodes, \<open>num_inode_blocks * INODES_PER_BLOCK\<close>.\<close>
definition num_inodes :: "fs_state \<Rightarrow> nat" where
  "num_inodes s = unat (num_inode_blocks (superblock s)) * 32"

text \<open>The device works: no I/O failure is scheduled.\<close>
definition reliable :: "fs_state \<Rightarrow> bool" where
  "reliable s \<longleftrightarrow> faults (disk s) = []"

text \<open>The state after a successful \<open>write_inode\<close>.\<close>
definition put_inode :: "fs_state \<Rightarrow> nat \<Rightarrow> inode_t \<Rightarrow> fs_state" where
  "put_inode s i ino = s\<lparr>disk := (disk s)\<lparr>sectors := (sectors (disk s))
       (1 + i div 32 := inode_to_bytes (sectors (disk s) (1 + i div 32)) ((i mod 32) * 32) ino)\<rparr>\<rparr>"

text \<open>The inode that \<open>create\<close> writes over a free inode record.\<close>
definition fresh_inode :: "inode_t \<Rightarrow> inode_t" where
  "fresh_inode inode = inode\<lparr>valid := 1, size_bytes := 0,
       direct_blocks := (direct_blocks inode)[0 := 0, 1 := 0, 2 := 0, 3 := 0],
       indirect_block := 0, double_indirect_block := 0\<rparr>"

text \<open>
  What the allocator needs of a mounted state: \<open>1 + num_inode_blocks\<close> does not wrap
  around, and a block number fits the \<open>int\<close> that \<open>find_free_block\<close> returns.
\<close>
definition alloc_ok :: "fs_state \<Rightarrow> bool" where
  "alloc_ok s \<longleftrightarrow> disk_mounted s \<and> num_inode_blocks (superblock s) \<noteq> - 1
     \<and> unat (num_blocks (superblock s)) \<le> 2 ^ 31"

text \<open>
  The block numbers that \<open>get_block_for_offset\<close> follows for a file offset: the direct
  slot; or the single-indirect page and its entry; or the double-indirect page, its entry
  and the entry of the page that one names. The path ends where a pointer is 0.
\<close>
definition map_path :: "fs_state \<Rightarrow> inode_t \<Rightarrow> int \<Rightarrow> u32 list" where
  "map_path s inode offset =
    (let block_index = nat (offset div BLOCK_SIZE) in
     if block_index < 4 then [direct_blocks inode ! block_index]
     else if block_index < 260 then
       (if indirect_block inode = 0 then []
        else [indirect_block inode,
              get_ptr (sectors (disk s) (unat (indirect_block inode))) (block_index - 4)])
     else
       (if double_indirect_block inode = 0 then []
        else if get_ptr (sectors (disk s) (unat (double_indirect_block inode)))
                  ((block_index - 260) div 256) = 0
        then [double_indirect_block inode]
        else [double_indirect_block inode,
              get_ptr (sectors (disk s) (unat (double_indirect_block inode)))
                ((block_index - 260) div 256),
              get_ptr (sectors (disk s) (unat (get_ptr (sectors (disk s)
                (unat (double_indirect_block inode))) ((block_index - 260) div 256))))
                ((block_index - 260) mod 256)]))"

text \<open>
  What a run of device operations consumed of the failure schedule: \<open>no_fault\<close> when no
  scheduled failure was among it, \<open>fault_ret r\<close> when every scheduled failure among it
  has the code \<open>r\<close>.
\<close>
definition no_fault :: "DISK \<Rightarrow> DISK \<Rightarrow> bool" where
  "no_fault d d' \<longleftrightarrow> (\<exists>pre. faults d = pre @ faults d' \<and> (\<forall>e. Some e \<notin> set pre))"

definition fault_ret :: "DISK \<Rightarrow> DISK \<Rightarrow> int \<Rightarrow> bool" where
  "fault_ret d d' r \<longleftrightarrow>
     (\<exists>pre. faults d = pre @ faults d' \<and> (\<forall>e. Some e \<in> set pre \<longrightarrow> r = vdisk_code e))"

section \<open>The block tree of a file\<close>

text \<open>
  The places where a block number of a file is stored: the four direct entries of the inode,
  its single-indirect and double-indirect pointers, the entries of the single-indirect page,
  the entries of the double-indirect page and the entries of the second-level pages.
  \<open>slot_ptr\<close> reads a place in a state, following the pages on the device as
  \<open>get_block_for_offset\<close> does; a place behind a missing page reads as 0.
\<close>
datatype slot = Direct nat | Ind | IndE nat | Dbl | DblE nat | DblEE nat nat

fun slot_ptr :: "fs_state \<Rightarrow> inode_t \<Rightarrow> slot \<Rightarrow> u32" where
  "slot_ptr s ino (Direct k) = (if k < 4 then direct_blocks ino ! k else 0)"
| "slot_ptr s ino Ind = indirect_block ino"
| "slot_ptr s ino (IndE k) =
     (if indirect_block ino \<noteq> 0 \<and> k < 256
      then get_ptr (sectors (disk s) (unat (indirect_block ino))) k else 0)"
| "slot_ptr s ino Dbl = double_indirect_block ino"
| "slot_ptr s ino (DblE j) =
     (if double_indirect_block ino \<noteq> 0 \<and> j < 256
      then get_ptr (sectors (disk s) (unat (double_indirect_block ino))) j else 0)"
| "slot_ptr s ino (DblEE j k) =
     (if double_indirect_block ino \<noteq> 0 \<and> j < 256 \<and> k < 256
         \<and> get_ptr (sectors (disk s) (unat (double_indirect_block ino))) j \<noteq> 0
      then get_ptr (sectors (disk s) (unat (get_ptr (sectors (disk s)
             (unat (double_indirect_block ino))) j))) k
      else 0)"

text \<open>The places that hold the number of a page of pointers, and the place of entry \<open>e\<close> of such a page.\<close>
fun is_page :: "slot \<Rightarrow> bool" where
  "is_page Ind = True" | "is_page Dbl = True" | "is_page (DblE j) = True" | "is_page _ = False"

fun child :: "slot \<Rightarrow> nat \<Rightarrow> slot" where
  "child Ind e = IndE e"
| "child Dbl e = DblE e"
| "child (DblE j) e = DblEE j e"
| "child sl e = sl"

text \<open>
  The place that \<open>get_block_for_offset\<close> consults for block index \<open>bi\<close> of a file:
  a direct entry below 4, an entry of the single-indirect page below 4 + 256, an entry of a
  second-level page beyond (fs.c 971, 985, 1058).
\<close>
definition leaf_of :: "nat \<Rightarrow> slot" where
  "leaf_of bi = (if bi < 4 then Direct bi
                 else if bi < 260 then IndE (bi - 4)
                 else DblEE ((bi - 260) div 256) ((bi - 260) mod 256))"

text \<open>
  A well-formed file: every nonzero number stored in its tree names a data block (a block
  after the inode table and inside the volume) that the bitmap marks as used, and no number
  is stored at two places. \<open>file_inv\<close> adds the well-formed mounted state and the inode record
  that fits its C types.
\<close>
definition data_block :: "fs_state \<Rightarrow> nat \<Rightarrow> bool" where
  "data_block s b \<longleftrightarrow> unat (num_inode_blocks (superblock s)) + 1 \<le> b
                     \<and> b < unat (num_blocks (superblock s))"

definition tree_ok :: "fs_state \<Rightarrow> inode_t \<Rightarrow> bool" where
  "tree_ok s ino \<longleftrightarrow>
     (\<forall>sl. slot_ptr s ino sl \<noteq> 0 \<longrightarrow>
        data_block s (unat (slot_ptr s ino sl)) \<and> block_bitmap s (unat (slot_ptr s ino sl)) \<noteq> 0)
   \<and> (\<forall>sl sl'. slot_ptr s ino sl \<noteq> 0 \<and> slot_ptr s ino sl = slot_ptr s ino sl' \<longrightarrow> sl = sl')"

definition file_inv :: "fs_state \<Rightarrow> inode_t \<Rightarrow> bool" where
  "file_inv s ino \<longleftrightarrow> mounted_ok s \<and> inode_ok ino \<and> tree_ok s ino"

text \<open>
  Two devices of one run: the failure schedule of the later one is what the operations in
  between have left of the earlier one's. \<open>fault_hit\<close> says that one of these operations
  failed. \<open>device_code\<close> are the return codes of the device layer (\<open>vdisk_code\<close>, -1 to -5).
\<close>
definition later :: "DISK \<Rightarrow> DISK \<Rightarrow> bool" where
  "later d d' \<longleftrightarrow> (\<exists>pre. faults d = pre @ faults d')"

definition fault_hit :: "DISK \<Rightarrow> DISK \<Rightarrow> bool" where
  "fault_hit d d' \<longleftrightarrow> (\<exists>pre e. faults d = pre @ faults d' \<and> Some e \<in> set pre)"

definition device_code :: "int \<Rightarrow> bool" where
  "device_code r \<longleftrightarrow> - 5 \<le> r \<and> r \<le> - 1"

text \<open>
  What \<open>get_block_for_offset\<close> with \<open>allocate\<close> may do to a file, whatever the device does:
  the volume and the inode's flag and size stay; a place that held a block keeps it; marked
  blocks stay marked; the inode table and the data blocks of the file keep their content;
  and a place that is filled holds a block that was free, is now marked and, when it is a
  data block, holds zeros.
\<close>
definition extends :: "fs_state \<Rightarrow> inode_t \<Rightarrow> fs_state \<Rightarrow> inode_t \<Rightarrow> bool" where
  "extends s ino s' ino' \<longleftrightarrow>
     disk_mounted s' = disk_mounted s \<and> superblock s' = superblock s
   \<and> size_in_sectors (disk s') = size_in_sectors (disk s) \<and> later (disk s) (disk s')
   \<and> valid ino' = valid ino \<and> size_bytes ino' = size_bytes ino \<and> padding ino' = padding ino
   \<and> (\<forall>sl. slot_ptr s ino sl \<noteq> 0 \<longrightarrow> slot_ptr s' ino' sl = slot_ptr s ino sl)
   \<and> (\<forall>b. block_bitmap s b \<noteq> 0 \<longrightarrow> block_bitmap s' b \<noteq> 0)
   \<and> (\<forall>b. b \<le> unat (num_inode_blocks (superblock s)) \<longrightarrow> sectors (disk s') b = sectors (disk s) b)
   \<and> (\<forall>sl. \<not> is_page sl \<and> slot_ptr s ino sl \<noteq> 0 \<longrightarrow>
         sectors (disk s') (unat (slot_ptr s ino sl)) = sectors (disk s) (unat (slot_ptr s ino sl)))
   \<and> (\<forall>sl. slot_ptr s ino sl = 0 \<and> slot_ptr s' ino' sl \<noteq> 0 \<longrightarrow>
         block_bitmap s (unat (slot_ptr s' ino' sl)) = 0
       \<and> block_bitmap s' (unat (slot_ptr s' ino' sl)) \<noteq> 0
       \<and> (\<not> is_page sl \<longrightarrow> sectors (disk s') (unat (slot_ptr s' ino' sl)) = zero_block))"

text \<open>
  The outcome \<open>(r, ino', s')\<close> of \<open>get_block_for_offset\<close> with \<open>allocate\<close> for the place \<open>lf\<close>:
  the file is extended and still well formed; a positive result is the block now stored at
  \<open>lf\<close>, zeroed when it is new; a device code means that an operation of the device failed;
  the result is never 0.
\<close>
definition step_post :: "fs_state \<Rightarrow> inode_t \<Rightarrow> slot \<Rightarrow> int \<Rightarrow> inode_t \<Rightarrow> fs_state \<Rightarrow> bool" where
  "step_post s ino lf r ino' s' \<longleftrightarrow>
     extends s ino s' ino' \<and> file_inv s' ino'
   \<and> (slot_ptr s ino lf \<noteq> 0 \<longrightarrow> ino' = ino)
   \<and> (0 < r \<longrightarrow> r < 2147483648 \<and> slot_ptr s' ino' lf = word_of_int r
         \<and> (slot_ptr s ino lf = 0 \<longrightarrow> sectors (disk s') (nat r) = zero_block))
   \<and> (device_code r \<longrightarrow> fault_hit (disk s) (disk s')) \<and> r \<noteq> 0"

text \<open>
  The content of a file as \<open>read\<close> sees it: byte \<open>k\<close> is mapped when the place for its block
  holds a block, and \<open>file_byte\<close> is then the byte at \<open>k mod 1024\<close> of that block.
\<close>
definition mapped :: "fs_state \<Rightarrow> inode_t \<Rightarrow> int \<Rightarrow> bool" where
  "mapped s ino k \<longleftrightarrow> slot_ptr s ino (leaf_of (nat (k div 1024))) \<noteq> 0"

definition file_byte :: "fs_state \<Rightarrow> inode_t \<Rightarrow> int \<Rightarrow> byte" where
  "file_byte s ino k =
     sectors (disk s) (unat (slot_ptr s ino (leaf_of (nat (k div 1024))))) (nat (k mod 1024))"

text \<open>
  What the block loops of \<open>write\<close> keep of a file while they allocate and write blocks: the
  volume, the inode's flag and size, the blocks already stored in the tree and the inode
  table.
\<close>
definition evolves :: "fs_state \<Rightarrow> inode_t \<Rightarrow> fs_state \<Rightarrow> inode_t \<Rightarrow> bool" where
  "evolves s ino s' ino' \<longleftrightarrow>
     disk_mounted s' = disk_mounted s \<and> superblock s' = superblock s
   \<and> size_in_sectors (disk s') = size_in_sectors (disk s) \<and> later (disk s) (disk s')
   \<and> valid ino' = valid ino \<and> size_bytes ino' = size_bytes ino \<and> padding ino' = padding ino
   \<and> (\<forall>sl. slot_ptr s ino sl \<noteq> 0 \<longrightarrow> slot_ptr s' ino' sl = slot_ptr s ino sl)
   \<and> (\<forall>b. b \<le> unat (num_inode_blocks (superblock s)) \<longrightarrow> sectors (disk s') b = sectors (disk s) b)"

text \<open>
  The invariant of a block loop that has written the bytes \<open>v\<close> to the range from \<open>lo\<close> to
  \<open>hi\<close>: the file is well formed, the range is mapped and holds \<open>v\<close>, and every byte outside
  the range that was mapped at the start is unchanged. \<open>loop_post\<close> adds that the in-memory
  inode is unchanged when the whole range was mapped at the start.
\<close>
definition loop_inv ::
  "fs_state \<Rightarrow> inode_t \<Rightarrow> fs_state \<Rightarrow> inode_t \<Rightarrow> int \<Rightarrow> int \<Rightarrow> (int \<Rightarrow> byte) \<Rightarrow> bool" where
  "loop_inv s ino s1 ino1 lo hi v \<longleftrightarrow>
     file_inv s1 ino1 \<and> evolves s ino s1 ino1
   \<and> (\<forall>k. lo \<le> k \<and> k < hi \<longrightarrow> mapped s1 ino1 k \<and> file_byte s1 ino1 k = v k)
   \<and> (\<forall>k. 0 \<le> k \<and> mapped s ino k \<and> (k < lo \<or> hi \<le> k) \<longrightarrow> file_byte s1 ino1 k = file_byte s ino k)"

definition loop_post ::
  "fs_state \<Rightarrow> inode_t \<Rightarrow> fs_state \<Rightarrow> inode_t \<Rightarrow> int \<Rightarrow> int \<Rightarrow> (int \<Rightarrow> byte) \<Rightarrow> bool" where
  "loop_post s ino s1 ino1 lo hi v \<longleftrightarrow>
     loop_inv s ino s1 ino1 lo hi v
   \<and> ((\<forall>k. lo \<le> k \<and> k < hi \<longrightarrow> mapped s ino k) \<longrightarrow> ino1 = ino)"

text \<open>
  \<open>c'\<close> is the furthest offset up to which the zero-fill loop, started at \<open>c\<close> in the state
  \<open>s\<close>, succeeds: with the end \<open>c'\<close> the loop finishes, and with every later end up to \<open>e\<close>
  it leaves \<open>write\<close> with an error.
\<close>
definition fill_stops :: "fs_state \<Rightarrow> int \<Rightarrow> inode_t \<Rightarrow> int \<Rightarrow> int \<Rightarrow> int \<Rightarrow> bool" where
  "fill_stops s i ino c c' e \<longleftrightarrow>
     (\<exists>ino1 s1. fill_loop s i ino c c' = (Inr ino1, s1))
   \<and> (\<forall>e'. c' < e' \<and> e' \<le> e \<longrightarrow> (\<exists>r s1. fill_loop s i ino c e' = (Inl r, s1)))"

text \<open>
  The outcome of the zero-fill loop started at \<open>c\<close> with the end \<open>e\<close>: either the loop has
  finished and the range holds zeros, or it has left \<open>write\<close> with a negative result \<open>r\<close> in
  a round that started at \<open>c'\<close>, the furthest offset up to which the fill succeeds; the
  range up to \<open>c'\<close> holds zeros, and the state is what \<open>fill_fail\<close> makes of the state of that
  round; a device code means that an operation of the device failed before \<open>fill_fail\<close> was
  called.
\<close>
definition fill_post ::
  "fs_state \<Rightarrow> inode_t \<Rightarrow> int \<Rightarrow> int \<Rightarrow> int \<Rightarrow> (int + inode_t) \<Rightarrow> fs_state \<Rightarrow> bool" where
  "fill_post s ino i c e res s' \<longleftrightarrow> (case res of
       Inr ino' \<Rightarrow> loop_inv s ino s' ino' c e (\<lambda>_. 0)
     | Inl r \<Rightarrow> r < 0 \<and> (\<exists>c' s1 ino1. c \<le> c' \<and> c' < e \<and> s' = fill_fail s1 i ino1 c'
           \<and> loop_inv s ino s1 ino1 c c' (\<lambda>_. 0) \<and> fill_stops s i ino c c' e
           \<and> (device_code r \<longrightarrow> fault_hit (disk s) (disk s1))))"

text \<open>A file without holes: every byte below the size is mapped.\<close>
definition dense :: "fs_state \<Rightarrow> inode_t \<Rightarrow> bool" where
  "dense s ino \<longleftrightarrow> (\<forall>k. 0 \<le> k \<and> k < uint (size_bytes ino) \<longrightarrow> mapped s ino k)"

text \<open>
  The state \<open>s'\<close> after \<open>write\<close> has written all of \<open>B\<close> at \<open>offset\<close> to the file of inode \<open>i\<close>,
  which was \<open>ino\<close> before: the device still works, the inode on the disk is valid, its size
  is the larger of the old size and the end of the payload (an empty payload leaves the
  size on the disk as it was), the payload is in the file, and the gap between the old size
  and \<open>offset\<close> holds zeros.
\<close>
definition written :: "fs_state \<Rightarrow> int \<Rightarrow> inode_t \<Rightarrow> byte list \<Rightarrow> int \<Rightarrow> fs_state \<Rightarrow> bool" where
  "written s i ino B offset s' \<longleftrightarrow>
     mounted_ok s' \<and> reliable s' \<and> i < int (num_inodes s') \<and> valid (inode_at s' (nat i)) \<noteq> 0
   \<and> uint (size_bytes (inode_at s' (nat i))) =
        (if B = [] then uint (size_bytes ino)
         else max (uint (size_bytes ino)) (offset + int (length B)))
   \<and> (B \<noteq> [] \<longrightarrow> tree_ok s' (inode_at s' (nat i))
       \<and> (\<forall>k. offset \<le> k \<and> k < offset + int (length B) \<longrightarrow>
             mapped s' (inode_at s' (nat i)) k
           \<and> file_byte s' (inode_at s' (nat i)) k = B ! nat (k - offset))
       \<and> (\<forall>k. uint (size_bytes ino) \<le> k \<and> k < offset \<longrightarrow>
             mapped s' (inode_at s' (nat i)) k \<and> file_byte s' (inode_at s' (nat i)) k = 0))"

section \<open>Example states\<close>

text \<open>
  A freshly formatted image of 16 blocks with one inode block, and the state after mounting
  it; \<open>ex_wfail\<close> is the same state on a device whose next write fails.
\<close>
definition ex_sb :: superblock_t where
  "ex_sb = \<lparr>magic = MAGIC_NUMBER, num_blocks = 16, num_inode_blocks = 1, block_size = 1024\<rparr>"

definition ex_disk :: DISK where
  "ex_disk = \<lparr>size_in_sectors = 16,
              sectors = (\<lambda>_. zero_block)(0 := superblock_to_bytes zero_block ex_sb),
              faults = []\<rparr>"

definition ex_state :: fs_state where
  "ex_state = \<lparr>disk_mounted = True, disk = ex_disk, superblock = ex_sb,
               block_bitmap = (\<lambda>k. if k \<le> 1 then 1 else 0),
               mounted_disk = Some ''disk.img'', images = (\<lambda>_. None)\<rparr>"

text \<open>The example state after \<open>create\<close> has allocated inode 0: an empty file.\<close>
definition ex_state1 :: fs_state where
  "ex_state1 = put_inode ex_state 0 (fresh_inode (inode_at ex_state 0))"

text \<open>An unformatted image of 16 blocks behind the path \<open>disk.img\<close>, with no disk mounted.\<close>
definition ex_raw :: DISK where
  "ex_raw = \<lparr>size_in_sectors = 16, sectors = (\<lambda>_ _. 255), faults = []\<rparr>"

definition ex_blank :: fs_state where
  "ex_blank = \<lparr>disk_mounted = False, disk = ex_raw, superblock = ex_sb,
               block_bitmap = (\<lambda>_. 0), mounted_disk = None,
               images = (\<lambda>_. None)(''disk.img'' \<mapsto> ex_raw)\<rparr>"

text \<open>
  The example state with a file of 5000 bytes in inode 0: four direct blocks and a
  single-indirect page in block 6. \<open>ex_file fs\<close> runs on a device with the schedule \<open>fs\<close>.
\<close>
definition ex_file_inode :: inode_t where
  "ex_file_inode = \<lparr>valid = 1, padding = [0, 0, 0], size_bytes = 5000,
      direct_blocks = [2, 3, 4, 5], indirect_block = 6, double_indirect_block = 0\<rparr>"

definition ex_file :: "vdisk_error option list \<Rightarrow> fs_state" where
  "ex_file fs = (put_inode ex_state 0 ex_file_inode)
       \<lparr>disk := (disk (put_inode ex_state 0 ex_file_inode))\<lparr>faults := fs\<rparr>\<rparr>"

text \<open>The example state with one empty file, on a device with the schedule \<open>fs\<close>.\<close>
definition ex_faulty :: "vdisk_error option list \<Rightarrow> fs_state" where
  "ex_faulty fs = ex_state1\<lparr>disk := (disk ex_state1)\<lparr>faults := fs\<rparr>\<rparr>"

text \<open>
  A file of 4096 bytes in inode 0 whose four direct blocks are the blocks 2 to 5, all
  marked in the bitmap; \<open>ex_four fs\<close> runs on a device with the schedule \<open>fs\<close>.
\<close>
definition ex_four_inode :: inode_t where
  "ex_four_inode = \<lparr>valid = 1, padding = [0, 0, 0], size_bytes = 4096,
      direct_blocks = [2, 3, 4, 5], indirect_block = 0, double_indirect_block = 0\<rparr>"

definition ex_four :: "vdisk_error option list \<Rightarrow> fs_state" where
  "ex_four fs = (put_inode ex_state 0 ex_four_inode)
       \<lparr>block_bitmap := (\<lambda>k. if k \<le> 5 then 1 else 0),
        disk := (disk (put_inode ex_state 0 ex_four_inode))\<lparr>faults := fs\<rparr>\<rparr>"

text \<open>That state after a call has allocated block 6 and written zeros to it.\<close>
definition ex_leak :: fs_state where
  "ex_leak = (ex_four [])\<lparr>block_bitmap := (block_bitmap (ex_four []))(6 := 1),
       disk := (disk (ex_four []))\<lparr>sectors := (sectors (disk (ex_four [])))(6 := zero_block)\<rparr>\<rparr>"

text \<open>
  The empty file of \<open>ex_state1\<close> after block 2 has been allocated for its first direct
  entry: \<open>ex_grown_inode\<close> is the inode in memory, and \<open>ex_one b fs\<close> is the state in which
  block 2 is marked and holds \<open>b\<close>, on a device with the schedule \<open>fs\<close>. The inode on the
  disk is still that of the empty file.
\<close>
definition ex_grown_inode :: inode_t where
  "ex_grown_inode = (inode_at ex_state1 0)\<lparr>direct_blocks := [2, 0, 0, 0]\<rparr>"

definition ex_one :: "block \<Rightarrow> vdisk_error option list \<Rightarrow> fs_state" where
  "ex_one b fs = (ex_faulty fs)\<lparr>block_bitmap := (block_bitmap ex_state1)(2 := 1),
       disk := (disk (ex_faulty fs))\<lparr>sectors := (sectors (disk ex_state1))(2 := b)\<rparr>\<rparr>"

section \<open>Conversions between \<open>int\<close> and \<open>uint32_t\<close>\<close>

declare find_free_from.simps [simp del]
declare create_loop.simps [simp del]
declare read_loop.simps [simp del]
declare fill_loop.simps [simp del]
declare write_loop.simps [simp del]
declare format_loop.simps [simp del]
declare mount_scan.simps [simp del]

lemma unat_inc: "(i :: u32) < n \<Longrightarrow> unat (i + 1) = unat i + 1"
  by (metis (no_types, lifting) add.commute add_0 inc_i inc_le
        unat_plus_simple unsigned_0 unsigned_1 word_gt_0)

lemma sint_word_of_int: "- (2 ^ 31) \<le> x \<Longrightarrow> x < 2 ^ 31 \<Longrightarrow> sint (word_of_int x :: u32) = x"
  by (simp add: sint_sbintrunc' signed_take_bit_int_eq_self)

lemma uint_word_of_int_id: "0 \<le> x \<Longrightarrow> x < 2 ^ 32 \<Longrightarrow> uint (word_of_int x :: u32) = x"
  by (simp add: uint_word_of_int take_bit_int_eq_self)

lemma unat_word_of_int: "0 \<le> x \<Longrightarrow> x < 2 ^ 32 \<Longrightarrow> unat (word_of_int x :: u32) = nat x"
  by (simp add: unat_eq_nat_uint uint_word_of_int_id)

lemma sint_of_nat_small: "k < 2 ^ 31 \<Longrightarrow> sint (word_of_nat k :: u32) = int k"
  using sint_word_of_int[of "int k"] by simp

lemma unat_of_nat_small: "k < 2 ^ 32 \<Longrightarrow> unat (word_of_nat k :: u32) = k"
  by (simp add: unat_of_nat take_bit_nat_eq_self)

lemma sint_small: "unat (w :: u32) < 2 ^ 31 \<Longrightarrow> sint w = int (unat w)"
  using sint_of_nat_small[of "unat w"] by simp

section \<open>Little-endian words in a block\<close>

lemma byte_lt: "unat (x :: byte) < 256"
  using unsigned_less[of x, where 'a=nat] by simp

lemma step_mod: "a < 256 \<Longrightarrow> (a + 256 * y) mod 256 = (a::nat)" by simp
lemma step_div: "a < 256 \<Longrightarrow> (a + 256 * y) div 256 = (y::nat)" by simp

lemma div_65536: "n div 65536 = n div 256 div 256" for n :: nat
  by (simp add: div_mult2_eq)

lemma div_16777216: "n div 16777216 = n div 256 div 256 div 256" for n :: nat
  by (simp add: div_mult2_eq)

lemma le_sum_bound:
  "a < 256 \<Longrightarrow> b < 256 \<Longrightarrow> c < 256 \<Longrightarrow> d < 256 \<Longrightarrow>
   a + 256 * b + 65536 * c + 16777216 * d < (4294967296 :: nat)"
  by arith

lemma le_parts:
  fixes a b c d :: nat
  assumes "a < 256" "b < 256" "c < 256" "d < 256"
  shows "(a + 256 * b + 65536 * c + 16777216 * d) mod 256 = a"
    and "(a + 256 * b + 65536 * c + 16777216 * d) div 256 mod 256 = b"
    and "(a + 256 * b + 65536 * c + 16777216 * d) div 65536 mod 256 = c"
    and "(a + 256 * b + 65536 * c + 16777216 * d) div 16777216 mod 256 = d"
proof -
  let ?n = "a + 256 * (b + 256 * (c + 256 * d))"
  have n: "a + 256 * b + 65536 * c + 16777216 * d = ?n" by simp
  have d1: "?n div 256 = b + 256 * (c + 256 * d)" by (rule step_div[OF assms(1)])
  have d2: "?n div 256 div 256 = c + 256 * d" unfolding d1 by (rule step_div[OF assms(2)])
  have d3: "?n div 256 div 256 div 256 = d" unfolding d2 using assms(3) by simp
  show "(a + 256 * b + 65536 * c + 16777216 * d) mod 256 = a"
    unfolding n by (rule step_mod[OF assms(1)])
  show "(a + 256 * b + 65536 * c + 16777216 * d) div 256 mod 256 = b"
    unfolding n d1 by (rule step_mod[OF assms(2)])
  show "(a + 256 * b + 65536 * c + 16777216 * d) div 65536 mod 256 = c"
    unfolding n div_65536 d2 by (rule step_mod[OF assms(3)])
  show "(a + 256 * b + 65536 * c + 16777216 * d) div 16777216 mod 256 = d"
    unfolding n div_16777216 d3 using assms(4) by simp
qed

lemma le_join:
  fixes n :: nat
  assumes "n < 4294967296"
  shows "n mod 256 + 256 * (n div 256 mod 256) + 65536 * (n div 65536 mod 256)
       + 16777216 * (n div 16777216 mod 256) = n"
proof -
  have a: "n = n mod 256 + 256 * (n div 256)" by simp
  have b: "n div 256 = n div 256 mod 256 + 256 * (n div 256 div 256)" by simp
  have c: "n div 256 div 256 = n div 256 div 256 mod 256 + 256 * (n div 256 div 256 div 256)" by simp
  have d: "n div 256 div 256 div 256 < 256" using assms by (simp add: div_mult2_eq)
  then have e: "n div 256 div 256 div 256 mod 256 = n div 256 div 256 div 256" by simp
  show ?thesis unfolding div_65536 div_16777216 e using a b c by linarith
qed

lemma unat_get_u32:
  "unat (get_u32 b off) = unat (b off) + 256 * unat (b (off + 1))
       + 65536 * unat (b (off + 2)) + 16777216 * unat (b (off + 3))"
  unfolding get_u32_def
  by (rule unat_of_nat_small) (use le_sum_bound[OF byte_lt byte_lt byte_lt byte_lt] in simp)

lemma unat_byte_of_nat: "unat (word_of_nat (n mod 256) :: byte) = n mod 256"
  by (simp add: unat_of_nat take_bit_nat_eq_self)

lemma get_set_u32 [simp]: "get_u32 (set_u32 b off w) off = w"
proof -
  have lt: "unat w < 4294967296" using unsigned_less[of w, where 'a=nat] by simp
  have "unat (get_u32 (set_u32 b off w) off) =
      unat w mod 256 + 256 * (unat w div 256 mod 256) + 65536 * (unat w div 65536 mod 256)
       + 16777216 * (unat w div 16777216 mod 256)"
    unfolding unat_get_u32 set_u32_def by (simp add: unat_byte_of_nat)
  also have "\<dots> = unat w" by (rule le_join[OF lt])
  finally show ?thesis by (simp add: word_unat_eq_iff)
qed

lemma set_u32_other [simp]: "k < off \<or> off + 4 \<le> k \<Longrightarrow> set_u32 b off w k = b k"
  by (auto simp: set_u32_def)

lemma get_u32_cong: "(\<And>k. off \<le> k \<Longrightarrow> k < off + 4 \<Longrightarrow> b k = b' k) \<Longrightarrow> get_u32 b off = get_u32 b' off"
  by (simp add: get_u32_def)

lemma get_set_u32_other [simp]:
  "off' + 4 \<le> off \<or> off + 4 \<le> off' \<Longrightarrow> get_u32 (set_u32 b off w) off' = get_u32 b off'"
  by (rule get_u32_cong) auto

lemma set_get_u32 [simp]: "set_u32 b off (get_u32 b off) = b"
proof
  fix k
  note p = le_parts[OF byte_lt byte_lt byte_lt byte_lt, of "b off" "b (off + 1)" "b (off + 2)" "b (off + 3)"]
  show "set_u32 b off (get_u32 b off) k = b k"
    unfolding set_u32_def unat_get_u32 p by auto
qed

lemma get_u32_zero [simp]: "get_u32 zero_block off = 0"
  by (simp add: get_u32_def zero_block_def)

lemma get_ptr_zero [simp]: "get_ptr zero_block k = 0"
  by (simp add: get_ptr_def)

lemma get_set_ptr [simp]: "get_ptr (set_ptr p k w) k' = (if k' = k then w else get_ptr p k')"
proof (cases "k' = k")
  case True then show ?thesis by (simp add: get_ptr_def set_ptr_def)
next
  case False
  then have "4 * k' + 4 \<le> 4 * k \<or> 4 * k + 4 \<le> 4 * k'" by arith
  with False show ?thesis by (simp add: get_ptr_def set_ptr_def)
qed

lemma set_get_ptr [simp]: "set_ptr p k (get_ptr p k) = p"
  by (simp add: get_ptr_def set_ptr_def)

section \<open>Inode records in a block\<close>

lemma list3: "length xs = 3 \<Longrightarrow> [xs ! 0, xs ! Suc 0, xs ! 2] = xs"
  by (cases xs; cases "tl xs"; cases "tl (tl xs)") auto

lemma list4: "length xs = 4 \<Longrightarrow> [xs ! 0, xs ! Suc 0, xs ! 2, xs ! 3] = xs"
  by (cases xs; cases "tl xs"; cases "tl (tl xs)"; cases "tl (tl (tl xs))") auto

lemma inode_of_bytes_ok [simp]: "inode_ok (inode_of_bytes b off)"
  by (simp add: inode_ok_def inode_of_bytes_def)

lemma inode_of_to_bytes:
  "inode_ok ino \<Longrightarrow> inode_of_bytes (inode_to_bytes b off ino) off = ino"
  by (cases ino) (simp add: inode_of_bytes_def inode_to_bytes_def inode_ok_def list3 list4)

lemma inode_to_bytes_other:
  "k < off \<or> off + 32 \<le> k \<Longrightarrow> inode_to_bytes b off ino k = b k"
  by (auto simp: inode_to_bytes_def)

lemma inode_of_bytes_cong:
  "(\<And>k. off \<le> k \<Longrightarrow> k < off + 32 \<Longrightarrow> b k = b' k) \<Longrightarrow> inode_of_bytes b off = inode_of_bytes b' off"
  by (simp add: inode_of_bytes_def get_u32_def)

lemma inode_of_to_bytes_other:
  "off' + 32 \<le> off \<or> off + 32 \<le> off' \<Longrightarrow>
   inode_of_bytes (inode_to_bytes b off ino) off' = inode_of_bytes b off'"
  by (rule inode_of_bytes_cong) (auto simp: inode_to_bytes_other)

lemma inode_to_of_bytes: "inode_to_bytes b off (inode_of_bytes b off) = b"
  by (simp add: inode_of_bytes_def inode_to_bytes_def)

section \<open>The inode table on a working device\<close>

lemma mounted_okD:
  assumes "mounted_ok s"
  shows "disk_mounted s"
    and "size_in_sectors (disk s) = num_blocks (superblock s)"
    and "unat (num_inode_blocks (superblock s)) + 1 < unat (num_blocks (superblock s))"
    and "unat (num_inode_blocks (superblock s)) * 32 < 2147483648"
    and "unat (num_blocks (superblock s)) \<le> 2147483648"
  using assms by (simp_all add: mounted_ok_def)

lemma vdisk_read_ok:
  "faults d = [] \<Longrightarrow> sector < size_in_sectors d \<Longrightarrow>
   vdisk_read d sector = (Inr (sectors d (unat sector)), d)"
  by (simp add: vdisk_read_def next_fault_def)

lemma vdisk_write_ok:
  "faults d = [] \<Longrightarrow> sector < size_in_sectors d \<Longrightarrow>
   vdisk_write d sector buf = (None, d\<lparr>sectors := (sectors d)(unat sector := buf)\<rparr>)"
  by (simp add: vdisk_write_def next_fault_def)

lemma unat_inode_limit:
  "mounted_ok s \<Longrightarrow> unat (inode_limit s) = num_inodes s"
  unfolding inode_limit_def num_inodes_def mounted_ok_def
  by (simp add: unat_word_ariths)

lemma num_inodes_bound: "mounted_ok s \<Longrightarrow> num_inodes s < 2 ^ 31"
  by (simp add: mounted_ok_def num_inodes_def)

lemma sint_inode_limit:
  assumes "mounted_ok s"
  shows "sint (inode_limit s) = int (num_inodes s)"
proof -
  have "unat (inode_limit s) < 2 ^ 31"
    using num_inodes_bound[OF assms] by (simp only: unat_inode_limit[OF assms])
  then have "sint (inode_limit s) = int (unat (inode_limit s))" by (rule sint_small)
  then show ?thesis by (simp only: unat_inode_limit[OF assms])
qed

lemma bad_inode_num_iff:
  assumes "mounted_ok s" "i < 2 ^ 31"
  shows "bad_inode_num s i \<longleftrightarrow> i < 0 \<or> int (num_inodes s) \<le> i"
proof (cases "i < 0")
  case True then show ?thesis by (simp add: bad_inode_num_def)
next
  case False
  then have "unat (word_of_int i :: u32) = nat i" using assms(2) by (intro unat_word_of_int) simp_all
  then have "inode_limit s \<le> word_of_int i \<longleftrightarrow> num_inodes s \<le> nat i"
    by (simp only: word_le_nat_alt unat_inode_limit[OF assms(1)])
  with False show ?thesis unfolding bad_inode_num_def by linarith
qed

lemma inode_block_in_range:
  assumes "mounted_ok s" "0 \<le> i" "i < int (num_inodes s)"
  shows "(word_of_int (1 + i div 32) :: u32) < size_in_sectors (disk s)"
    and "unat (word_of_int (1 + i div 32) :: u32) = 1 + nat i div 32"
proof -
  let ?nib = "unat (num_inode_blocks (superblock s))"
  have "nat i < ?nib * 32" using assms(2,3) unfolding num_inodes_def by linarith
  then have lt: "1 + nat i div 32 \<le> ?nib" by simp
  have n1: "?nib + 1 < unat (size_in_sectors (disk s))" and n2: "?nib * 32 < 2147483648"
    using mounted_okD[OF assms(1)] by simp_all
  have e: "1 + i div 32 = int (1 + nat i div 32)" using assms(2) by (simp add: zdiv_int)
  have "1 + nat i div 32 < 2 ^ 32" using lt n2 by simp
  then have u: "unat (word_of_nat (1 + nat i div 32) :: u32) = 1 + nat i div 32"
    by (rule unat_of_nat_small)
  have w: "(word_of_int (1 + i div 32) :: u32) = word_of_nat (1 + nat i div 32)"
    unfolding e by simp
  show "unat (word_of_int (1 + i div 32) :: u32) = 1 + nat i div 32"
    unfolding w by (rule u)
  show "(word_of_int (1 + i div 32) :: u32) < size_in_sectors (disk s)"
    unfolding w word_less_nat_alt u using lt n1 by linarith
qed

lemma not_bad_inode_num:
  assumes "mounted_ok s" "0 \<le> i" "i < int (num_inodes s)"
  shows "\<not> bad_inode_num s i"
proof -
  have "num_inodes s < 2147483648" using num_inodes_bound[OF assms(1)] by simp
  then have "i < 2147483648" using assms(3) by linarith
  then have "i < 2 ^ 31" by simp
  then show ?thesis using bad_inode_num_iff[OF assms(1)] assms(2,3) by simp
qed

lemma mounted_ok_mounted: "mounted_ok s \<Longrightarrow> disk_mounted s"
  by (simp add: mounted_ok_def)

lemma inode_byte_offset: "0 \<le> i \<Longrightarrow> nat (i mod 32 * 32) = nat i mod 32 * 32"
  by (simp add: nat_mult_distrib nat_mod_distrib)

lemma read_inode_ok:
  assumes "mounted_ok s" "reliable s" "0 \<le> i" "i < int (num_inodes s)"
  shows "read_inode s i b = (Inr (inode_at s (nat i)), s)"
proof -
  have nb: "\<not> bad_inode_num s i" by (rule not_bad_inode_num[OF assms(1,3,4)])
  show ?thesis
    using assms(2) nb inode_block_in_range[OF assms(1,3,4)] inode_byte_offset[OF assms(3)]
      mounted_ok_mounted[OF assms(1)]
    by (simp add: read_inode_def bad_inode_num_def vdisk_read_ok reliable_def
        inode_at_def Let_def)
qed

lemma write_inode_ok:
  assumes "mounted_ok s" "reliable s" "0 \<le> i" "i < int (num_inodes s)"
  shows "write_inode s i ino = (0, put_inode s (nat i) ino)"
proof -
  have nb: "\<not> bad_inode_num s i" by (rule not_bad_inode_num[OF assms(1,3,4)])
  show ?thesis
    using assms(2) nb inode_block_in_range[OF assms(1,3,4)] inode_byte_offset[OF assms(3)]
      mounted_ok_mounted[OF assms(1)]
    by (simp add: write_inode_def bad_inode_num_def vdisk_read_ok vdisk_write_ok reliable_def
        put_inode_def Let_def)
qed

lemma inode_at_put_inode:
  "inode_ok ino \<Longrightarrow> inode_at (put_inode s i ino) j = (if j = i then ino else inode_at s j)"
proof (cases "j = i")
  case True
  assume "inode_ok ino"
  with True show ?thesis by (simp add: inode_at_def put_inode_def inode_of_to_bytes)
next
  case False
  show ?thesis
  proof (cases "j div 32 = i div 32")
    case True
    with False have "j mod 32 \<noteq> i mod 32" by (metis div_mult_mod_eq)
    then have "j mod 32 * 32 + 32 \<le> i mod 32 * 32 \<or> i mod 32 * 32 + 32 \<le> j mod 32 * 32" by arith
    with True False show ?thesis
      by (simp add: inode_at_def put_inode_def inode_of_to_bytes_other)
  next
    case F: False
    with False show ?thesis by (simp add: inode_at_def put_inode_def)
  qed
qed

lemma put_inode_facts [simp]:
  "disk_mounted (put_inode s i ino) = disk_mounted s"
  "superblock (put_inode s i ino) = superblock s"
  "block_bitmap (put_inode s i ino) = block_bitmap s"
  "faults (disk (put_inode s i ino)) = faults (disk s)"
  "size_in_sectors (disk (put_inode s i ino)) = size_in_sectors (disk s)"
  by (simp_all add: put_inode_def)

section \<open>The block allocator\<close>

lemma find_free_from_none:
  "(\<forall>j. unat i \<le> j \<and> j < unat (num_blocks (superblock s)) \<longrightarrow> block_bitmap s j \<noteq> 0)
   \<Longrightarrow> find_free_from s i = (E_OUT_OF_SPACE, s)"
proof (induction s i rule: find_free_from.induct)
  case (1 s i)
  show ?case
  proof (cases "i < num_blocks (superblock s)")
    case False
    then show ?thesis by (subst find_free_from.simps) simp
  next
    case True
    then have lt: "unat i < unat (num_blocks (superblock s))" by (simp add: word_less_nat_alt)
    with 1(2) have nz: "block_bitmap s (unat i) \<noteq> 0" by simp
    have "find_free_from s (i + 1) = (E_OUT_OF_SPACE, s)"
      using 1(1)[OF True nz] 1(2) unat_inc[OF True] by simp
    with True nz show ?thesis by (subst find_free_from.simps) simp
  qed
qed

lemma find_free_from_some:
  "unat i \<le> k \<Longrightarrow> k < unat (num_blocks (superblock s)) \<Longrightarrow> block_bitmap s k = 0
   \<Longrightarrow> (\<forall>j. unat i \<le> j \<and> j < k \<longrightarrow> block_bitmap s j \<noteq> 0)
   \<Longrightarrow> find_free_from s i =
         (sint (word_of_nat k :: u32), s\<lparr>block_bitmap := (block_bitmap s)(k := 1)\<rparr>)"
proof (induction s i rule: find_free_from.induct)
  case (1 s i)
  have lt: "i < num_blocks (superblock s)"
    using 1(2,3) by (simp add: word_less_nat_alt)
  show ?case
  proof (cases "unat i = k")
    case True
    then have "word_of_nat k = i" by auto
    with True lt 1(4) show ?thesis by (subst find_free_from.simps) simp
  next
    case False
    with 1(2) have "unat i < k" by simp
    with 1(5) have nz: "block_bitmap s (unat i) \<noteq> 0" by simp
    have "find_free_from s (i + 1) =
            (sint (word_of_nat k :: u32), s\<lparr>block_bitmap := (block_bitmap s)(k := 1)\<rparr>)"
    proof (rule 1(1)[OF lt nz])
      show "unat (i + 1) \<le> k" using \<open>unat i < k\<close> unat_inc[OF lt] by simp
      show "k < unat (num_blocks (superblock s))" by (rule 1(3))
      show "block_bitmap s k = 0" by (rule 1(4))
      show "\<forall>j. unat (i + 1) \<le> j \<and> j < k \<longrightarrow> block_bitmap s j \<noteq> 0"
        using 1(5) unat_inc[OF lt] by simp
    qed
    with lt nz show ?thesis by (subst find_free_from.simps) simp
  qed
qed

lemma first_data_block_unat:
  "(n :: u32) \<noteq> - 1 \<Longrightarrow> unat (word_of_int (sint (1 + n)) :: u32) = unat n + 1"
  by (metis add.commute of_int_sint scast_id unat_inc word_order.not_eq_extremum)

lemma find_free_block_spec:
  assumes m: "disk_mounted s"
    and nib: "num_inode_blocks (superblock s) \<noteq> - 1"
    and nb: "unat (num_blocks (superblock s)) \<le> 2 ^ 31"
  shows "case find_free_block s of (r, s') \<Rightarrow>
     (if \<exists>k. unat (num_inode_blocks (superblock s)) + 1 \<le> k
              \<and> k < unat (num_blocks (superblock s)) \<and> block_bitmap s k = 0
      then \<exists>k. unat (num_inode_blocks (superblock s)) + 1 \<le> k
              \<and> k < unat (num_blocks (superblock s)) \<and> block_bitmap s k = 0
              \<and> (\<forall>j. unat (num_inode_blocks (superblock s)) + 1 \<le> j \<and> j < k
                       \<longrightarrow> block_bitmap s j \<noteq> 0)
              \<and> r = int k \<and> s' = s\<lparr>block_bitmap := (block_bitmap s)(k := 1)\<rparr>
      else r = E_OUT_OF_SPACE \<and> s' = s)
     \<and> r \<noteq> 0"
proof -
  let ?first = "unat (num_inode_blocks (superblock s)) + 1"
  let ?n = "unat (num_blocks (superblock s))"
  let ?i = "1 + num_inode_blocks (superblock s)"
  have fi: "unat ?i = ?first" using first_data_block_unat[OF nib] by simp
  have ff: "find_free_block s = find_free_from s ?i"
    using m by (simp add: find_free_block_def)
  let ?P = "\<lambda>k. ?first \<le> k \<and> k < ?n \<and> block_bitmap s k = 0"
  show ?thesis
  proof (cases "\<exists>k. ?P k")
    case True
    then obtain k0 where "?P k0" by blast
    define k where "k = (LEAST k. ?P k)"
    have Pk: "?P k" unfolding k_def by (rule LeastI[of ?P, OF \<open>?P k0\<close>])
    have least: "\<forall>j. ?first \<le> j \<and> j < k \<longrightarrow> block_bitmap s j \<noteq> 0"
    proof (intro allI impI notI)
      fix j assume j: "?first \<le> j \<and> j < k" and z: "block_bitmap s j = 0"
      then have "?P j" using Pk by simp
      then have "k \<le> j" unfolding k_def by (rule Least_le)
      with j show False by simp
    qed
    have "find_free_from s ?i =
            (sint (word_of_nat k :: u32), s\<lparr>block_bitmap := (block_bitmap s)(k := 1)\<rparr>)"
      using Pk least by (intro find_free_from_some) (simp_all add: fi)
    moreover have "sint (word_of_nat k :: u32) = int k"
      using Pk nb by (intro sint_of_nat_small) simp
    ultimately have "find_free_block s = (int k, s\<lparr>block_bitmap := (block_bitmap s)(k := 1)\<rparr>)"
      using ff by simp
    moreover have "int k \<noteq> 0" using Pk by simp
    ultimately show ?thesis using True Pk least by auto
  next
    case False
    then have "find_free_from s ?i = (E_OUT_OF_SPACE, s)"
      by (intro find_free_from_none) (simp add: fi)
    with False ff show ?thesis by simp
  qed
qed

text \<open>
  Claim C4. In a mounted state whose block counts fit the types the code uses
  (\<open>num_inode_blocks + 1\<close> does not wrap and block numbers fit an \<open>int\<close>),
  \<open>find_free_block\<close> returns the smallest block number \<open>k\<close> with
  \<open>num_inode_blocks + 1 \<le> k < num_blocks\<close> whose bitmap entry is 0, after setting that entry
  to 1 and changing nothing else; it returns \<open>E_OUT_OF_SPACE\<close>, leaving the state as it
  was, when there is no such block; and it never returns 0.
\<close>

theorem find_free_block_first_fit:
  assumes m: "disk_mounted s"
    and nib: "num_inode_blocks (superblock s) \<noteq> - 1"
    and nb: "unat (num_blocks (superblock s)) \<le> 2 ^ 31"
  shows "case find_free_block s of (r, s') \<Rightarrow>
     (if \<exists>k. unat (num_inode_blocks (superblock s)) + 1 \<le> k
              \<and> k < unat (num_blocks (superblock s)) \<and> block_bitmap s k = 0
      then \<exists>k. unat (num_inode_blocks (superblock s)) + 1 \<le> k
              \<and> k < unat (num_blocks (superblock s)) \<and> block_bitmap s k = 0
              \<and> (\<forall>j. unat (num_inode_blocks (superblock s)) + 1 \<le> j \<and> j < k
                       \<longrightarrow> block_bitmap s j \<noteq> 0)
              \<and> r = int k \<and> s' = s\<lparr>block_bitmap := (block_bitmap s)(k := 1)\<rparr>
      else r = E_OUT_OF_SPACE \<and> s' = s)
     \<and> r \<noteq> 0"
  by (rule find_free_block_spec[OF assms])

text \<open>The theorem at the example state: block 2 is the first free data block.\<close>

theorem find_free_block_first_fit_witness:
  "disk_mounted ex_state \<and> num_inode_blocks (superblock ex_state) \<noteq> - 1
   \<and> unat (num_blocks (superblock ex_state)) \<le> 2 ^ 31
   \<and> fst (find_free_block ex_state) = 2
   \<and> block_bitmap (snd (find_free_block ex_state)) 2 = 1"
proof -
  have h: "disk_mounted ex_state" "num_inode_blocks (superblock ex_state) \<noteq> - 1"
    "unat (num_blocks (superblock ex_state)) \<le> 2 ^ 31"
    by (simp_all add: ex_state_def ex_sb_def)
  have free2: "unat (num_inode_blocks (superblock ex_state)) + 1 \<le> 2
       \<and> 2 < unat (num_blocks (superblock ex_state)) \<and> block_bitmap ex_state 2 = 0"
    by (simp add: ex_state_def ex_sb_def)
  obtain r s' where rs: "find_free_block ex_state = (r, s')" by (cases "find_free_block ex_state")
  from find_free_block_first_fit[OF h] rs free2
  obtain k where k: "unat (num_inode_blocks (superblock ex_state)) + 1 \<le> k"
      "\<forall>j. unat (num_inode_blocks (superblock ex_state)) + 1 \<le> j \<and> j < k
            \<longrightarrow> block_bitmap ex_state j \<noteq> 0"
      "r = int k" "s' = ex_state\<lparr>block_bitmap := (block_bitmap ex_state)(k := 1)\<rparr>"
    by (auto split: if_splits)
  from k(2) free2 have "\<not> 2 < k" by blast
  moreover from k(1) have "2 \<le> k" by (simp add: ex_state_def ex_sb_def)
  ultimately have "k = 2" by simp
  with k rs h show ?thesis by simp
qed

text \<open>
  Claim C7, as the code has it. \<open>free_block\<close> clears the bitmap entry of \<open>block_num\<close>
  exactly when a disk is mounted and \<open>0 < block_num < num_blocks\<close>, and changes nothing
  else; the entry of block 0 is never changed. The guard does not exclude the inode blocks.
\<close>

theorem free_block_effect:
  assumes "- (2 ^ 31) \<le> block_num" and "block_num < 2 ^ 31"
  shows "free_block s block_num =
           (if disk_mounted s \<and> 0 < block_num \<and> nat block_num < unat (num_blocks (superblock s))
            then s\<lparr>block_bitmap := (block_bitmap s)(nat block_num := 0)\<rparr> else s)
         \<and> block_bitmap (free_block s block_num) 0 = block_bitmap s 0"
proof -
  have "unat (word_of_int block_num :: u32) = nat block_num" if "0 < block_num"
    using that assms by (intro unat_word_of_int) simp_all
  then show ?thesis
    by (auto simp: free_block_def word_less_nat_alt)
qed

theorem free_block_effect_witness:
  "- (2 ^ 31) \<le> (5 :: int) \<and> (5 :: int) < 2 ^ 31
   \<and> block_bitmap (free_block (ex_state\<lparr>block_bitmap := (\<lambda>_. 1)\<rparr>) 5) 5 = 0
   \<and> block_bitmap (free_block (ex_state\<lparr>block_bitmap := (\<lambda>_. 1)\<rparr>) 5) 0 = 1"
  using free_block_effect[of 5 "ex_state\<lparr>block_bitmap := (\<lambda>_. 1)\<rparr>"]
  by (simp add: ex_state_def ex_sb_def)

text \<open>
  Claim C7 as stated fails: block 1 is the inode block of the example state, and
  \<open>free_block\<close> called with 1 clears its bitmap entry.
\<close>

theorem free_block_metadata_counterexample:
  "disk_mounted ex_state
   \<and> 1 \<le> unat (num_inode_blocks (superblock ex_state))
   \<and> block_bitmap ex_state 1 = 1
   \<and> block_bitmap (free_block ex_state 1) 1 = 0"
  by (simp add: free_block_def ex_state_def ex_sb_def)

section \<open>The mounted flag\<close>

text \<open>
  Claim C8. With no disk mounted, \<open>unmount\<close>, \<open>create\<close>, \<open>delete\<close>, \<open>stat\<close>, \<open>read\<close> and
  \<open>write\<close> return \<open>E_DISK_NOT_MOUNTED\<close>; with a disk mounted, \<open>format\<close> and \<open>mount\<close>
  return \<open>E_DISK_ALREADY_MOUNTED\<close>. In both cases the state (the static variables, the
  device and the images) is the one before the call, and \<open>read\<close> copies nothing.
\<close>

theorem mounted_flag_discipline:
  "(\<not> disk_mounted s \<longrightarrow>
      unmount s = (E_DISK_NOT_MOUNTED, s)
    \<and> create s = (E_DISK_NOT_MOUNTED, s)
    \<and> delete s inode_num = (E_DISK_NOT_MOUNTED, s)
    \<and> stat s inode_num = (E_DISK_NOT_MOUNTED, s)
    \<and> read s inode_num len offset = (E_DISK_NOT_MOUNTED, [], s)
    \<and> write_fs s inode_num data len offset = (E_DISK_NOT_MOUNTED, s))
   \<and> (disk_mounted s \<longrightarrow>
      format s disk_name inodes = (E_DISK_ALREADY_MOUNTED, s)
    \<and> mount s disk_name = Some (E_DISK_ALREADY_MOUNTED, s))"
  by (simp add: unmount_def create_def delete_def stat_def read_def write_fs_def
        format_def mount_def)

text \<open>The theorem at the example state, mounted and with its mounted flag cleared.\<close>

theorem mounted_flag_discipline_witness:
  "disk_mounted ex_state \<and> \<not> disk_mounted (ex_state\<lparr>disk_mounted := False\<rparr>)
   \<and> fst (format ex_state ''disk.img'' 10) = E_DISK_ALREADY_MOUNTED
   \<and> map_option fst (mount ex_state ''disk.img'') = Some E_DISK_ALREADY_MOUNTED
   \<and> fst (create (ex_state\<lparr>disk_mounted := False\<rparr>)) = E_DISK_NOT_MOUNTED
   \<and> fst (write_fs (ex_state\<lparr>disk_mounted := False\<rparr>) 0 [1, 2] 2 0) = E_DISK_NOT_MOUNTED"
  using mounted_flag_discipline[of ex_state 0 0 0 "[]" "''disk.img''" 10]
        mounted_flag_discipline[of "ex_state\<lparr>disk_mounted := False\<rparr>" 0 2 0 "[1, 2]" "''disk.img''" 10]
  by (simp add: ex_state_def)

section \<open>create\<close>

lemma fresh_inode_fields:
  "inode_ok ino \<Longrightarrow> inode_ok (fresh_inode ino) \<and> valid (fresh_inode ino) = 1
     \<and> size_bytes (fresh_inode ino) = 0 \<and> direct_blocks (fresh_inode ino) = [0, 0, 0, 0]
     \<and> indirect_block (fresh_inode ino) = 0 \<and> double_indirect_block (fresh_inode ino) = 0"
proof -
  assume "inode_ok ino"
  then have l: "length (direct_blocks ino) = 4" by (simp add: inode_ok_def)
  then obtain a b c d where "direct_blocks ino = [a, b, c, d]"
    by (metis list4)
  with \<open>inode_ok ino\<close> show ?thesis by (simp add: fresh_inode_def inode_ok_def)
qed

lemma create_loop_none:
  assumes ok: "mounted_ok s" "reliable s"
  shows "0 \<le> n \<Longrightarrow> (\<forall>j. nat n \<le> j \<and> j < num_inodes s \<longrightarrow> valid (inode_at s j) \<noteq> 0)
     \<Longrightarrow> create_loop s (int (num_inodes s)) n = (E_OUT_OF_INODES, s)"
proof (induction "num_inodes s - nat n" arbitrary: n)
  case 0
  then have "\<not> n < int (num_inodes s)" by linarith
  then show ?case by (subst create_loop.simps) simp
next
  case (Suc d)
  then have lt: "n < int (num_inodes s)" by linarith
  have rd: "read_inode s n False = (Inr (inode_at s (nat n)), s)"
    by (rule read_inode_ok[OF ok Suc.prems(1) lt])
  have nz: "valid (inode_at s (nat n)) \<noteq> 0" using Suc.prems lt by simp
  have "create_loop s (int (num_inodes s)) (n + 1) = (E_OUT_OF_INODES, s)"
  proof (rule Suc.hyps(1))
    show "d = num_inodes s - nat (n + 1)" using Suc.hyps(2) Suc.prems(1) by linarith
    show "0 \<le> n + 1" using Suc.prems(1) by simp
    show "\<forall>j. nat (n + 1) \<le> j \<and> j < num_inodes s \<longrightarrow> valid (inode_at s j) \<noteq> 0"
      using Suc.prems by (simp add: nat_add_distrib)
  qed
  with lt rd nz show ?case by (subst create_loop.simps) simp
qed

lemma create_loop_found:
  assumes ok: "mounted_ok s" "reliable s"
    and k: "k < num_inodes s" "valid (inode_at s k) = 0"
  shows "0 \<le> n \<Longrightarrow> nat n \<le> k \<Longrightarrow> (\<forall>j. nat n \<le> j \<and> j < k \<longrightarrow> valid (inode_at s j) \<noteq> 0)
     \<Longrightarrow> create_loop s (int (num_inodes s)) n = (int k, put_inode s k (fresh_inode (inode_at s k)))"
proof (induction "k - nat n" arbitrary: n)
  case 0
  then have n: "n = int k" by linarith
  have lt: "int k < int (num_inodes s)" using k(1) by simp
  have rd: "read_inode s (int k) False = (Inr (inode_at s k), s)"
    using read_inode_ok[OF ok _ lt] by simp
  have wr: "write_inode s (int k) (fresh_inode (inode_at s k)) = (0, put_inode s k (fresh_inode (inode_at s k)))"
    using write_inode_ok[OF ok _ lt] by simp
  show ?case unfolding n using lt rd wr k(2)
    by (subst create_loop.simps) (simp add: fresh_inode_def)
next
  case (Suc d)
  then have nk: "nat n < k" by linarith
  then have lt: "n < int (num_inodes s)" using k(1) by linarith
  have rd: "read_inode s n False = (Inr (inode_at s (nat n)), s)"
    by (rule read_inode_ok[OF ok Suc.prems(1) lt])
  have nz: "valid (inode_at s (nat n)) \<noteq> 0" using Suc.prems nk by simp
  have "create_loop s (int (num_inodes s)) (n + 1) = (int k, put_inode s k (fresh_inode (inode_at s k)))"
  proof (rule Suc.hyps(1))
    show "d = k - nat (n + 1)" using Suc.hyps(2) Suc.prems(1) by linarith
    show "0 \<le> n + 1" using Suc.prems(1) by simp
    show "nat (n + 1) \<le> k" using nk Suc.prems(1) by linarith
    show "\<forall>j. nat (n + 1) \<le> j \<and> j < k \<longrightarrow> valid (inode_at s j) \<noteq> 0"
      using Suc.prems by (simp add: nat_add_distrib)
  qed
  with lt rd nz show ?case by (subst create_loop.simps) simp
qed

text \<open>
  Claim C3. In a well-formed mounted state on a working device, \<open>create\<close> returns the
  smallest inode index whose \<open>valid\<close> byte is 0; afterwards that inode record on the disk
  has \<open>valid = 1\<close>, \<open>size = 0\<close> and all direct, indirect and double-indirect pointers 0,
  and every other inode record is unchanged. When no inode has \<open>valid = 0\<close> it returns
  \<open>E_OUT_OF_INODES\<close> and leaves the state as it was.
\<close>

theorem create_smallest_free:
  assumes ok: "mounted_ok s" "reliable s"
  shows "case create s of (r, s') \<Rightarrow>
     (if \<exists>i. i < num_inodes s \<and> valid (inode_at s i) = 0
      then \<exists>i. i < num_inodes s \<and> valid (inode_at s i) = 0
             \<and> (\<forall>j. j < i \<longrightarrow> valid (inode_at s j) \<noteq> 0)
             \<and> r = int i
             \<and> valid (inode_at s' i) = 1 \<and> size_bytes (inode_at s' i) = 0
             \<and> direct_blocks (inode_at s' i) = [0, 0, 0, 0]
             \<and> indirect_block (inode_at s' i) = 0 \<and> double_indirect_block (inode_at s' i) = 0
             \<and> (\<forall>j. j \<noteq> i \<longrightarrow> inode_at s' j = inode_at s j)
      else r = E_OUT_OF_INODES \<and> s' = s)"
proof -
  let ?P = "\<lambda>i. i < num_inodes s \<and> valid (inode_at s i) = 0"
  have cr: "create s = create_loop s (int (num_inodes s)) 0"
    using mounted_okD(1)[OF ok(1)] by (simp add: create_def sint_inode_limit[OF ok(1)])
  show ?thesis
  proof (cases "\<exists>i. ?P i")
    case True
    then obtain i0 where "?P i0" by blast
    define i where "i = (LEAST i. ?P i)"
    have Pi: "?P i" unfolding i_def by (rule LeastI[of ?P, OF \<open>?P i0\<close>])
    have least: "\<forall>j. j < i \<longrightarrow> valid (inode_at s j) \<noteq> 0"
    proof (intro allI impI notI)
      fix j assume j: "j < i" and z: "valid (inode_at s j) = 0"
      then have "?P j" using Pi by simp
      then have "i \<le> j" unfolding i_def by (rule Least_le)
      with j show False by simp
    qed
    have c: "create s = (int i, put_inode s i (fresh_inode (inode_at s i)))"
      unfolding cr using Pi least by (intro create_loop_found[OF ok]) simp_all
    have f: "inode_ok (fresh_inode (inode_at s i))" "valid (fresh_inode (inode_at s i)) = 1"
      "size_bytes (fresh_inode (inode_at s i)) = 0"
      "direct_blocks (fresh_inode (inode_at s i)) = [0, 0, 0, 0]"
      "indirect_block (fresh_inode (inode_at s i)) = 0"
      "double_indirect_block (fresh_inode (inode_at s i)) = 0"
      using fresh_inode_fields[of "inode_at s i"] by (simp_all add: inode_at_def)
    show ?thesis unfolding c using True Pi least f
      by (auto simp: inode_at_put_inode intro!: exI[of _ i])
  next
    case False
    then have "create_loop s (int (num_inodes s)) 0 = (E_OUT_OF_INODES, s)"
      by (intro create_loop_none[OF ok]) simp_all
    with False cr show ?thesis by simp
  qed
qed

text \<open>The theorem at the example state: no inode is in use there, and \<open>create\<close> returns 0.\<close>

theorem create_smallest_free_witness:
  "mounted_ok ex_state \<and> reliable ex_state \<and> fst (create ex_state) = 0
   \<and> valid (inode_at (snd (create ex_state)) 0) = 1"
proof -
  have ok: "mounted_ok ex_state" "reliable ex_state"
    by (simp_all add: mounted_ok_def reliable_def ex_state_def ex_disk_def ex_sb_def)
  have z: "0 < num_inodes ex_state \<and> valid (inode_at ex_state 0) = 0"
    by (simp add: num_inodes_def inode_at_def inode_of_bytes_def ex_state_def ex_disk_def
        ex_sb_def zero_block_def)
  obtain r s' where rs: "create ex_state = (r, s')" by (cases "create ex_state")
  from create_smallest_free[OF ok] rs z
  obtain i where i: "\<forall>j. j < i \<longrightarrow> valid (inode_at ex_state j) \<noteq> 0" "r = int i"
      "valid (inode_at s' i) = 1"
    by (auto split: if_splits)
  from i(1) z have "i = 0" by (cases "i = 0") auto
  with i rs ok show ?thesis by simp
qed

section \<open>The example state with one file\<close>

lemma ex_state_ok: "mounted_ok ex_state" "reliable ex_state"
  by (simp_all add: mounted_ok_def reliable_def ex_state_def ex_disk_def ex_sb_def)

lemma ex_state_inode0:
  "inode_at ex_state 0 = \<lparr>valid = 0, padding = [0, 0, 0], size_bytes = 0,
      direct_blocks = [0, 0, 0, 0], indirect_block = 0, double_indirect_block = 0\<rparr>"
  by (simp add: inode_at_def inode_of_bytes_def ex_state_def ex_disk_def zero_block_def
      get_u32_def)

lemma ex_state1_ok: "mounted_ok ex_state1" "reliable ex_state1"
  using ex_state_ok by (simp_all add: mounted_ok_def reliable_def ex_state1_def)

lemma ex_state1_num_inodes: "num_inodes ex_state1 = 32"
  by (simp add: num_inodes_def ex_state1_def ex_state_def ex_sb_def)

lemma ex_state1_inode0:
  "inode_at ex_state1 0 = \<lparr>valid = 1, padding = [0, 0, 0], size_bytes = 0,
      direct_blocks = [0, 0, 0, 0], indirect_block = 0, double_indirect_block = 0\<rparr>"
  unfolding ex_state1_def
  by (subst inode_at_put_inode) (simp_all add: ex_state_inode0 fresh_inode_def inode_ok_def)

lemma ex_state1_read_inode:
  "read_inode ex_state1 0 False = (Inr (inode_at ex_state1 0), ex_state1)"
  using read_inode_ok[OF ex_state1_ok, of 0 False] by (simp add: ex_state1_num_inodes)

lemma ex_state1_inode_num: "\<not> bad_inode_num ex_state1 0"
  using not_bad_inode_num[OF ex_state1_ok(1), of 0] by (simp add: ex_state1_num_inodes)

section \<open>write with a negative offset\<close>

lemma gbo_negative:
  "disk_mounted s \<Longrightarrow> offset < 0 \<Longrightarrow> get_block_for_offset s inode offset a = (E_INVALID_OFFSET, inode, s)"
  by (simp add: get_block_for_offset_def)

lemma write_loop_negative:
  assumes "disk_mounted s" "offset < 0"
  shows "write_loop s i inode data len 0 offset =
           ((if 0 < len then E_INVALID_OFFSET else 0), persist_size s i inode offset)"
  using assms by (subst write_loop.simps) (simp add: gbo_negative)

lemma vdisk_read_frame:
  "vdisk_read d sector = (r, d') \<Longrightarrow>
     sectors d' = sectors d \<and> size_in_sectors d' = size_in_sectors d"
  by (auto simp: vdisk_read_def next_fault_def split: list.splits option.splits if_splits)

lemma read_inode_frame:
  assumes "read_inode s i b = (r, s1)"
  shows "disk_mounted s1 = disk_mounted s" "superblock s1 = superblock s"
    "block_bitmap s1 = block_bitmap s" "sectors (disk s1) = sectors (disk s)"
    "size_in_sectors (disk s1) = size_in_sectors (disk s)"
    "mounted_disk s1 = mounted_disk s" "images s1 = images s"
  using assms
  by (auto simp: read_inode_def Let_def split: if_splits prod.splits sum.splits
      dest: vdisk_read_frame)

lemma write_fs_negative:
  assumes m: "disk_mounted s" and nb: "\<not> bad_inode_num s i"
    and rd: "read_inode s i False = (Inr inode, s1)" and v: "valid inode \<noteq> 0"
    and neg: "offset < 0" and sz: "unat (size_bytes inode) < 2 ^ 31"
  shows "write_fs s i data len offset = ((if 0 < len then E_INVALID_OFFSET else 0), s1)"
proof -
  have m1: "disk_mounted s1" using read_inode_frame(1)[OF rd] m by simp
  have "sint (size_bytes inode) = int (unat (size_bytes inode))" by (rule sint_small[OF sz])
  then have nofill: "\<not> sint (size_bytes inode) < offset" using neg by linarith
  have fl: "fill_loop s1 i inode (sint (size_bytes inode)) offset = (Inr inode, s1)"
    using nofill by (subst fill_loop.simps) simp
  show ?thesis
  proof (cases "(word_of_int offset :: u32) > size_bytes inode")
    case True
    have "write_loop s1 i (inode\<lparr>size_bytes := word_of_int offset\<rparr>) data len 0 offset =
           ((if 0 < len then E_INVALID_OFFSET else 0), s1)"
      using write_loop_negative[OF m1 neg] by (simp add: persist_size_def)
    with True m nb rd v fl show ?thesis by (simp add: write_fs_def)
  next
    case False
    have "write_loop s1 i inode data len 0 offset =
           ((if 0 < len then E_INVALID_OFFSET else 0), s1)"
      using write_loop_negative[OF m1 neg] False by (simp add: persist_size_def)
    with False m nb rd v show ?thesis by (simp add: write_fs_def)
  qed
qed

text \<open>
  Claim C10, as the code has it. In a mounted state, for a valid inode whose size is below
  \<open>2^31\<close> (every file's is) and \<open>offset < 0\<close>, \<open>write\<close> returns \<open>E_INVALID_OFFSET\<close> when
  \<open>len > 0\<close> and 0 when \<open>len \<le> 0\<close>. It writes nothing: the state afterwards is the one
  left by the initial \<open>read_inode\<close>, whose sectors, bitmap and inode record are those
  before the call.
\<close>

theorem write_negative_offset:
  assumes "disk_mounted s" and "\<not> bad_inode_num s i"
    and "read_inode s i False = (Inr inode, s1)" and "valid inode \<noteq> 0"
    and "unat (size_bytes inode) < 2 ^ 31"
    and "offset < 0"
  shows "write_fs s i data len offset = ((if 0 < len then E_INVALID_OFFSET else 0), s1)
       \<and> sectors (disk s1) = sectors (disk s) \<and> block_bitmap s1 = block_bitmap s
       \<and> inode_at s1 (nat i) = inode_at s (nat i)"
  using write_fs_negative[OF assms(1,2,3,4,6,5)] read_inode_frame[OF assms(3)]
  by (simp add: inode_at_def)

theorem write_negative_offset_witness:
  "disk_mounted ex_state1 \<and> \<not> bad_inode_num ex_state1 0
   \<and> read_inode ex_state1 0 False = (Inr (inode_at ex_state1 0), ex_state1)
   \<and> valid (inode_at ex_state1 0) \<noteq> 0 \<and> unat (size_bytes (inode_at ex_state1 0)) < 2 ^ 31
   \<and> (- 5 :: int) < 0
   \<and> write_fs ex_state1 0 [1, 2, 3] 3 (- 5) = (E_INVALID_OFFSET, ex_state1)"
  using write_negative_offset[OF mounted_okD(1)[OF ex_state1_ok(1)] ex_state1_inode_num
          ex_state1_read_inode, of "- 5" "[1, 2, 3]" 3]
        mounted_okD(1)[OF ex_state1_ok(1)] ex_state1_inode_num ex_state1_read_inode
  by (simp add: ex_state1_inode0)

text \<open>
  Claim C10 as stated fails for a write of length 0: the payload loop is not entered,
  \<open>get_block_for_offset\<close> is never asked about the negative offset, and \<open>write\<close> returns 0.
\<close>

theorem write_negative_offset_counterexample:
  "disk_mounted ex_state1 \<and> valid (inode_at ex_state1 0) = 1
   \<and> fst (write_fs ex_state1 0 [] 0 (- 1)) = 0"
  using write_fs_negative[OF mounted_okD(1)[OF ex_state1_ok(1)] ex_state1_inode_num
          ex_state1_read_inode, of "- 1" "[]" 0]
        mounted_okD(1)[OF ex_state1_ok(1)]
  by (simp add: ex_state1_inode0)

section \<open>format\<close>

lemma vdisk_sync_ok: "faults d = [] \<Longrightarrow> vdisk_sync d = (None, d)"
  by (simp add: vdisk_sync_def next_fault_def)

lemma format_loop_ok:
  assumes "faults d = []" "1 \<le> i" "n < 2 ^ 31" "nat n < unat (size_in_sectors d)"
  shows "format_loop d i n =
     (None, d\<lparr>sectors := (\<lambda>k. if nat i \<le> k \<and> k \<le> nat n then zero_block else sectors d k)\<rparr>)"
  using assms
proof (induction "nat (n + 1 - i)" arbitrary: d i)
  case 0
  then have "\<not> i \<le> n" by linarith
  then have "(\<lambda>k. if nat i \<le> k \<and> k \<le> nat n then zero_block else sectors d k) = sectors d"
    using 0(3) by (intro ext) auto
  with \<open>\<not> i \<le> n\<close> show ?case by (subst format_loop.simps) simp
next
  case (Suc m)
  then have le: "i \<le> n" by linarith
  have u: "unat (word_of_int i :: u32) = nat i"
    using Suc.prems le by (intro unat_word_of_int) simp_all
  have lt: "(word_of_int i :: u32) < size_in_sectors d"
    unfolding word_less_nat_alt u using le Suc.prems by linarith
  let ?d1 = "d\<lparr>sectors := (sectors d)(nat i := zero_block)\<rparr>"
  have w: "vdisk_write d (word_of_int i) zero_block = (None, ?d1)"
    using vdisk_write_ok[OF Suc.prems(1) lt] u by simp
  have ih: "format_loop ?d1 (i + 1) n =
     (None, ?d1\<lparr>sectors := (\<lambda>k. if nat (i + 1) \<le> k \<and> k \<le> nat n then zero_block else sectors ?d1 k)\<rparr>)"
  proof (rule Suc.hyps(1))
    show "m = nat (n + 1 - (i + 1))" using Suc.hyps(2) by linarith
  qed (use Suc.prems in simp_all)
  have "(\<lambda>k. if nat (i + 1) \<le> k \<and> k \<le> nat n then zero_block else sectors ?d1 k) =
        (\<lambda>k. if nat i \<le> k \<and> k \<le> nat n then zero_block else sectors d k)"
    using le Suc.prems(2) by (intro ext) (auto simp: nat_add_distrib)
  with ih have "format_loop ?d1 (i + 1) n =
     (None, d\<lparr>sectors := (\<lambda>k. if nat i \<le> k \<and> k \<le> nat n then zero_block else sectors d k)\<rparr>)"
    by simp
  with le w show ?case by (subst format_loop.simps) simp
qed

lemma superblock_roundtrip:
  "length (magic sb) = 16 \<Longrightarrow> superblock_of_bytes (superblock_to_bytes b sb) = sb"
proof -
  assume l: "length (magic sb) = 16"
  have "map (superblock_to_bytes b sb) [0 ..< 16] = map (\<lambda>k. magic sb ! k) [0 ..< 16]"
    by (rule map_cong) (simp_all add: superblock_to_bytes_def)
  also have "\<dots> = magic sb" using l map_nth[of "magic sb"] by simp
  finally have m: "map (superblock_to_bytes b sb) [0 ..< 16] = magic sb" .
  show ?thesis
    by (cases sb) (use m in \<open>simp add: superblock_of_bytes_def\<close>, simp add: superblock_to_bytes_def)
qed

lemma superblock_to_bytes_rest:
  "28 \<le> k \<Longrightarrow> superblock_to_bytes zero_block sb k = 0"
  by (simp add: superblock_to_bytes_def zero_block_def)

lemma c_div_pos: "0 < a \<Longrightarrow> c_div a 32 = a div 32"
  by (simp add: c_div_def)

lemma format_nib:
  assumes "inodes \<le> 2 ^ 31 - 32"
  defines "m \<equiv> (if inodes \<le> 0 then 1 else inodes)"
  defines "n \<equiv> c_div (wrap32 (m + INODES_PER_BLOCK - 1)) INODES_PER_BLOCK"
  shows "(if n \<le> 0 then 1 else n) = (m + 31) div 32" and "1 \<le> (m + 31) div 32"
    and "(m + 31) div 32 < 2 ^ 26 + 1"
proof -
  have m: "1 \<le> m" "m \<le> 2147483616" using assms(1) by (simp_all add: m_def)
  then have "wrap32 (m + 32 - 1) = m + 31"
    unfolding wrap32_def by (subst sint_word_of_int) simp_all
  then have n: "n = (m + 31) div 32" using m by (simp add: n_def c_div_pos)
  show p: "1 \<le> (m + 31) div 32" using m by simp
  show "(if n \<le> 0 then 1 else n) = (m + 31) div 32" using n p by simp
  show "(m + 31) div 32 < 2 ^ 26 + 1" using m by simp
qed

text \<open>
  Claim C9. With no disk mounted, an image behind the path, a working device and
  \<open>inodes + 31\<close> within the range of \<open>int\<close>, \<open>format\<close> computes
  \<open>num_inode_blocks = nib\<close>, the ceiling of \<open>max 1 inodes / 32\<close> (so \<open>nib \<ge> 1\<close>). When
  \<open>nib + 1 \<ge> num_blocks\<close> it returns \<open>E_OUT_OF_SPACE\<close> and the image is as before.
  Otherwise it returns 0, and the image then holds in block 0 the superblock with the magic,
  \<open>num_blocks\<close>, \<open>num_inode_blocks\<close> and \<open>block_size = 1024\<close> followed by zeros, and a zero
  block in each of the blocks \<open>1 .. nib\<close>; the blocks after them are unchanged.
\<close>

theorem format_layout:
  assumes nm: "\<not> disk_mounted s" and img: "images s disk_name = Some d" and rel: "faults d = []"
    and rng: "inodes \<le> 2 ^ 31 - 32"
  shows "\<exists>nib. 1 \<le> nib \<and> 32 * (nib - 1) < max 1 inodes \<and> max 1 inodes \<le> 32 * nib \<and>
     (case format s disk_name inodes of (r, s') \<Rightarrow>
        if int (unat (size_in_sectors d)) \<le> nib + 1
        then r = E_OUT_OF_SPACE \<and> images s' disk_name = Some d
        else r = 0 \<and> (\<exists>d'. images s' disk_name = Some d'
               \<and> size_in_sectors d' = size_in_sectors d
               \<and> superblock_of_bytes (sectors d' 0) =
                    \<lparr>magic = MAGIC_NUMBER, num_blocks = size_in_sectors d,
                     num_inode_blocks = word_of_int nib, block_size = 1024\<rparr>
               \<and> (\<forall>k. 28 \<le> k \<longrightarrow> sectors d' 0 k = 0)
               \<and> (\<forall>i. 1 \<le> i \<and> int i \<le> nib \<longrightarrow> sectors d' i = zero_block)
               \<and> (\<forall>i. nib < int i \<longrightarrow> sectors d' i = sectors d i)))"
proof -
  define m where "m = (if inodes \<le> 0 then 1 else inodes)"
  define nib where "nib = (m + 31) div 32"
  define sb where "sb = \<lparr>magic = MAGIC_NUMBER, num_blocks = size_in_sectors d,
                     num_inode_blocks = word_of_int nib, block_size = 1024\<rparr>"
  note fn = format_nib[OF rng, folded m_def, folded nib_def]
  have mm: "m = max 1 inodes" by (simp add: m_def)
  have nb: "1 \<le> nib" "nib < 67108865" using fn(2,3) by simp_all
  have u: "unat (word_of_int nib + 1 :: u32) = nat nib + 1"
  proof -
    have "(word_of_int nib + 1 :: u32) = word_of_int (nib + 1)" by simp
    moreover have "unat (word_of_int (nib + 1) :: u32) = nat (nib + 1)"
      using nb by (intro unat_word_of_int) simp_all
    ultimately show ?thesis using nb by (simp add: nat_add_distrib)
  qed
  have cmp: "(size_in_sectors d \<le> word_of_int nib + 1) \<longleftrightarrow> int (unat (size_in_sectors d)) \<le> nib + 1"
    unfolding word_le_nat_alt u using nb by linarith
  have on: "vdisk_on (images s) disk_name = Inr d" using img by (simp add: vdisk_on_def)
  have ceil: "32 * (nib - 1) < m" "m \<le> 32 * nib" unfolding nib_def by simp_all
  show ?thesis
  proof (intro exI[of _ nib] conjI nb(1))
    show "32 * (nib - 1) < max 1 inodes" "max 1 inodes \<le> 32 * nib" using ceil mm by simp_all
    show "case format s disk_name inodes of (r, s') \<Rightarrow>
        if int (unat (size_in_sectors d)) \<le> nib + 1
        then r = E_OUT_OF_SPACE \<and> images s' disk_name = Some d
        else r = 0 \<and> (\<exists>d'. images s' disk_name = Some d'
               \<and> size_in_sectors d' = size_in_sectors d
               \<and> superblock_of_bytes (sectors d' 0) =
                    \<lparr>magic = MAGIC_NUMBER, num_blocks = size_in_sectors d,
                     num_inode_blocks = word_of_int nib, block_size = 1024\<rparr>
               \<and> (\<forall>k. 28 \<le> k \<longrightarrow> sectors d' 0 k = 0)
               \<and> (\<forall>i. 1 \<le> i \<and> int i \<le> nib \<longrightarrow> sectors d' i = zero_block)
               \<and> (\<forall>i. nib < int i \<longrightarrow> sectors d' i = sectors d i))"
    proof (cases "int (unat (size_in_sectors d)) \<le> nib + 1")
      case True
      then have "format s disk_name inodes = (E_OUT_OF_SPACE, vdisk_off s disk_name d)"
        unfolding format_def Let_def m_def[symmetric] fn(1) using nm on cmp by simp
      with True show ?thesis by (simp add: vdisk_off_def)
    next
      case False
      then have sz: "nat nib + 1 < unat (size_in_sectors d)" using nb by linarith
      let ?d1 = "d\<lparr>sectors := (sectors d)(0 := superblock_to_bytes zero_block sb)\<rparr>"
      let ?d2 = "?d1\<lparr>sectors := (\<lambda>k. if nat 1 \<le> k \<and> k \<le> nat nib then zero_block else sectors ?d1 k)\<rparr>"
      have "(0 :: u32) < size_in_sectors d" using sz by (simp add: word_less_nat_alt)
      then have w0: "vdisk_write d 0 (superblock_to_bytes zero_block sb) = (None, ?d1)"
        using vdisk_write_ok[OF rel, of 0] by simp
      have fl: "format_loop ?d1 1 nib = (None, ?d2)"
        by (rule format_loop_ok) (use rel nb sz in simp_all)
      have sy: "vdisk_sync ?d2 = (None, ?d2)" by (rule vdisk_sync_ok) (simp add: rel)
      have f: "format s disk_name inodes = (0, vdisk_off s disk_name ?d2)"
        unfolding format_def Let_def m_def[symmetric] fn(1)
        using nm on cmp False w0 fl sy by (simp add: sb_def)
      have rt: "superblock_of_bytes (superblock_to_bytes zero_block sb) = sb"
        by (rule superblock_roundtrip) (simp add: sb_def MAGIC_NUMBER_def)
      show ?thesis unfolding f using False nb rt
        by (auto simp: vdisk_off_def sb_def superblock_to_bytes_rest)
    qed
  qed
qed

text \<open>The theorem for \<open>format("disk.img", 10)\<close> on the unformatted example image.\<close>

theorem format_layout_witness:
  "\<not> disk_mounted ex_blank \<and> images ex_blank ''disk.img'' = Some ex_raw \<and> faults ex_raw = []
   \<and> (10 :: int) \<le> 2 ^ 31 - 32
   \<and> fst (format ex_blank ''disk.img'' 10) = 0"
proof -
  have h: "\<not> disk_mounted ex_blank" "images ex_blank ''disk.img'' = Some ex_raw"
    "faults ex_raw = []" "(10 :: int) \<le> 2 ^ 31 - 32"
    by (simp_all add: ex_blank_def ex_raw_def)
  obtain r s' where rs: "format ex_blank ''disk.img'' 10 = (r, s')"
    by (cases "format ex_blank ''disk.img'' 10")
  from format_layout[OF h, unfolded rs]
  obtain nib where nib: "1 \<le> nib" "32 * (nib - 1) < max 1 10"
    and c: "if int (unat (size_in_sectors ex_raw)) \<le> nib + 1
        then r = E_OUT_OF_SPACE \<and> images s' ''disk.img'' = Some ex_raw
        else r = 0 \<and> (\<exists>d'. images s' ''disk.img'' = Some d'
               \<and> size_in_sectors d' = size_in_sectors ex_raw
               \<and> superblock_of_bytes (sectors d' 0) =
                    \<lparr>magic = MAGIC_NUMBER, num_blocks = size_in_sectors ex_raw,
                     num_inode_blocks = word_of_int nib, block_size = 1024\<rparr>
               \<and> (\<forall>k. 28 \<le> k \<longrightarrow> sectors d' 0 k = 0)
               \<and> (\<forall>i. 1 \<le> i \<and> int i \<le> nib \<longrightarrow> sectors d' i = zero_block)
               \<and> (\<forall>i. nib < int i \<longrightarrow> sectors d' i = sectors ex_raw i))"
    unfolding prod.case by (elim exE conjE)
  from nib have "nib = 1" by simp
  have sz: "\<not> int (unat (size_in_sectors ex_raw)) \<le> 1 + 1" by (simp add: ex_raw_def)
  from c have "r = 0" unfolding \<open>nib = 1\<close> if_not_P[OF sz] by (elim conjE)
  with rs h show ?thesis by simp
qed

section \<open>Errors in the block loop of read\<close>

lemma vdisk_code_neg: "vdisk_code e < 0"
  by (cases e) simp_all






lemma read_loop_round:
  assumes "br < n" "get_block_for_offset s ino (sint co) False = (r, ino1, s1)"
  shows "read_loop s ino n br co data =
     (if r \<le> 0 then (br, data, s1)
      else case vdisk_read (disk s1) (word_of_int r) of
          (Inl e, d') \<Rightarrow> ((if br > 0 then br else vdisk_code e), data, s1\<lparr>disk := d'\<rparr>)
        | (Inr blk, d') \<Rightarrow>
            read_loop (s1\<lparr>disk := d'\<rparr>) ino1 n (br + chunk (uint (co mod 1024)) (n - br))
              (co + word_of_int (chunk (uint (co mod 1024)) (n - br)))
              (data @ map blk [nat (uint (co mod 1024)) ..<
                 nat (uint (co mod 1024) + chunk (uint (co mod 1024)) (n - br))]))"
  by (subst read_loop.simps) (auto simp: assms Let_def split: prod.splits sum.splits)







lemma ex_file_disk [simp]: "(ex_file fs)\<lparr>disk := disk (ex_file fs')\<rparr> = ex_file fs'"
  by (simp add: ex_file_def)




section \<open>Allocation in get_block_for_offset\<close>

lemma vdisk_write_cases:
  assumes "vdisk_write d sec buf = (res, d')"
  shows "size_in_sectors d' = size_in_sectors d"
    and "res = None \<Longrightarrow> sectors d' = (sectors d)(unat sec := buf)"
    and "res \<noteq> None \<Longrightarrow> sectors d' = sectors d"
  using assms
  by (auto simp: vdisk_write_def next_fault_def split: list.splits option.splits if_splits)

lemma vdisk_read_cases:
  assumes "vdisk_read d sec = (res, d')"
  shows "size_in_sectors d' = size_in_sectors d" and "sectors d' = sectors d"
    and "\<And>blk. res = Inr blk \<Longrightarrow> blk = sectors d (unat sec)"
  using assms
  by (auto simp: vdisk_read_def next_fault_def split: list.splits option.splits if_splits)

lemma find_free_block_cases:
  assumes ok: "alloc_ok s"
  obtains (nospace) "find_free_block s = (E_OUT_OF_SPACE, s)"
  | (found) k where "find_free_block s = (int k, s\<lparr>block_bitmap := (block_bitmap s)(k := 1)\<rparr>)"
      "unat (num_inode_blocks (superblock s)) + 1 \<le> k" "k < unat (num_blocks (superblock s))"
      "block_bitmap s k = 0"
proof -
  have h: "disk_mounted s" "num_inode_blocks (superblock s) \<noteq> - 1"
    "unat (num_blocks (superblock s)) \<le> 2 ^ 31"
    using ok by (simp_all add: alloc_ok_def)
  obtain r s' where rs: "find_free_block s = (r, s')" by (cases "find_free_block s")
  from find_free_block_spec[OF h] rs show thesis
    by (auto split: if_splits intro: nospace found)
qed

lemma alloc_zeroed_cases:
  assumes aok: "alloc_ok s"
  obtains (nospace) "alloc_zeroed s = (Inl E_OUT_OF_SPACE, s)"
  | (fail) k e d' where "0 < k" "k < unat (num_blocks (superblock s))" "block_bitmap s k = 0"
      "vdisk_write (disk s) (word_of_nat k) zero_block = (Some e, d')"
      "alloc_zeroed s = (Inl (vdisk_code e), s\<lparr>disk := d'\<rparr>)"
      "unat (word_of_nat k :: u32) = k"
  | (ok) k d' where "0 < k" "k < unat (num_blocks (superblock s))" "block_bitmap s k = 0"
      "unat (num_inode_blocks (superblock s)) + 1 \<le> k"
      "vdisk_write (disk s) (word_of_nat k) zero_block = (None, d')"
      "alloc_zeroed s = (Inr (int k), s\<lparr>block_bitmap := (block_bitmap s)(k := 1), disk := d'\<rparr>)"
      "unat (word_of_nat k :: u32) = k"
  using aok
proof (cases rule: find_free_block_cases)
  case nospace
  then have "alloc_zeroed s = (Inl E_OUT_OF_SPACE, s)" by (simp add: alloc_zeroed_def)
  then show ?thesis by (rule that(1))
next
  case (found k)
  have m: "disk_mounted s" and nb: "unat (num_blocks (superblock s)) \<le> 2 ^ 31"
    using aok by (simp_all add: alloc_ok_def)
  have k31: "k < 2 ^ 31" using found(3) nb by simp
  then have k32: "k < 2 ^ 32" by simp
  have u: "unat (word_of_nat k :: u32) = k" by (rule unat_of_nat_small[OF k32])
  have lt: "(word_of_nat k :: u32) < num_blocks (superblock s)"
    unfolding word_less_nat_alt u by (rule found(3))
  have kpos: "0 < k" using found(2) by simp
  obtain res d' where w: "vdisk_write (disk s) (word_of_nat k) zero_block = (res, d')"
    by (cases "vdisk_write (disk s) (word_of_nat k) zero_block")
  show ?thesis
  proof (cases res)
    case None
    have "alloc_zeroed s = (Inr (int k), s\<lparr>block_bitmap := (block_bitmap s)(k := 1), disk := d'\<rparr>)"
      using found(1) w None by (simp add: alloc_zeroed_def)
    with kpos found w None u show ?thesis by (intro that(3)[of k d']) simp_all
  next
    case (Some e)
    have "(block_bitmap s)(k := 0) = block_bitmap s" using found(4) by (intro ext) simp
    then have "free_block (s\<lparr>block_bitmap := (block_bitmap s)(k := 1), disk := d'\<rparr>) (int k)
        = s\<lparr>disk := d'\<rparr>"
      using m kpos lt u by (simp add: free_block_def)
    then have "alloc_zeroed s = (Inl (vdisk_code e), s\<lparr>disk := d'\<rparr>)"
      using found(1) w Some by (simp add: alloc_zeroed_def)
    with kpos found w Some u show ?thesis by (intro that(2)[of k e d']) simp_all
  qed
qed

lemma alloc_ok_upd [simp]:
  "alloc_ok (s\<lparr>disk := d\<rparr>) = alloc_ok s"
  "alloc_ok (s\<lparr>block_bitmap := bm\<rparr>) = alloc_ok s"
  by (simp_all add: alloc_ok_def)

lemma free_block_restore:
  assumes "alloc_ok s" "0 < k" "k < unat (num_blocks (superblock s))" "block_bitmap s k = 0"
  shows "free_block (s\<lparr>block_bitmap := (block_bitmap s)(k := 1), disk := d\<rparr>) (int k) = s\<lparr>disk := d\<rparr>"
proof -
  have "k < 2 ^ 32" using assms(1,3) by (simp add: alloc_ok_def)
  then have u: "unat (word_of_nat k :: u32) = k" by (rule unat_of_nat_small)
  have lt: "(word_of_nat k :: u32) < num_blocks (superblock s)"
    unfolding word_less_nat_alt u by (rule assms(3))
  have "(block_bitmap s)(k := 0) = block_bitmap s" using assms(4) by (intro ext) simp
  then show ?thesis using assms(1,2) lt u by (simp add: free_block_def alloc_ok_def)
qed

lemma nat_word_neq0: "0 < k \<Longrightarrow> unat (word_of_nat k :: u32) = k \<Longrightarrow> (word_of_nat k :: u32) \<noteq> 0"
  by (metis unat_0 less_numeral_extra(3))

lemma gbo_entry_alloc:
  assumes aok: "alloc_ok s" and pm: "block_bitmap s (unat pb) \<noteq> 0"
    and g: "gbo_entry s ino pb e True = (r, ino', s')"
  shows "ino' = ino \<and> alloc_ok s' \<and> superblock s' = superblock s
    \<and> (\<forall>b. block_bitmap s' b \<noteq> block_bitmap s b \<longrightarrow>
          block_bitmap s b = 0 \<and> block_bitmap s' b = 1 \<and> sectors (disk s') b = zero_block
          \<and> get_ptr (sectors (disk s') (unat pb)) e = word_of_nat b
          \<and> (word_of_nat b :: u32) \<noteq> 0)
    \<and> (\<forall>b. block_bitmap s b \<noteq> 0 \<and> b \<noteq> unat pb \<longrightarrow> sectors (disk s') b = sectors (disk s) b)
    \<and> (sectors (disk s') (unat pb) = sectors (disk s) (unat pb)
        \<or> (\<exists>k. block_bitmap s' k \<noteq> block_bitmap s k
              \<and> sectors (disk s') (unat pb) = set_ptr (sectors (disk s) (unat pb)) e (word_of_nat k)))"
proof -
  obtain rr d1 where rd: "vdisk_read (disk s) pb = (rr, d1)" by (cases "vdisk_read (disk s) pb")
  note rc = vdisk_read_cases[OF rd]
  show ?thesis
  proof (cases rr)
    case (Inl x)
    with g rd have "r = vdisk_code x" "ino' = ino" "s' = s\<lparr>disk := d1\<rparr>"
      by (simp_all add: gbo_entry_def)
    with aok rc show ?thesis by simp
  next
    case (Inr page)
    let ?s1 = "s\<lparr>disk := d1\<rparr>"
    have a1: "alloc_ok ?s1" using aok by simp
    show ?thesis
    proof (cases "get_ptr page e = 0")
      case False
      with g rd Inr have "ino' = ino" "s' = ?s1" by (simp_all add: gbo_entry_def)
      with aok rc show ?thesis by simp
    next
      case True
      from a1 show ?thesis
      proof (cases rule: alloc_zeroed_cases)
        case nospace
        with g rd Inr True have "ino' = ino" "s' = ?s1" by (simp_all add: gbo_entry_def)
        with aok rc show ?thesis by simp
      next
        case (fail k x d')
        note wc = vdisk_write_cases[OF fail(4)]
        from fail(5) g rd Inr True have "ino' = ino" "s' = ?s1\<lparr>disk := d'\<rparr>"
          by (simp_all add: gbo_entry_def)
        with aok rc wc show ?thesis by simp
      next
        case (ok k d')
        note wc = vdisk_write_cases[OF ok(5)]
        let ?s2 = "?s1\<lparr>block_bitmap := (block_bitmap ?s1)(k := 1), disk := d'\<rparr>"
        let ?page' = "set_ptr page e (word_of_int (int k))"
        have kpb: "k \<noteq> unat pb" using ok(3) pm by auto
        obtain wr d3 where w3: "vdisk_write (disk ?s2) pb ?page' = (wr, d3)"
          by (cases "vdisk_write (disk ?s2) pb ?page'")
        note wc3 = vdisk_write_cases[OF w3]
        show ?thesis
        proof (cases wr)
          case (Some x)
          have "free_block (?s2\<lparr>disk := d3\<rparr>) (int k) = ?s1\<lparr>disk := d3\<rparr>"
            using free_block_restore[OF a1 ok(1) _ _, of d3] ok(2,3) by simp
          with ok(6) g rd Inr True w3 Some have "ino' = ino" "s' = ?s1\<lparr>disk := d3\<rparr>"
            by (simp_all add: gbo_entry_def Let_def)
          with aok rc wc wc3 Some ok(3,7) kpb pm show ?thesis by auto
        next
          case None
          with ok(6) g rd Inr True w3 have i: "ino' = ino" and s': "s' = ?s2\<lparr>disk := d3\<rparr>"
            by (simp_all add: gbo_entry_def Let_def)
          have pg: "page = sectors (disk s) (unat pb)" using rc(3)[OF Inr] .
          have sec: "sectors (disk s') = (sectors (disk s))(k := zero_block, unat pb := ?page')"
            using s' rc wc wc3 None ok(7) by simp
          have bm: "block_bitmap s' = (block_bitmap s)(k := 1)" using s' by simp
          have sb: "superblock s' = superblock s" "alloc_ok s'" using s' aok by simp_all
          show ?thesis unfolding i sec bm using sb ok(1,3) kpb pm pg nat_word_neq0[OF ok(1,7)]
            by (auto simp: i)

        qed
      qed
    qed
  qed
qed

lemma gbo_indirect_alloc:
  assumes aok: "alloc_ok s"
    and pm: "indirect_block ino \<noteq> 0 \<longrightarrow> block_bitmap s (unat (indirect_block ino)) \<noteq> 0"
    and g: "gbo_indirect s ino e True = (r, ino', s')"
  shows "alloc_ok s'
    \<and> (\<forall>b. block_bitmap s' b \<noteq> block_bitmap s b \<longrightarrow>
          block_bitmap s b = 0 \<and> block_bitmap s' b = 1 \<and> (word_of_nat b :: u32) \<noteq> 0
          \<and> (word_of_nat b = indirect_block ino'
              \<or> indirect_block ino' \<noteq> 0
                \<and> get_ptr (sectors (disk s') (unat (indirect_block ino'))) e = word_of_nat b)
          \<and> (sectors (disk s') b = zero_block
              \<or> (\<exists>e k. block_bitmap s' k \<noteq> block_bitmap s k
                    \<and> sectors (disk s') b = set_ptr zero_block e (word_of_nat k))))"
proof (cases "indirect_block ino = 0")
  case False
  with g have ge: "gbo_entry s ino (indirect_block ino) e True = (r, ino', s')"
    by (simp add: gbo_indirect_def)
  from gbo_entry_alloc[OF aok _ ge] False pm show ?thesis by auto
next
  case True
  from aok show ?thesis
  proof (cases rule: alloc_zeroed_cases)
    case nospace
    with g True have "ino' = ino" "s' = s" by (simp_all add: gbo_indirect_def)
    with aok show ?thesis by simp
  next
    case (fail k x d')
    with g True have "ino' = ino" "s' = s\<lparr>disk := d'\<rparr>" by (simp_all add: gbo_indirect_def)
    with aok show ?thesis by simp
  next
    case (ok k d')
    note wc = vdisk_write_cases[OF ok(5)]
    let ?s1 = "s\<lparr>block_bitmap := (block_bitmap s)(k := 1), disk := d'\<rparr>"
    let ?ino1 = "ino\<lparr>indirect_block := word_of_nat k\<rparr>"
    from ok(6) g True have ge: "gbo_entry ?s1 ?ino1 (word_of_nat k) e True = (r, ino', s')"
      by (simp add: gbo_indirect_def Let_def)
    have a1: "alloc_ok ?s1" using aok by simp
    have pm1: "block_bitmap ?s1 (unat (word_of_nat k :: u32)) \<noteq> 0" using ok(7) by simp
    note ea = gbo_entry_alloc[OF a1 pm1 ge, unfolded ok(7)]
    have i': "indirect_block ino' = word_of_nat k" and a': "alloc_ok s'" using ea by simp_all
    have nz: "(word_of_nat k :: u32) \<noteq> 0" using ok(1,7) by (metis unat_0 less_numeral_extra(3))
    have sk: "sectors (disk ?s1) k = zero_block" using wc ok(7) by simp
    have E: "\<And>b. block_bitmap s' b \<noteq> block_bitmap ?s1 b \<Longrightarrow>
          block_bitmap ?s1 b = 0 \<and> block_bitmap s' b = 1 \<and> sectors (disk s') b = zero_block
          \<and> get_ptr (sectors (disk s') k) e = word_of_nat b \<and> (word_of_nat b :: u32) \<noteq> 0"
      using ea by blast
    have P: "sectors (disk s') k = zero_block
        \<or> (\<exists>j. block_bitmap s' j \<noteq> block_bitmap ?s1 j
              \<and> sectors (disk s') k = set_ptr zero_block e (word_of_nat j))"
      using ea sk by auto
    have k1: "block_bitmap s' k = 1" using E[of k] by auto
    have P': "sectors (disk s') k = zero_block
        \<or> (\<exists>e j. block_bitmap s' j \<noteq> block_bitmap s j
              \<and> sectors (disk s') k = set_ptr zero_block e (word_of_nat j))"
      using P E ok(3) by (metis fun_upd_other fun_upd_same fs_state.select_convs(4)
          fs_state.surjective fs_state.update_convs(2,4) zero_neq_one)
    show ?thesis
    proof (intro conjI allI impI a')
      fix b assume ch: "block_bitmap s' b \<noteq> block_bitmap s b"
      show "block_bitmap s b = 0" using ch E[of b] ok(3) k1 by (cases "b = k") auto
      show "block_bitmap s' b = 1" using ch E[of b] ok(3) k1 by (cases "b = k") auto
      show "(word_of_nat b :: u32) \<noteq> 0" using ch E[of b] nz by (cases "b = k") auto
      show "word_of_nat b = indirect_block ino'
              \<or> indirect_block ino' \<noteq> 0
                \<and> get_ptr (sectors (disk s') (unat (indirect_block ino'))) e = word_of_nat b"
        using ch E[of b] i' nz ok(7) by (cases "b = k") auto
      show "sectors (disk s') b = zero_block
              \<or> (\<exists>e k. block_bitmap s' k \<noteq> block_bitmap s k
                    \<and> sectors (disk s') b = set_ptr zero_block e (word_of_nat k))"
        using ch E[of b] P' by (cases "b = k") auto
    qed
  qed
qed

lemma gbo_double_page_alloc:
  assumes aok: "alloc_ok s"
    and dm: "block_bitmap s (unat (double_indirect_block ino)) \<noteq> 0"
    and cm: "get_ptr (sectors (disk s) (unat (double_indirect_block ino))) (bi div 256) \<noteq> 0 \<longrightarrow>
             block_bitmap s (unat (get_ptr (sectors (disk s) (unat (double_indirect_block ino)))
                (bi div 256))) \<noteq> 0"
    and g: "gbo_double_page s ino bi True = (r, ino', s')"
  shows "ino' = ino \<and> alloc_ok s'
    \<and> (sectors (disk s') (unat (double_indirect_block ino))
           = sectors (disk s) (unat (double_indirect_block ino))
        \<or> (\<exists>e c. block_bitmap s' c \<noteq> block_bitmap s c
              \<and> sectors (disk s') (unat (double_indirect_block ino))
                  = set_ptr (sectors (disk s) (unat (double_indirect_block ino))) e (word_of_nat c)))
    \<and> (\<forall>b. block_bitmap s' b \<noteq> block_bitmap s b \<longrightarrow>
          block_bitmap s b = 0 \<and> block_bitmap s' b = 1 \<and> (word_of_nat b :: u32) \<noteq> 0
          \<and> (word_of_nat b = get_ptr (sectors (disk s') (unat (double_indirect_block ino))) (bi div 256)
              \<or> get_ptr (sectors (disk s') (unat (double_indirect_block ino))) (bi div 256) \<noteq> 0
                \<and> get_ptr (sectors (disk s') (unat (get_ptr (sectors (disk s')
                      (unat (double_indirect_block ino))) (bi div 256)))) (bi mod 256) = word_of_nat b)
          \<and> (sectors (disk s') b = zero_block
              \<or> (\<exists>e k. block_bitmap s' k \<noteq> block_bitmap s k
                    \<and> sectors (disk s') b = set_ptr zero_block e (word_of_nat k))))"
proof -
  let ?dbl = "double_indirect_block ino"
  let ?j = "bi div 256" let ?k = "bi mod 256"
  obtain rr d1 where rd: "vdisk_read (disk s) ?dbl = (rr, d1)" by (cases "vdisk_read (disk s) ?dbl")
  note rc = vdisk_read_cases[OF rd]
  let ?s1 = "s\<lparr>disk := d1\<rparr>"
  have a1: "alloc_ok ?s1" using aok by simp
  show ?thesis
  proof (cases rr)
    case (Inl x)
    with g rd have "ino' = ino" "s' = ?s1" by (simp_all add: gbo_double_page_def)
    with aok rc show ?thesis by simp
  next
    case (Inr page)
    have pg: "page = sectors (disk s) (unat ?dbl)" using rc(3)[OF Inr] .
    show ?thesis
    proof (cases "get_ptr page ?j = 0")
      case False
      let ?C = "get_ptr page ?j"
      from g rd Inr False have ge: "gbo_entry ?s1 ino ?C ?k True = (r, ino', s')"
        by (simp add: gbo_double_page_def Let_def)
      have pmC: "block_bitmap ?s1 (unat ?C) \<noteq> 0" using cm False pg by simp
      note ea = gbo_entry_alloc[OF a1 pmC ge]
      have E: "\<And>b. block_bitmap s' b \<noteq> block_bitmap s b \<Longrightarrow>
          block_bitmap s b = 0 \<and> block_bitmap s' b = 1 \<and> sectors (disk s') b = zero_block
          \<and> get_ptr (sectors (disk s') (unat ?C)) ?k = word_of_nat b \<and> (word_of_nat b :: u32) \<noteq> 0"
        using ea by simp
      have F: "\<And>b. block_bitmap s b \<noteq> 0 \<Longrightarrow> b \<noteq> unat ?C \<Longrightarrow>
                 sectors (disk s') b = sectors (disk s) b"
        using ea rc by simp
      have P: "sectors (disk s') (unat ?C) = sectors (disk s) (unat ?C)
        \<or> (\<exists>k. block_bitmap s' k \<noteq> block_bitmap s k
              \<and> sectors (disk s') (unat ?C) = set_ptr (sectors (disk s) (unat ?C)) ?k (word_of_nat k))"
        using ea rc by simp
      have i: "ino' = ino" "alloc_ok s'" using ea by simp_all
      show ?thesis
      proof (cases "unat ?C = unat ?dbl")
        case ne: False
        then have D: "sectors (disk s') (unat ?dbl) = sectors (disk s) (unat ?dbl)"
          using F[OF dm] by simp
        show ?thesis using i D E False pg by auto
      next
        case eq: True
        show ?thesis
        proof (intro conjI allI impI i)
          show "sectors (disk s') (unat ?dbl) = sectors (disk s) (unat ?dbl)
            \<or> (\<exists>e c. block_bitmap s' c \<noteq> block_bitmap s c
              \<and> sectors (disk s') (unat ?dbl) = set_ptr (sectors (disk s) (unat ?dbl)) e (word_of_nat c))"
            using P eq by auto
        next
          fix b assume ch: "block_bitmap s' b \<noteq> block_bitmap s b"
          note Eb = E[OF ch]
          show "block_bitmap s b = 0" "block_bitmap s' b = 1" "(word_of_nat b :: u32) \<noteq> 0"
            using Eb by simp_all
          show "sectors (disk s') b = zero_block
              \<or> (\<exists>e k. block_bitmap s' k \<noteq> block_bitmap s k
                    \<and> sectors (disk s') b = set_ptr zero_block e (word_of_nat k))"
            using Eb by simp
          have gk: "get_ptr (sectors (disk s') (unat ?dbl)) ?k = word_of_nat b" using Eb eq by simp
          show "word_of_nat b = get_ptr (sectors (disk s') (unat ?dbl)) ?j
              \<or> get_ptr (sectors (disk s') (unat ?dbl)) ?j \<noteq> 0
                \<and> get_ptr (sectors (disk s') (unat (get_ptr (sectors (disk s') (unat ?dbl)) ?j))) ?k
                   = word_of_nat b"
          proof (cases "?j = ?k")
            case True
            with gk show ?thesis by simp
          next
            case jk: False
            from P have "get_ptr (sectors (disk s') (unat ?dbl)) ?j = ?C"
              using eq pg jk by auto
            with False gk eq show ?thesis by simp
          qed
        qed
      qed
    next
      case True
      from a1 show ?thesis
      proof (cases rule: alloc_zeroed_cases)
        case nospace
        with g rd Inr True have "ino' = ino" "s' = ?s1" by (simp_all add: gbo_double_page_def Let_def)
        with aok rc show ?thesis by simp
      next
        case (fail c x d')
        with g rd Inr True have "ino' = ino" "s' = ?s1\<lparr>disk := d'\<rparr>"
          by (simp_all add: gbo_double_page_def Let_def)
        with aok rc vdisk_write_cases[OF fail(4)] show ?thesis by simp
      next
        case (ok c d')
        note wc = vdisk_write_cases[OF ok(5)]
        let ?s2 = "?s1\<lparr>block_bitmap := (block_bitmap ?s1)(c := 1), disk := d'\<rparr>"
        let ?page' = "set_ptr page ?j (word_of_int (int c))"
        have cd: "c \<noteq> unat ?dbl" using ok(3) dm by auto
        obtain wr d3 where w3: "vdisk_write (disk ?s2) ?dbl ?page' = (wr, d3)"
          by (cases "vdisk_write (disk ?s2) ?dbl ?page'")
        note wc3 = vdisk_write_cases[OF w3]
        show ?thesis
        proof (cases wr)
          case (Some x)
          have "free_block (?s2\<lparr>disk := d3\<rparr>) (int c) = ?s1\<lparr>disk := d3\<rparr>"
            using free_block_restore[OF a1 ok(1) _ _, of d3] ok(2,3) by simp
          with ok(6) g rd Inr True w3 Some have "ino' = ino" "s' = ?s1\<lparr>disk := d3\<rparr>"
            by (simp_all add: gbo_double_page_def Let_def)
          with aok rc wc wc3 Some ok(3,7) cd show ?thesis by auto
        next
          case None
          let ?s3 = "?s2\<lparr>disk := d3\<rparr>"
          have gp: "get_ptr ?page' ?j = word_of_nat c" by simp
          from ok(6) g rd Inr True w3 None
          have ge: "gbo_entry ?s3 ino (word_of_nat c) ?k True = (r, ino', s')"
            by (simp add: gbo_double_page_def Let_def)
          have a3: "alloc_ok ?s3" using aok by simp
          have pm3: "block_bitmap ?s3 (unat (word_of_nat c :: u32)) \<noteq> 0" using ok(7) by simp
          note ea = gbo_entry_alloc[OF a3 pm3 ge, unfolded ok(7)]
          have sec3: "sectors (disk ?s3) = (sectors (disk s))(c := zero_block, unat ?dbl := ?page')"
            using rc wc wc3 None ok(7) by simp
          have i: "ino' = ino" "alloc_ok s'" using ea by simp_all
          have E: "\<And>b. block_bitmap s' b \<noteq> block_bitmap ?s3 b \<Longrightarrow>
              block_bitmap ?s3 b = 0 \<and> block_bitmap s' b = 1 \<and> sectors (disk s') b = zero_block
              \<and> get_ptr (sectors (disk s') c) ?k = word_of_nat b \<and> (word_of_nat b :: u32) \<noteq> 0"
            using ea by blast
          have F: "\<And>b. block_bitmap ?s3 b \<noteq> 0 \<Longrightarrow> b \<noteq> c \<Longrightarrow>
                 sectors (disk s') b = sectors (disk ?s3) b"
            using ea by blast
          have P: "sectors (disk s') c = zero_block
            \<or> (\<exists>k. block_bitmap s' k \<noteq> block_bitmap ?s3 k
                  \<and> sectors (disk s') c = set_ptr zero_block ?k (word_of_nat k))"
            using ea sec3 cd by auto
          have c1: "block_bitmap s' c = 1" using E[of c] by auto
          have ch3: "\<And>b. b \<noteq> c \<Longrightarrow> block_bitmap ?s3 b = block_bitmap s b" by simp
          have D: "sectors (disk s') (unat ?dbl) = ?page'"
            using F[of "unat ?dbl"] dm cd sec3 by simp
          have nz: "(word_of_nat c :: u32) \<noteq> 0" by (rule nat_word_neq0[OF ok(1,7)])
          have P': "sectors (disk s') c = zero_block
            \<or> (\<exists>e k. block_bitmap s' k \<noteq> block_bitmap s k
                  \<and> sectors (disk s') c = set_ptr zero_block e (word_of_nat k))"
          proof -
            { fix k assume k: "block_bitmap s' k \<noteq> block_bitmap ?s3 k"
              then have "k \<noteq> c" using c1 by auto
              with k have "block_bitmap s' k \<noteq> block_bitmap s k" by simp }
            with P show ?thesis by blast
          qed
          show ?thesis
          proof (intro conjI allI impI i)
            show "sectors (disk s') (unat ?dbl) = sectors (disk s) (unat ?dbl)
              \<or> (\<exists>e c. block_bitmap s' c \<noteq> block_bitmap s c
                \<and> sectors (disk s') (unat ?dbl) = set_ptr (sectors (disk s) (unat ?dbl)) e (word_of_nat c))"
              using D pg c1 ok(3) by (intro disjI2 exI[of _ ?j] exI[of _ c]) simp
          next
            fix b assume ch: "block_bitmap s' b \<noteq> block_bitmap s b"
            show "block_bitmap s b = 0" using ch E[of b] ok(3) by (cases "b = c") auto
            show "block_bitmap s' b = 1" using ch E[of b] c1 by (cases "b = c") auto
            show "(word_of_nat b :: u32) \<noteq> 0" using ch E[of b] nz by (cases "b = c") auto
            show "sectors (disk s') b = zero_block
              \<or> (\<exists>e k. block_bitmap s' k \<noteq> block_bitmap s k
                    \<and> sectors (disk s') b = set_ptr zero_block e (word_of_nat k))"
              using ch E[of b] P' by (cases "b = c") auto
            show "word_of_nat b = get_ptr (sectors (disk s') (unat ?dbl)) ?j
              \<or> get_ptr (sectors (disk s') (unat ?dbl)) ?j \<noteq> 0
                \<and> get_ptr (sectors (disk s') (unat (get_ptr (sectors (disk s') (unat ?dbl)) ?j))) ?k
                   = word_of_nat b"
              unfolding D using ch E[of b] nz ok(7) by (cases "b = c") auto
          qed
        qed
      qed
    qed
  qed
qed

lemma gbo_double_alloc:
  assumes aok: "alloc_ok s"
    and dm: "double_indirect_block ino \<noteq> 0 \<longrightarrow>
               block_bitmap s (unat (double_indirect_block ino)) \<noteq> 0"
    and cm: "double_indirect_block ino \<noteq> 0 \<and>
             get_ptr (sectors (disk s) (unat (double_indirect_block ino))) (bi div 256) \<noteq> 0 \<longrightarrow>
             block_bitmap s (unat (get_ptr (sectors (disk s) (unat (double_indirect_block ino)))
                (bi div 256))) \<noteq> 0"
    and g: "gbo_double s ino bi True = (r, ino', s')"
  shows "alloc_ok s'
    \<and> (\<forall>b. block_bitmap s' b \<noteq> block_bitmap s b \<longrightarrow>
          block_bitmap s b = 0 \<and> block_bitmap s' b = 1 \<and> (word_of_nat b :: u32) \<noteq> 0
          \<and> (word_of_nat b = double_indirect_block ino'
              \<or> double_indirect_block ino' \<noteq> 0
                \<and> (word_of_nat b = get_ptr (sectors (disk s') (unat (double_indirect_block ino'))) (bi div 256)
                    \<or> get_ptr (sectors (disk s') (unat (double_indirect_block ino'))) (bi div 256) \<noteq> 0
                      \<and> get_ptr (sectors (disk s') (unat (get_ptr (sectors (disk s')
                          (unat (double_indirect_block ino'))) (bi div 256)))) (bi mod 256) = word_of_nat b))
          \<and> (sectors (disk s') b = zero_block
              \<or> (\<exists>e k. block_bitmap s' k \<noteq> block_bitmap s k
                    \<and> sectors (disk s') b = set_ptr zero_block e (word_of_nat k))))"
proof (cases "double_indirect_block ino = 0")
  case False
  with g have ge: "gbo_double_page s ino bi True = (r, ino', s')"
    by (simp add: gbo_double_def)
  from gbo_double_page_alloc[OF aok _ _ ge] False dm cm show ?thesis by auto
next
  case True
  from aok show ?thesis
  proof (cases rule: alloc_zeroed_cases)
    case nospace
    with g True have "ino' = ino" "s' = s" by (simp_all add: gbo_double_def)
    with aok show ?thesis by simp
  next
    case (fail k x d')
    with g True have "ino' = ino" "s' = s\<lparr>disk := d'\<rparr>" by (simp_all add: gbo_double_def)
    with aok show ?thesis by simp
  next
    case (ok d d')
    note wc = vdisk_write_cases[OF ok(5)]
    let ?s1 = "s\<lparr>block_bitmap := (block_bitmap s)(d := 1), disk := d'\<rparr>"
    let ?ino1 = "ino\<lparr>double_indirect_block := word_of_nat d\<rparr>"
    from ok(6) g True have ge: "gbo_double_page ?s1 ?ino1 bi True = (r, ino', s')"
      by (simp add: gbo_double_def Let_def)
    have a1: "alloc_ok ?s1" using aok by simp
    have sd: "sectors (disk ?s1) d = zero_block" using wc ok(7) by simp
    have dm1: "block_bitmap ?s1 (unat (double_indirect_block ?ino1)) \<noteq> 0" using ok(7) by simp
    have cm1: "get_ptr (sectors (disk ?s1) (unat (double_indirect_block ?ino1))) (bi div 256) \<noteq> 0 \<longrightarrow>
             block_bitmap ?s1 (unat (get_ptr (sectors (disk ?s1) (unat (double_indirect_block ?ino1)))
                (bi div 256))) \<noteq> 0"
      using sd ok(7) by simp
    note pa = gbo_double_page_alloc[OF a1 dm1 cm1 ge]
    have i': "double_indirect_block ino' = word_of_nat d" and a': "alloc_ok s'" using pa by simp_all
    have nz: "(word_of_nat d :: u32) \<noteq> 0" by (rule nat_word_neq0[OF ok(1,7)])
    have E: "\<And>b. block_bitmap s' b \<noteq> block_bitmap ?s1 b \<Longrightarrow>
          block_bitmap ?s1 b = 0 \<and> block_bitmap s' b = 1 \<and> (word_of_nat b :: u32) \<noteq> 0
          \<and> (word_of_nat b = get_ptr (sectors (disk s') d) (bi div 256)
              \<or> get_ptr (sectors (disk s') d) (bi div 256) \<noteq> 0
                \<and> get_ptr (sectors (disk s') (unat (get_ptr (sectors (disk s') d) (bi div 256))))
                     (bi mod 256) = word_of_nat b)
          \<and> (sectors (disk s') b = zero_block
              \<or> (\<exists>e k. block_bitmap s' k \<noteq> block_bitmap ?s1 k
                    \<and> sectors (disk s') b = set_ptr zero_block e (word_of_nat k)))"
      using pa ok(7) by simp
    have P: "sectors (disk s') d = zero_block
        \<or> (\<exists>e c. block_bitmap s' c \<noteq> block_bitmap ?s1 c
              \<and> sectors (disk s') d = set_ptr zero_block e (word_of_nat c))"
      using pa sd ok(7) by simp
    have d1: "block_bitmap s' d = 1" using E[of d] by auto
    have lift: "\<And>k. block_bitmap s' k \<noteq> block_bitmap ?s1 k \<Longrightarrow> block_bitmap s' k \<noteq> block_bitmap s k"
    proof -
      fix k assume k: "block_bitmap s' k \<noteq> block_bitmap ?s1 k"
      then have "k \<noteq> d" using d1 by auto
      with k show "block_bitmap s' k \<noteq> block_bitmap s k" by simp
    qed
    have P': "sectors (disk s') d = zero_block
        \<or> (\<exists>e k. block_bitmap s' k \<noteq> block_bitmap s k
              \<and> sectors (disk s') d = set_ptr zero_block e (word_of_nat k))"
      using P lift by blast
    have C': "\<And>b. block_bitmap s' b \<noteq> block_bitmap ?s1 b \<Longrightarrow>
          sectors (disk s') b = zero_block
              \<or> (\<exists>e k. block_bitmap s' k \<noteq> block_bitmap s k
                    \<and> sectors (disk s') b = set_ptr zero_block e (word_of_nat k))"
      using E lift by blast
    show ?thesis
    proof (intro conjI allI impI a')
      fix b assume ch: "block_bitmap s' b \<noteq> block_bitmap s b"
      show "block_bitmap s b = 0" using ch E[of b] ok(3) by (cases "b = d") auto
      show "block_bitmap s' b = 1" using ch E[of b] d1 by (cases "b = d") auto
      show "(word_of_nat b :: u32) \<noteq> 0" using ch E[of b] nz by (cases "b = d") auto
      show "sectors (disk s') b = zero_block
              \<or> (\<exists>e k. block_bitmap s' k \<noteq> block_bitmap s k
                    \<and> sectors (disk s') b = set_ptr zero_block e (word_of_nat k))"
        using ch C'[of b] P' by (cases "b = d") auto
      show "word_of_nat b = double_indirect_block ino'
              \<or> double_indirect_block ino' \<noteq> 0
                \<and> (word_of_nat b = get_ptr (sectors (disk s') (unat (double_indirect_block ino'))) (bi div 256)
                    \<or> get_ptr (sectors (disk s') (unat (double_indirect_block ino'))) (bi div 256) \<noteq> 0
                      \<and> get_ptr (sectors (disk s') (unat (get_ptr (sectors (disk s')
                          (unat (double_indirect_block ino'))) (bi div 256)))) (bi mod 256) = word_of_nat b)"
        unfolding i' ok(7) using ch E[of b] nz by (cases "b = d") auto
    qed
  qed
qed

lemma gbo_direct_alloc:
  assumes aok: "alloc_ok s" and bi: "bi < length (direct_blocks ino)"
    and g: "gbo_direct s ino bi True = (r, ino', s')"
  shows "alloc_ok s'
    \<and> (\<forall>b. block_bitmap s' b \<noteq> block_bitmap s b \<longrightarrow>
          block_bitmap s b = 0 \<and> block_bitmap s' b = 1 \<and> (word_of_nat b :: u32) \<noteq> 0
          \<and> word_of_nat b = direct_blocks ino' ! bi
          \<and> sectors (disk s') b = zero_block)"
proof (cases "direct_blocks ino ! bi = 0")
  case False
  with g have "ino' = ino" "s' = s" by (simp_all add: gbo_direct_def)
  with aok show ?thesis by simp
next
  case True
  from aok show ?thesis
  proof (cases rule: alloc_zeroed_cases)
    case nospace
    with g True have "ino' = ino" "s' = s" by (simp_all add: gbo_direct_def)
    with aok show ?thesis by simp
  next
    case (fail k x d')
    with g True have "ino' = ino" "s' = s\<lparr>disk := d'\<rparr>" by (simp_all add: gbo_direct_def)
    with aok show ?thesis by simp
  next
    case (ok k d')
    note wc = vdisk_write_cases[OF ok(5)]
    from ok(6) g True have "ino' = ino\<lparr>direct_blocks := (direct_blocks ino)[bi := word_of_nat k]\<rparr>"
      "s' = s\<lparr>block_bitmap := (block_bitmap s)(k := 1), disk := d'\<rparr>"
      by (simp_all add: gbo_direct_def Let_def)
    with aok wc ok(1,3,7) bi nat_word_neq0[OF ok(1,7)] show ?thesis by auto
  qed
qed

lemma word_of_int_less_numeral:
  assumes "0 \<le> x" "x < 2 ^ 32" "n < 2 ^ 32"
  shows "(word_of_int x :: u32) < word_of_nat n \<longleftrightarrow> nat x < n"
  unfolding word_less_nat_alt unat_word_of_int[OF assms(1,2)] unat_of_nat_small[OF assms(3)] ..

lemma gbo_unfold:
  assumes "disk_mounted s" "0 \<le> offset" "offset < 2 ^ 31"
  shows "get_block_for_offset s inode offset a =
     (let bi = nat (offset div BLOCK_SIZE) in
      if bi < 4 then gbo_direct s inode bi a
      else if bi < 260 then gbo_indirect s inode (bi - 4) a
      else if bi < 65796 then gbo_double s inode (bi - 260) a
      else (E_INVALID_OFFSET, inode, s))"
proof -
  define bi where "bi = offset div 1024"
  have b: "0 \<le> bi" "bi < 2097152" using assms(2,3) by (simp_all add: bi_def)
  have c1: "(word_of_int (bi - 4) :: u32) < 256 \<longleftrightarrow> bi - 4 < 256" if "4 \<le> bi"
  proof -
    have "(word_of_int (bi - 4) :: u32) < word_of_nat 256 \<longleftrightarrow> nat (bi - 4) < 256"
      by (rule word_of_int_less_numeral) (use that b in simp_all)
    moreover have "nat (bi - 4) < 256 \<longleftrightarrow> bi - 4 < 256" using that by linarith
    ultimately show ?thesis by simp
  qed
  have c2: "(word_of_int (bi - 4 - 256) :: u32) < 256 * 256 \<longleftrightarrow> bi - 4 - 256 < 65536"
    if "260 \<le> bi"
  proof -
    have "(word_of_int (bi - 4 - 256) :: u32) < word_of_nat 65536 \<longleftrightarrow> nat (bi - 4 - 256) < 65536"
      by (rule word_of_int_less_numeral) (use that b in simp_all)
    moreover have "nat (bi - 4 - 256) < 65536 \<longleftrightarrow> bi - 4 - 256 < 65536" using that by linarith
    ultimately show ?thesis by simp
  qed
  have g: "get_block_for_offset s inode offset a =
      (if bi < 4 then gbo_direct s inode (nat bi) a
       else if (word_of_int (bi - 4) :: u32) < 256 then gbo_indirect s inode (nat (bi - 4)) a
       else if (word_of_int (bi - 4 - 256) :: u32) < 256 * 256
            then gbo_double s inode (nat (bi - 4 - 256)) a
            else (E_INVALID_OFFSET, inode, s))"
    using assms(1,2) by (simp add: get_block_for_offset_def Let_def bi_def)
  consider (d) "bi < 4" | (i) "4 \<le> bi" "bi < 260" | (dd) "260 \<le> bi" "bi < 65796"
    | (x) "65796 \<le> bi" by linarith
  then have "get_block_for_offset s inode offset a =
     (if nat bi < 4 then gbo_direct s inode (nat bi) a
      else if nat bi < 260 then gbo_indirect s inode (nat bi - 4) a
      else if nat bi < 65796 then gbo_double s inode (nat bi - 260) a
      else (E_INVALID_OFFSET, inode, s))"
  proof cases
    case d
    then have "nat bi < 4" by simp
    with d g show ?thesis by simp
  next
    case i
    then have n: "\<not> nat bi < 4" "nat bi < 260" "nat (bi - 4) = nat bi - 4" by simp_all
    have "(word_of_int (bi - 4) :: u32) < 256" using c1 i by simp
    with i n g show ?thesis by simp
  next
    case dd
    then have n: "\<not> nat bi < 4" "\<not> nat bi < 260" "nat bi < 65796"
      "nat (bi - 4 - 256) = nat bi - 260" by simp_all
    have "\<not> (word_of_int (bi - 4) :: u32) < 256" using c1 dd by simp
    moreover have "(word_of_int (bi - 4 - 256) :: u32) < 256 * 256" using c2 dd by simp
    ultimately show ?thesis using dd n g by simp
  next
    case x
    then have n: "\<not> nat bi < 4" "\<not> nat bi < 260" "\<not> nat bi < 65796" by simp_all
    have "\<not> (word_of_int (bi - 4) :: u32) < 256" using c1 x by simp
    moreover have "\<not> (word_of_int (bi - 4 - 256) :: u32) < 256 * 256" using c2 x by simp
    ultimately show ?thesis using x n g by simp
  qed
  then show ?thesis by (simp add: Let_def bi_def)
qed

lemma no_fault_refl [simp]: "no_fault d d"
  by (simp add: no_fault_def)

lemma no_fault_trans: "no_fault d d1 \<Longrightarrow> no_fault d1 d2 \<Longrightarrow> no_fault d d2"
  unfolding no_fault_def
  by (elim exE conjE, rule_tac x="pre @ prea" in exI) auto

lemma no_fault_ret: "no_fault d d1 \<Longrightarrow> fault_ret d1 d2 r \<Longrightarrow> fault_ret d d2 r"
  unfolding no_fault_def fault_ret_def
  by (elim exE conjE, rule_tac x="pre @ prea" in exI) auto

lemma no_fault_imp_ret: "no_fault d d' \<Longrightarrow> fault_ret d d' r"
  unfolding no_fault_def fault_ret_def by auto

lemma fault_ret_refl [simp]: "fault_ret d d r"
  by (rule no_fault_imp_ret) simp

lemma vdisk_read_fault:
  assumes "vdisk_read d sec = (res, d')"
  shows "case res of Inr _ \<Rightarrow> no_fault d d' | Inl e \<Rightarrow> fault_ret d d' (vdisk_code e)"
proof (cases "faults d")
  case Nil
  with assms show ?thesis
    by (auto simp: vdisk_read_def next_fault_def no_fault_def fault_ret_def split: if_splits)
next
  case (Cons f fs)
  have p: "faults d = [f] @ fs" using Cons by simp
  from assms Cons show ?thesis
    by (cases f) (auto simp: vdisk_read_def next_fault_def no_fault_def fault_ret_def
        split: if_splits intro!: exI[of _ "[f]"])
qed

lemma vdisk_write_fault:
  assumes "vdisk_write d sec buf = (res, d')"
  shows "case res of None \<Rightarrow> no_fault d d' | Some e \<Rightarrow> fault_ret d d' (vdisk_code e)"
proof (cases "faults d")
  case Nil
  with assms show ?thesis
    by (auto simp: vdisk_write_def next_fault_def no_fault_def fault_ret_def split: if_splits)
next
  case (Cons f fs)
  from assms Cons show ?thesis
    by (cases f) (auto simp: vdisk_write_def next_fault_def no_fault_def fault_ret_def
        split: if_splits intro!: exI[of _ "[f]"])
qed

lemma alloc_zeroed_fault:
  assumes aok: "alloc_ok s" and a: "alloc_zeroed s = (res, s')"
  shows "alloc_ok s' \<and> (case res of Inr _ \<Rightarrow> no_fault (disk s) (disk s')
                          | Inl e \<Rightarrow> fault_ret (disk s) (disk s') e)"
  using aok
proof (cases rule: alloc_zeroed_cases)
  case nospace
  with a aok show ?thesis by (auto intro: no_fault_imp_ret)
next
  case (fail k e d')
  with a aok vdisk_write_fault[OF fail(4)] show ?thesis by auto
next
  case (ok k d')
  with a aok vdisk_write_fault[OF ok(5)] show ?thesis by auto
qed

lemma free_block_frame [simp]:
  "disk (free_block s k) = disk s" "disk_mounted (free_block s k) = disk_mounted s"
  "superblock (free_block s k) = superblock s"
  by (simp_all add: free_block_def)

lemma alloc_ok_free_block [simp]: "alloc_ok (free_block s k) = alloc_ok s"
  by (simp add: alloc_ok_def)

lemma gbo_entry_fault:
  assumes aok: "alloc_ok s" and g: "gbo_entry s ino pb e a = (r, ino', s')"
  shows "alloc_ok s' \<and> fault_ret (disk s) (disk s') r"
proof -
  obtain rr d1 where rd: "vdisk_read (disk s) pb = (rr, d1)" by (cases "vdisk_read (disk s) pb")
  note rf = vdisk_read_fault[OF rd]
  show ?thesis
  proof (cases rr)
    case (Inl x)
    with g rd rf aok show ?thesis by (auto simp: gbo_entry_def)
  next
    case (Inr page)
    with rf have nf1: "no_fault (disk s) d1" by simp
    show ?thesis
    proof (cases "get_ptr page e = 0 \<and> a")
      case False
      with g rd Inr aok nf1 show ?thesis
        by (auto simp: gbo_entry_def Let_def intro: no_fault_imp_ret)
    next
      case True
      obtain res s2 where al: "alloc_zeroed (s\<lparr>disk := d1\<rparr>) = (res, s2)"
        by (cases "alloc_zeroed (s\<lparr>disk := d1\<rparr>)")
      have a1: "alloc_ok (s\<lparr>disk := d1\<rparr>)" using aok by simp
      note af = alloc_zeroed_fault[OF a1 al]
      show ?thesis
      proof (cases res)
        case (Inl x)
        with g rd Inr True al af nf1 show ?thesis
          by (auto simp: gbo_entry_def Let_def intro: no_fault_ret)
      next
        case (Inr nb)
        with af have nf2: "no_fault d1 (disk s2)" and a2: "alloc_ok s2" by simp_all
        obtain wr d3 where w: "vdisk_write (disk s2) pb (set_ptr page e (word_of_int nb)) = (wr, d3)"
          by (cases "vdisk_write (disk s2) pb (set_ptr page e (word_of_int nb))")
        note wf = vdisk_write_fault[OF w]
        have nf3: "no_fault (disk s) (disk s2)" by (rule no_fault_trans[OF nf1 nf2])
        show ?thesis
        proof (cases wr)
          case None
          with wf have "no_fault (disk s) d3" using no_fault_trans[OF nf3] by simp
          then have "fault_ret (disk s) d3 r" by (rule no_fault_imp_ret)
          with g rd \<open>rr = Inr page\<close> True al Inr w None a2 show ?thesis
            by (auto simp: gbo_entry_def Let_def)
        next
          case (Some x)
          with wf have "fault_ret (disk s) d3 (vdisk_code x)" using no_fault_ret[OF nf3] by simp
          with g rd \<open>rr = Inr page\<close> True al Inr w Some a2 show ?thesis
            by (auto simp: gbo_entry_def Let_def)
        qed
      qed
    qed
  qed
qed

lemma gbo_indirect_fault:
  assumes aok: "alloc_ok s" and g: "gbo_indirect s ino e a = (r, ino', s')"
  shows "alloc_ok s' \<and> fault_ret (disk s) (disk s') r"
proof (cases "indirect_block ino = 0")
  case False
  with g gbo_entry_fault[OF aok] show ?thesis by (simp add: gbo_indirect_def)
next
  case True
  show ?thesis
  proof (cases a)
    case False
    with g True aok show ?thesis by (auto simp: gbo_indirect_def)
  next
    case a: True
    obtain res s1 where al: "alloc_zeroed s = (res, s1)" by (cases "alloc_zeroed s")
    note af = alloc_zeroed_fault[OF aok al]
    show ?thesis
    proof (cases res)
      case (Inl x)
      with g True a al af show ?thesis by (auto simp: gbo_indirect_def)
    next
      case (Inr nb)
      with af have nf: "no_fault (disk s) (disk s1)" and a1: "alloc_ok s1" by simp_all
      from g True a al Inr
      have ge: "gbo_entry s1 (ino\<lparr>indirect_block := word_of_int nb\<rparr>) (word_of_int nb) e a
                 = (r, ino', s')"
        by (simp add: gbo_indirect_def Let_def)
      from gbo_entry_fault[OF a1 ge] no_fault_ret[OF nf] show ?thesis by simp
    qed
  qed
qed

lemma gbo_double_page_fault:
  assumes aok: "alloc_ok s" and g: "gbo_double_page s ino bi a = (r, ino', s')"
  shows "alloc_ok s' \<and> fault_ret (disk s) (disk s') r"
proof -
  let ?dbl = "double_indirect_block ino"
  obtain rr d1 where rd: "vdisk_read (disk s) ?dbl = (rr, d1)" by (cases "vdisk_read (disk s) ?dbl")
  note rf = vdisk_read_fault[OF rd]
  show ?thesis
  proof (cases rr)
    case (Inl x)
    with g rd rf aok show ?thesis by (auto simp: gbo_double_page_def)
  next
    case (Inr page)
    with rf have nf1: "no_fault (disk s) d1" by simp
    have a1: "alloc_ok (s\<lparr>disk := d1\<rparr>)" using aok by simp
    show ?thesis
    proof (cases "get_ptr page (bi div 256) = 0")
      case False
      with g rd Inr
      have ge: "gbo_entry (s\<lparr>disk := d1\<rparr>) ino (get_ptr page (bi div 256)) (bi mod 256) a = (r, ino', s')"
        by (simp add: gbo_double_page_def Let_def)
      from gbo_entry_fault[OF a1 ge] no_fault_ret[OF nf1] show ?thesis by simp
    next
      case z: True
      show ?thesis
      proof (cases a)
        case False
        with g rd Inr z aok nf1 show ?thesis
          by (auto simp: gbo_double_page_def Let_def intro: no_fault_imp_ret)
      next
        case a: True
        obtain res s2 where al: "alloc_zeroed (s\<lparr>disk := d1\<rparr>) = (res, s2)"
          by (cases "alloc_zeroed (s\<lparr>disk := d1\<rparr>)")
        note af = alloc_zeroed_fault[OF a1 al]
        show ?thesis
        proof (cases res)
          case (Inl x)
          with g rd Inr z a al af nf1 show ?thesis
            by (auto simp: gbo_double_page_def Let_def intro: no_fault_ret)
        next
          case nbk: (Inr nb)
          with af have nf2: "no_fault d1 (disk s2)" and a2: "alloc_ok s2" by simp_all
          have nf3: "no_fault (disk s) (disk s2)" by (rule no_fault_trans[OF nf1 nf2])
          let ?page' = "set_ptr page (bi div 256) (word_of_int nb)"
          obtain wr d3 where w: "vdisk_write (disk s2) ?dbl ?page' = (wr, d3)"
            by (cases "vdisk_write (disk s2) ?dbl ?page'")
          note wf = vdisk_write_fault[OF w]
          show ?thesis
          proof (cases wr)
            case None
            with wf have nf4: "no_fault (disk s) d3" using no_fault_trans[OF nf3] by simp
            from g rd Inr z a al nbk w None
            have ge: "gbo_entry (s2\<lparr>disk := d3\<rparr>) ino (get_ptr ?page' (bi div 256)) (bi mod 256) a
                       = (r, ino', s')"
              by (simp add: gbo_double_page_def Let_def)
            have a3: "alloc_ok (s2\<lparr>disk := d3\<rparr>)" using a2 by simp
            from gbo_entry_fault[OF a3 ge] no_fault_ret[OF nf4] show ?thesis by simp
          next
            case (Some x)
            with wf have "fault_ret (disk s) d3 (vdisk_code x)" using no_fault_ret[OF nf3] by simp
            with g rd Inr z a al nbk w Some a2 show ?thesis
              by (auto simp: gbo_double_page_def Let_def)
          qed
        qed
      qed
    qed
  qed
qed

lemma gbo_double_fault:
  assumes aok: "alloc_ok s" and g: "gbo_double s ino bi a = (r, ino', s')"
  shows "alloc_ok s' \<and> fault_ret (disk s) (disk s') r"
proof (cases "double_indirect_block ino = 0")
  case False
  with g gbo_double_page_fault[OF aok] show ?thesis by (simp add: gbo_double_def)
next
  case True
  show ?thesis
  proof (cases a)
    case False
    with g True aok show ?thesis by (auto simp: gbo_double_def)
  next
    case a: True
    obtain res s1 where al: "alloc_zeroed s = (res, s1)" by (cases "alloc_zeroed s")
    note af = alloc_zeroed_fault[OF aok al]
    show ?thesis
    proof (cases res)
      case (Inl x)
      with g True a al af show ?thesis by (auto simp: gbo_double_def)
    next
      case (Inr nb)
      with af have nf: "no_fault (disk s) (disk s1)" and a1: "alloc_ok s1" by simp_all
      from g True a al Inr
      have ge: "gbo_double_page s1 (ino\<lparr>double_indirect_block := word_of_int nb\<rparr>) bi a
                 = (r, ino', s')"
        by (simp add: gbo_double_def Let_def)
      from gbo_double_page_fault[OF a1 ge] no_fault_ret[OF nf] show ?thesis by simp
    qed
  qed
qed

lemma gbo_direct_fault:
  assumes aok: "alloc_ok s" and g: "gbo_direct s ino bi a = (r, ino', s')"
  shows "alloc_ok s' \<and> fault_ret (disk s) (disk s') r"
proof (cases "direct_blocks ino ! bi = 0 \<and> a")
  case False
  with g aok show ?thesis by (auto simp: gbo_direct_def)
next
  case True
  obtain res s1 where al: "alloc_zeroed s = (res, s1)" by (cases "alloc_zeroed s")
  note af = alloc_zeroed_fault[OF aok al]
  from g True al af show ?thesis
    by (cases res) (auto simp: gbo_direct_def Let_def intro: no_fault_imp_ret)
qed

lemma get_block_for_offset_fault:
  assumes aok: "alloc_ok s" and off: "0 \<le> offset" "offset < 2 ^ 31"
    and g: "get_block_for_offset s ino offset a = (r, ino', s')"
  shows "alloc_ok s' \<and> fault_ret (disk s) (disk s') r"
proof -
  have m: "disk_mounted s" using aok by (simp add: alloc_ok_def)
  from g show ?thesis
    unfolding gbo_unfold[OF m off] Let_def
    using gbo_direct_fault[OF aok] gbo_indirect_fault[OF aok] gbo_double_fault[OF aok] aok
    by (auto split: if_splits)
qed

lemma map_path_direct:
  "0 \<le> offset \<Longrightarrow> nat (offset div 1024) < 4 \<Longrightarrow>
   map_path s ino offset = [direct_blocks ino ! nat (offset div 1024)]"
  by (simp add: map_path_def Let_def)

lemma allocation_effects:
  assumes aok: "alloc_ok s" and io: "inode_ok inode" and off: "0 \<le> offset" "offset < 2 ^ 31"
    and marked: "\<forall>p \<in> set (map_path s inode offset). p \<noteq> 0 \<longrightarrow> block_bitmap s (unat p) \<noteq> 0"
    and g: "get_block_for_offset s inode offset True = (r, inode', s')"
  shows "(\<forall>b. block_bitmap s' b \<noteq> block_bitmap s b \<longrightarrow>
            block_bitmap s b = 0 \<and> block_bitmap s' b = 1
          \<and> word_of_nat b \<in> set (map_path s' inode' offset)
          \<and> (sectors (disk s') b = zero_block
             \<or> (\<exists>e k. block_bitmap s' k \<noteq> block_bitmap s k
                   \<and> sectors (disk s') b = set_ptr zero_block e (word_of_nat k))))
       \<and> (\<exists>pre. faults (disk s) = pre @ faults (disk s')
              \<and> (\<forall>e. Some e \<in> set pre \<longrightarrow> r = vdisk_code e))"
proof -
  have m: "disk_mounted s" using aok by (simp add: alloc_ok_def)
  let ?bi = "nat (offset div 1024)"
  note gu = g[unfolded gbo_unfold[OF m off] Let_def]
  have C: "\<exists>pre. faults (disk s) = pre @ faults (disk s')
              \<and> (\<forall>e. Some e \<in> set pre \<longrightarrow> r = vdisk_code e)"
    using get_block_for_offset_fault[OF aok off g] by (simp add: fault_ret_def)
  have AB: "\<forall>b. block_bitmap s' b \<noteq> block_bitmap s b \<longrightarrow>
            block_bitmap s b = 0 \<and> block_bitmap s' b = 1
          \<and> word_of_nat b \<in> set (map_path s' inode' offset)
          \<and> (sectors (disk s') b = zero_block
             \<or> (\<exists>e k. block_bitmap s' k \<noteq> block_bitmap s k
                   \<and> sectors (disk s') b = set_ptr zero_block e (word_of_nat k)))"
  proof -
    consider (d) "?bi < 4" | (i) "4 \<le> ?bi" "?bi < 260" | (dd) "260 \<le> ?bi" "?bi < 65796"
      | (x) "65796 \<le> ?bi" by linarith
    then show ?thesis
    proof cases
      case d
      with gu have gd: "gbo_direct s inode ?bi True = (r, inode', s')" by simp
      have "?bi < length (direct_blocks inode)" using d io by (simp add: inode_ok_def)
      from gbo_direct_alloc[OF aok this gd] d show ?thesis
        by (auto simp: map_path_def Let_def)
    next
      case i
      with gu have gi: "gbo_indirect s inode (?bi - 4) True = (r, inode', s')" by simp
      have pm: "indirect_block inode \<noteq> 0 \<longrightarrow> block_bitmap s (unat (indirect_block inode)) \<noteq> 0"
        using marked i by (auto simp: map_path_def Let_def)
      from gbo_indirect_alloc[OF aok pm gi] i show ?thesis
        by (auto simp: map_path_def Let_def)
    next
      case dd
      with gu have gi: "gbo_double s inode (?bi - 260) True = (r, inode', s')" by simp
      have dm: "double_indirect_block inode \<noteq> 0 \<longrightarrow>
               block_bitmap s (unat (double_indirect_block inode)) \<noteq> 0"
        using marked dd by (auto simp: map_path_def Let_def split: if_splits)
      have cm: "double_indirect_block inode \<noteq> 0 \<and>
             get_ptr (sectors (disk s) (unat (double_indirect_block inode))) ((?bi - 260) div 256) \<noteq> 0 \<longrightarrow>
             block_bitmap s (unat (get_ptr (sectors (disk s) (unat (double_indirect_block inode)))
                ((?bi - 260) div 256))) \<noteq> 0"
        using marked dd by (auto simp: map_path_def Let_def split: if_splits)
      from gbo_double_alloc[OF aok dm cm gi] dd show ?thesis
        by (auto simp: map_path_def Let_def)
    next
      case x
      with gu have "s' = s" by simp
      then show ?thesis by simp
    qed
  qed
  from AB C show ?thesis by blast
qed

lemma mounted_ok_alloc_ok: "mounted_ok s \<Longrightarrow> alloc_ok s"
proof -
  assume ok: "mounted_ok s"
  have "unat (num_inode_blocks (superblock s)) * 32 < 2147483648" by (rule mounted_okD(4)[OF ok])
  moreover have "unat (- 1 :: u32) = 4294967295" by (simp add: unsigned_minus_1_eq_mask mask_eq_exp_minus_1)
  ultimately have "num_inode_blocks (superblock s) \<noteq> - 1" by auto
  with mounted_okD[OF ok] show ?thesis by (simp add: alloc_ok_def)
qed

lemma ex_state1_find_free:
  "find_free_block ex_state1 = (2, ex_state1\<lparr>block_bitmap := (block_bitmap ex_state1)(2 := 1)\<rparr>)"
proof -
  have "find_free_from ex_state1 2 =
      (sint (word_of_nat 2 :: u32), ex_state1\<lparr>block_bitmap := (block_bitmap ex_state1)(2 := 1)\<rparr>)"
    by (rule find_free_from_some) (simp_all add: ex_state1_def ex_state_def ex_sb_def)
  then show ?thesis
    by (simp add: find_free_block_def ex_state1_def ex_state_def ex_sb_def)
qed

lemma ex_state1_alloc:
  "alloc_zeroed ex_state1 =
     (Inr 2, ex_state1\<lparr>block_bitmap := (block_bitmap ex_state1)(2 := 1),
                       disk := (disk ex_state1)\<lparr>sectors := (sectors (disk ex_state1))(2 := zero_block)\<rparr>\<rparr>)"
proof -
  have "vdisk_write (disk ex_state1) 2 zero_block =
      (None, (disk ex_state1)\<lparr>sectors := (sectors (disk ex_state1))(2 := zero_block)\<rparr>)"
    using vdisk_write_ok[of "disk ex_state1" 2 zero_block] ex_state1_ok
    by (simp add: reliable_def ex_state1_def ex_state_def ex_disk_def)
  then show ?thesis by (simp add: alloc_zeroed_def ex_state1_find_free)
qed

lemma ex_state1_gbo:
  "get_block_for_offset ex_state1 (inode_at ex_state1 0) 0 True =
     (2, (inode_at ex_state1 0)\<lparr>direct_blocks := [2, 0, 0, 0]\<rparr>,
      ex_state1\<lparr>block_bitmap := (block_bitmap ex_state1)(2 := 1),
                disk := (disk ex_state1)\<lparr>sectors := (sectors (disk ex_state1))(2 := zero_block)\<rparr>\<rparr>)"
  using mounted_okD(1)[OF ex_state1_ok(1)]
  by (simp add: get_block_for_offset_def gbo_direct_def ex_state1_alloc ex_state1_inode0)

section \<open>The block tree of a file: reading and linking\<close>

text \<open>How the places of a tree read after a block has been written or a pointer has been stored.\<close>

lemma slot_ptr_child:
  "is_page psl \<Longrightarrow> slot_ptr s ino (child psl e) =
     (if slot_ptr s ino psl \<noteq> 0 \<and> e < 256
      then get_ptr (sectors (disk s) (unat (slot_ptr s ino psl))) e else 0)"
  by (cases psl) auto

lemma tree_okD:
  assumes "tree_ok s ino" "slot_ptr s ino sl \<noteq> 0"
  shows "data_block s (unat (slot_ptr s ino sl))" "block_bitmap s (unat (slot_ptr s ino sl)) \<noteq> 0"
  using assms by (auto simp: tree_ok_def)

lemma tree_ok_inj:
  "tree_ok s ino \<Longrightarrow> slot_ptr s ino sl \<noteq> 0 \<Longrightarrow> slot_ptr s ino sl = slot_ptr s ino sl' \<Longrightarrow> sl = sl'"
  by (auto simp: tree_ok_def)

text \<open>slot_ptr depends on the pointer fields and on the sectors of the tree's pages only.\<close>
lemma slot_ptr_cong:
  assumes "direct_blocks ino' = direct_blocks ino" "indirect_block ino' = indirect_block ino"
    "double_indirect_block ino' = double_indirect_block ino"
    and "\<And>psl. is_page psl \<Longrightarrow> slot_ptr s ino psl \<noteq> 0 \<Longrightarrow>
           sectors (disk s') (unat (slot_ptr s ino psl)) = sectors (disk s) (unat (slot_ptr s ino psl))"
  shows "slot_ptr s' ino' sl = slot_ptr s ino sl"
proof -
  have i: "indirect_block ino \<noteq> 0 \<Longrightarrow> sectors (disk s') (unat (indirect_block ino))
             = sectors (disk s) (unat (indirect_block ino))"
    using assms(4)[of Ind] by simp
  have d: "double_indirect_block ino \<noteq> 0 \<Longrightarrow> sectors (disk s') (unat (double_indirect_block ino))
             = sectors (disk s) (unat (double_indirect_block ino))"
    using assms(4)[of Dbl] by simp
  have e: "\<And>j. double_indirect_block ino \<noteq> 0 \<Longrightarrow> j < 256 \<Longrightarrow>
      get_ptr (sectors (disk s) (unat (double_indirect_block ino))) j \<noteq> 0 \<Longrightarrow>
      sectors (disk s') (unat (get_ptr (sectors (disk s) (unat (double_indirect_block ino))) j))
      = sectors (disk s) (unat (get_ptr (sectors (disk s) (unat (double_indirect_block ino))) j))"
  proof -
    fix j assume "double_indirect_block ino \<noteq> 0" "j < 256"
      "get_ptr (sectors (disk s) (unat (double_indirect_block ino))) j \<noteq> 0"
    then show "sectors (disk s') (unat (get_ptr (sectors (disk s) (unat (double_indirect_block ino))) j))
      = sectors (disk s) (unat (get_ptr (sectors (disk s) (unat (double_indirect_block ino))) j))"
      using assms(4)[of "DblE j"] by simp
  qed
  show ?thesis using assms(1,2,3) i d e by (cases sl) auto
qed

lemma slot_ptr_fresh_write:
  assumes "tree_ok s ino" "block_bitmap s nb = 0"
    and "sectors (disk s') = (sectors (disk s))(nb := blk)"
  shows "slot_ptr s' ino sl = slot_ptr s ino sl"
proof (rule slot_ptr_cong)
  fix psl assume "is_page psl" "slot_ptr s ino psl \<noteq> 0"
  then have "block_bitmap s (unat (slot_ptr s ino psl)) \<noteq> 0" using tree_okD(2)[OF assms(1)] by simp
  then have "unat (slot_ptr s ino psl) \<noteq> nb" using assms(2) by auto
  then show "sectors (disk s') (unat (slot_ptr s ino psl)) = sectors (disk s) (unat (slot_ptr s ino psl))"
    using assms(3) by simp
qed simp_all

lemma slot_ptr_leaf_write:
  assumes "tree_ok s ino" "\<not> is_page lsl" "slot_ptr s ino lsl \<noteq> 0"
    and "sectors (disk s') = (sectors (disk s))(unat (slot_ptr s ino lsl) := blk)"
  shows "slot_ptr s' ino sl = slot_ptr s ino sl"
proof (rule slot_ptr_cong)
  fix psl assume p: "is_page psl" "slot_ptr s ino psl \<noteq> 0"
  have "slot_ptr s ino psl \<noteq> slot_ptr s ino lsl"
    using tree_ok_inj[OF assms(1) p(2), of lsl] p(1) assms(2) by auto
  then have "unat (slot_ptr s ino psl) \<noteq> unat (slot_ptr s ino lsl)" by (simp add: word_unat_eq_iff)
  then show "sectors (disk s') (unat (slot_ptr s ino psl)) = sectors (disk s) (unat (slot_ptr s ino psl))"
    using assms(4) by simp
qed simp_all

lemma slot_ptr_put_inode:
  assumes "tree_ok s ino" "i < num_inodes s"
  shows "slot_ptr (put_inode s i x) ino sl = slot_ptr s ino sl"
proof (rule slot_ptr_cong)
  fix psl assume p: "is_page psl" "slot_ptr s ino psl \<noteq> 0"
  have "unat (num_inode_blocks (superblock s)) + 1 \<le> unat (slot_ptr s ino psl)"
    using tree_okD(1)[OF assms(1) p(2)] by (simp add: data_block_def)
  moreover have "1 + i div 32 \<le> unat (num_inode_blocks (superblock s))"
    using assms(2) by (simp add: num_inodes_def)
  ultimately have "unat (slot_ptr s ino psl) \<noteq> 1 + i div 32" by linarith
  then show "sectors (disk (put_inode s i x)) (unat (slot_ptr s ino psl))
             = sectors (disk s) (unat (slot_ptr s ino psl))"
    by (simp add: put_inode_def)
qed simp_all

lemma tree_ok_cong:
  assumes "tree_ok s ino" "\<And>sl. slot_ptr s' ino' sl = slot_ptr s ino sl"
    and "superblock s' = superblock s" "\<And>b. block_bitmap s b \<noteq> 0 \<Longrightarrow> block_bitmap s' b \<noteq> 0"
  shows "tree_ok s' ino'"
proof -
  have a: "\<And>sl. slot_ptr s ino sl \<noteq> 0 \<Longrightarrow> data_block s' (unat (slot_ptr s ino sl))"
    using tree_okD(1)[OF assms(1)] assms(3) by (simp add: data_block_def)
  have b: "\<And>sl. slot_ptr s ino sl \<noteq> 0 \<Longrightarrow> block_bitmap s' (unat (slot_ptr s ino sl)) \<noteq> 0"
    using tree_okD(2)[OF assms(1)] assms(4) by blast
  show ?thesis
    unfolding tree_ok_def assms(2)
    using a b tree_ok_inj[OF assms(1)] by blast
qed

lemma tree_link:
  assumes t: "tree_ok s ino"
    and sp: "\<And>sl. slot_ptr s' ino' sl = (if sl = sl0 then w else slot_ptr s ino sl)"
    and w: "unat w = nb" "data_block s nb" "block_bitmap s nb = 0"
    and bm: "block_bitmap s' = (block_bitmap s)(nb := 1)" and sb: "superblock s' = superblock s"
  shows "tree_ok s' ino'"
proof -
  have fresh: "\<And>sl. slot_ptr s ino sl \<noteq> 0 \<Longrightarrow> slot_ptr s ino sl \<noteq> w"
    using tree_okD(2)[OF t] w(1,3) by auto
  show ?thesis
    unfolding tree_ok_def
  proof (intro conjI allI impI)
    fix sl assume nz: "slot_ptr s' ino' sl \<noteq> 0"
    show "data_block s' (unat (slot_ptr s' ino' sl))"
      using nz sp[of sl] w tree_okD(1)[OF t, of sl] sb by (auto simp: data_block_def split: if_splits)
    show "block_bitmap s' (unat (slot_ptr s' ino' sl)) \<noteq> 0"
      using nz sp[of sl] w tree_okD(2)[OF t, of sl] bm by (auto split: if_splits)
  next
    fix sl sl' assume a: "slot_ptr s' ino' sl \<noteq> 0 \<and> slot_ptr s' ino' sl = slot_ptr s' ino' sl'"
    show "sl = sl'"
    proof (cases "sl = sl0")
      case True
      with a sp[of sl] sp[of sl'] fresh[of sl'] show ?thesis by (auto split: if_splits)
    next
      case False
      with a sp[of sl] sp[of sl'] fresh[of sl] tree_ok_inj[OF t, of sl sl'] show ?thesis
        by (auto split: if_splits)
    qed
  qed
qed

lemma slot_ptr_link_direct:
  assumes "inode_ok ino" "k < 4"
  shows "slot_ptr s (ino\<lparr>direct_blocks := (direct_blocks ino)[k := w]\<rparr>) sl
         = (if sl = Direct k then w else slot_ptr s ino sl)"
  using assms by (cases sl) (auto simp: inode_ok_def)

lemma slot_ptr_link_ind:
  assumes "indirect_block ino = 0" "sectors (disk s) (unat w) = zero_block"
  shows "slot_ptr s (ino\<lparr>indirect_block := w\<rparr>) sl = (if sl = Ind then w else slot_ptr s ino sl)"
  using assms by (cases sl) auto

lemma slot_ptr_link_dbl:
  assumes "double_indirect_block ino = 0" "sectors (disk s) (unat w) = zero_block"
  shows "slot_ptr s (ino\<lparr>double_indirect_block := w\<rparr>) sl = (if sl = Dbl then w else slot_ptr s ino sl)"
  using assms by (cases sl) auto

lemma slot_ptr_link_page:
  assumes t: "tree_ok s ino" and p: "is_page psl" "slot_ptr s ino psl \<noteq> 0" and e: "e < 256"
    and old: "slot_ptr s ino (child psl e) = 0"
    and sec: "sectors (disk s') = (sectors (disk s))(unat (slot_ptr s ino psl) :=
                set_ptr (sectors (disk s) (unat (slot_ptr s ino psl))) e w)"
    and z: "sectors (disk s) (unat w) = zero_block" and wne: "w \<noteq> slot_ptr s ino psl"
  shows "slot_ptr s' ino sl = (if sl = child psl e then w else slot_ptr s ino sl)"
proof -
  let ?P = "slot_ptr s ino psl"
  have other: "\<And>q. q \<noteq> psl \<Longrightarrow> slot_ptr s ino q \<noteq> 0 \<Longrightarrow>
      sectors (disk s') (unat (slot_ptr s ino q)) = sectors (disk s) (unat (slot_ptr s ino q))"
  proof -
    fix q assume q: "q \<noteq> psl" "slot_ptr s ino q \<noteq> 0"
    have "slot_ptr s ino q \<noteq> ?P" using tree_ok_inj[OF t q(2), of psl] q(1) by auto
    then have "unat (slot_ptr s ino q) \<noteq> unat ?P" by (simp add: word_unat_eq_iff)
    then show "sectors (disk s') (unat (slot_ptr s ino q)) = sectors (disk s) (unat (slot_ptr s ino q))"
      using sec by simp
  qed
  have self: "sectors (disk s') (unat ?P) = set_ptr (sectors (disk s) (unat ?P)) e w"
    using sec by simp
  have "unat w \<noteq> unat ?P" using wne by (simp add: word_unat_eq_iff)
  then have wz: "sectors (disk s') (unat w) = zero_block" using sec z by simp
  show ?thesis
  proof (cases psl)
    case Ind
    have o1: "double_indirect_block ino \<noteq> 0 \<Longrightarrow>
        sectors (disk s') (unat (double_indirect_block ino)) = sectors (disk s) (unat (double_indirect_block ino))"
      using other[of Dbl] Ind by simp
    have o2: "\<And>j. double_indirect_block ino \<noteq> 0 \<Longrightarrow> j < 256 \<Longrightarrow>
        get_ptr (sectors (disk s) (unat (double_indirect_block ino))) j \<noteq> 0 \<Longrightarrow>
        sectors (disk s') (unat (get_ptr (sectors (disk s) (unat (double_indirect_block ino))) j))
        = sectors (disk s) (unat (get_ptr (sectors (disk s) (unat (double_indirect_block ino))) j))"
    proof -
      fix j assume "double_indirect_block ino \<noteq> 0" "j < 256"
        "get_ptr (sectors (disk s) (unat (double_indirect_block ino))) j \<noteq> 0"
      then show "sectors (disk s') (unat (get_ptr (sectors (disk s) (unat (double_indirect_block ino))) j))
        = sectors (disk s) (unat (get_ptr (sectors (disk s) (unat (double_indirect_block ino))) j))"
        using other[of "DblE j"] Ind by simp
    qed
    show ?thesis
    proof (cases sl)
      case (IndE k) with Ind self p e show ?thesis by auto
    next
      case (DblE j) with Ind o1 show ?thesis by auto
    next
      case (DblEE j k) with Ind o1 o2[of j] show ?thesis by auto
    qed (use Ind in auto)
  next
    case Dbl
    have o1: "indirect_block ino \<noteq> 0 \<Longrightarrow>
        sectors (disk s') (unat (indirect_block ino)) = sectors (disk s) (unat (indirect_block ino))"
      using other[of Ind] Dbl by simp
    have o2: "\<And>j. double_indirect_block ino \<noteq> 0 \<Longrightarrow> j < 256 \<Longrightarrow>
        get_ptr (sectors (disk s) (unat (double_indirect_block ino))) j \<noteq> 0 \<Longrightarrow>
        sectors (disk s') (unat (get_ptr (sectors (disk s) (unat (double_indirect_block ino))) j))
        = sectors (disk s) (unat (get_ptr (sectors (disk s) (unat (double_indirect_block ino))) j))"
    proof -
      fix j assume "double_indirect_block ino \<noteq> 0" "j < 256"
        "get_ptr (sectors (disk s) (unat (double_indirect_block ino))) j \<noteq> 0"
      then show "sectors (disk s') (unat (get_ptr (sectors (disk s) (unat (double_indirect_block ino))) j))
        = sectors (disk s) (unat (get_ptr (sectors (disk s) (unat (double_indirect_block ino))) j))"
        using other[of "DblE j"] Dbl by simp
    qed
    show ?thesis
    proof (cases sl)
      case (IndE k) with Dbl o1 show ?thesis by auto
    next
      case (DblE j) with Dbl self p e show ?thesis by auto
    next
      case (DblEE j k)
      show ?thesis
      proof (cases "j = e")
        case True
        with DblEE Dbl self p e old wz show ?thesis by auto
      next
        case False
        with DblEE Dbl self p e o2[of j] show ?thesis by auto
      qed
    qed (use Dbl in auto)
  next
    case (DblE j0)
    have o1: "indirect_block ino \<noteq> 0 \<Longrightarrow>
        sectors (disk s') (unat (indirect_block ino)) = sectors (disk s) (unat (indirect_block ino))"
      using other[of Ind] DblE by simp
    have o0: "double_indirect_block ino \<noteq> 0 \<Longrightarrow>
        sectors (disk s') (unat (double_indirect_block ino)) = sectors (disk s) (unat (double_indirect_block ino))"
      using other[of Dbl] DblE by simp
    have o2: "\<And>j. j \<noteq> j0 \<Longrightarrow> double_indirect_block ino \<noteq> 0 \<Longrightarrow> j < 256 \<Longrightarrow>
        get_ptr (sectors (disk s) (unat (double_indirect_block ino))) j \<noteq> 0 \<Longrightarrow>
        sectors (disk s') (unat (get_ptr (sectors (disk s) (unat (double_indirect_block ino))) j))
        = sectors (disk s) (unat (get_ptr (sectors (disk s) (unat (double_indirect_block ino))) j))"
    proof -
      fix j assume "j \<noteq> j0" "double_indirect_block ino \<noteq> 0" "j < 256"
        "get_ptr (sectors (disk s) (unat (double_indirect_block ino))) j \<noteq> 0"
      then show "sectors (disk s') (unat (get_ptr (sectors (disk s) (unat (double_indirect_block ino))) j))
        = sectors (disk s) (unat (get_ptr (sectors (disk s) (unat (double_indirect_block ino))) j))"
        using other[of "DblE j"] \<open>psl = DblE j0\<close> by simp
    qed
    show ?thesis
    proof (cases sl)
      case (IndE k) with DblE o1 show ?thesis by auto
    next
      case (DblE j) with \<open>psl = DblE j0\<close> o0 show ?thesis by auto
    next
      case (DblEE j k)
      show ?thesis
      proof (cases "j = j0")
        case True
        from p(2) \<open>psl = DblE j0\<close> have d0: "double_indirect_block ino \<noteq> 0" "j0 < 256"
          "get_ptr (sectors (disk s) (unat (double_indirect_block ino))) j0 \<noteq> 0"
          by (auto split: if_splits)
        have self': "sectors (disk s') (unat (get_ptr (sectors (disk s) (unat (double_indirect_block ino))) j0))
            = set_ptr (sectors (disk s) (unat (get_ptr (sectors (disk s) (unat (double_indirect_block ino))) j0))) e w"
          using self \<open>psl = DblE j0\<close> d0 by simp
        show ?thesis using True DblEE \<open>psl = DblE j0\<close> self' d0 e o0 by auto
      next
        case False
        with DblEE \<open>psl = DblE j0\<close> p e o0 o2[of j] show ?thesis by auto
      qed
    qed (use DblE in auto)
  qed (use p in auto)
qed

section \<open>Device schedules and the frame of an allocation\<close>

text \<open>What the device operations consume of the failure schedule, and what one allocation step changes of a well-formed file.\<close>

lemma later_refl [simp]: "later d d"
  by (simp add: later_def)

lemma later_upd [simp]: "later d (d\<lparr>sectors := x\<rparr>)"
  by (simp add: later_def)

lemma later_trans: "later d d1 \<Longrightarrow> later d1 d2 \<Longrightarrow> later d d2"
  unfolding later_def by (elim exE, rule_tac x="pre @ prea" in exI) simp

lemma hit_later: "fault_hit d d1 \<Longrightarrow> later d1 d2 \<Longrightarrow> fault_hit d d2"
  unfolding later_def fault_hit_def
  by (elim exE conjE, rule_tac x="pre @ prea" in exI) auto

lemma later_hit: "later d d1 \<Longrightarrow> fault_hit d1 d2 \<Longrightarrow> fault_hit d d2"
  unfolding later_def fault_hit_def
  by (elim exE conjE, rule_tac x="pre @ prea" in exI) auto

lemma later_reliable: "later d d' \<Longrightarrow> faults d = [] \<Longrightarrow> faults d' = []"
  by (auto simp: later_def)

lemma hit_one_fault:
  assumes "fault_hit d d'" "faults d = replicate n None @ [Some e]"
  shows "faults d' = []"
proof (rule ccontr)
  assume ne: "faults d' \<noteq> []"
  from assms obtain pre e' where p: "replicate n None @ [Some e] = pre @ faults d'" "Some e' \<in> set pre"
    by (auto simp: fault_hit_def)
  from ne obtain ys y where y: "faults d' = ys @ [y]" by (metis rev_exhaust)
  with p(1) have "replicate n None = pre @ ys" by (metis append_assoc butlast_snoc)
  then have "set pre \<subseteq> set (replicate n (None :: vdisk_error option))" by (metis set_append Un_upper1)
  with p(2) show False by auto
qed

lemma vdisk_code_device [simp]: "device_code (vdisk_code e)"
  by (cases e) (simp_all add: device_code_def)

lemma vdisk_read_later: "vdisk_read d sec = (res, d') \<Longrightarrow> later d d'"
  by (auto simp: vdisk_read_def next_fault_def later_def split: list.splits option.splits if_splits)

lemma vdisk_write_later: "vdisk_write d sec buf = (res, d') \<Longrightarrow> later d d'"
  by (auto simp: vdisk_write_def next_fault_def later_def split: list.splits option.splits if_splits)

lemma vdisk_read_hit:
  "vdisk_read d sec = (Inl e, d') \<Longrightarrow> sec < size_in_sectors d \<Longrightarrow> fault_hit d d'"
  by (auto simp: vdisk_read_def next_fault_def fault_hit_def split: list.splits option.splits if_splits
      intro!: exI[of _ "[Some e]"])

lemma vdisk_write_hit:
  "vdisk_write d sec buf = (Some e, d') \<Longrightarrow> sec < size_in_sectors d \<Longrightarrow> fault_hit d d'"
  by (auto simp: vdisk_write_def next_fault_def fault_hit_def split: list.splits option.splits if_splits
      intro!: exI[of _ "[Some e]"])

lemma extends_refl [simp]: "extends s ino s ino"
  by (simp add: extends_def)

lemma extends_new:
  assumes "extends s ino s' ino'" "slot_ptr s ino sl = 0" "slot_ptr s' ino' sl \<noteq> 0"
  shows "block_bitmap s (unat (slot_ptr s' ino' sl)) = 0"
    "block_bitmap s' (unat (slot_ptr s' ino' sl)) \<noteq> 0"
    "\<not> is_page sl \<Longrightarrow> sectors (disk s') (unat (slot_ptr s' ino' sl)) = zero_block"
  using assms by (simp_all add: extends_def)

lemma extends_trans:
  assumes a: "extends s ino s1 ino1" and b: "extends s1 ino1 s2 ino2"
  shows "extends s ino s2 ino2"
proof -
  have l: "later (disk s) (disk s2)" using assms by (auto simp: extends_def intro: later_trans)
  have keep1: "\<And>sl. slot_ptr s ino sl \<noteq> 0 \<Longrightarrow> slot_ptr s1 ino1 sl = slot_ptr s ino sl"
    and mono1: "\<And>x. block_bitmap s x \<noteq> 0 \<Longrightarrow> block_bitmap s1 x \<noteq> 0"
    using a by (simp_all add: extends_def)
  have keep2: "\<And>sl. slot_ptr s1 ino1 sl \<noteq> 0 \<Longrightarrow> slot_ptr s2 ino2 sl = slot_ptr s1 ino1 sl"
    and mono2: "\<And>x. block_bitmap s1 x \<noteq> 0 \<Longrightarrow> block_bitmap s2 x \<noteq> 0"
    and leaf2: "\<And>sl. \<not> is_page sl \<Longrightarrow> slot_ptr s1 ino1 sl \<noteq> 0 \<Longrightarrow>
        sectors (disk s2) (unat (slot_ptr s1 ino1 sl)) = sectors (disk s1) (unat (slot_ptr s1 ino1 sl))"
    using b by (simp_all add: extends_def)
  have new: "block_bitmap s (unat (slot_ptr s2 ino2 sl)) = 0
       \<and> block_bitmap s2 (unat (slot_ptr s2 ino2 sl)) \<noteq> 0
       \<and> (\<not> is_page sl \<longrightarrow> sectors (disk s2) (unat (slot_ptr s2 ino2 sl)) = zero_block)"
    if z: "slot_ptr s ino sl = 0" and nz: "slot_ptr s2 ino2 sl \<noteq> 0" for sl
  proof (cases "slot_ptr s1 ino1 sl = 0")
    case True
    note n = extends_new[OF b True nz]
    from n(1) mono1 have "block_bitmap s (unat (slot_ptr s2 ino2 sl)) = 0" by blast
    with n(2,3) show ?thesis by simp
  next
    case False
    note k = keep2[OF False]
    note n = extends_new[OF a z False]
    from n(2) mono2 have "block_bitmap s2 (unat (slot_ptr s1 ino1 sl)) \<noteq> 0" by blast
    moreover have "\<not> is_page sl \<longrightarrow> sectors (disk s2) (unat (slot_ptr s1 ino1 sl)) = zero_block"
      using leaf2[OF _ False] n(3) by simp
    ultimately show ?thesis using n(1) k by simp
  qed
  have leaf1: "\<And>sl. \<not> is_page sl \<Longrightarrow> slot_ptr s ino sl \<noteq> 0 \<Longrightarrow>
        sectors (disk s1) (unat (slot_ptr s ino sl)) = sectors (disk s) (unat (slot_ptr s ino sl))"
    using a by (simp add: extends_def)
  have keep: "slot_ptr s2 ino2 sl = slot_ptr s ino sl" if "slot_ptr s ino sl \<noteq> 0" for sl
    using keep1[OF that] keep2[of sl] that by simp
  have mono: "block_bitmap s2 x \<noteq> 0" if "block_bitmap s x \<noteq> 0" for x
    by (rule mono2[OF mono1[OF that]])
  have leaf: "sectors (disk s2) (unat (slot_ptr s ino sl)) = sectors (disk s) (unat (slot_ptr s ino sl))"
    if "\<not> is_page sl" "slot_ptr s ino sl \<noteq> 0" for sl
    using leaf1[OF that] leaf2[OF that(1), unfolded keep1[OF that(2)], OF that(2)] by simp
  have basic: "disk_mounted s2 = disk_mounted s \<and> superblock s2 = superblock s
   \<and> size_in_sectors (disk s2) = size_in_sectors (disk s) \<and> later (disk s) (disk s2)
   \<and> valid ino2 = valid ino \<and> size_bytes ino2 = size_bytes ino \<and> padding ino2 = padding ino
   \<and> (\<forall>b. b \<le> unat (num_inode_blocks (superblock s)) \<longrightarrow> sectors (disk s2) b = sectors (disk s) b)"
    using a b l by (simp add: extends_def)
  have rest: "disk_mounted s2 = disk_mounted s \<and> superblock s2 = superblock s
   \<and> size_in_sectors (disk s2) = size_in_sectors (disk s) \<and> later (disk s) (disk s2)
   \<and> valid ino2 = valid ino \<and> size_bytes ino2 = size_bytes ino \<and> padding ino2 = padding ino
   \<and> (\<forall>sl. slot_ptr s ino sl \<noteq> 0 \<longrightarrow> slot_ptr s2 ino2 sl = slot_ptr s ino sl)
   \<and> (\<forall>b. block_bitmap s b \<noteq> 0 \<longrightarrow> block_bitmap s2 b \<noteq> 0)
   \<and> (\<forall>b. b \<le> unat (num_inode_blocks (superblock s)) \<longrightarrow> sectors (disk s2) b = sectors (disk s) b)
   \<and> (\<forall>sl. \<not> is_page sl \<and> slot_ptr s ino sl \<noteq> 0 \<longrightarrow>
         sectors (disk s2) (unat (slot_ptr s ino sl)) = sectors (disk s) (unat (slot_ptr s ino sl)))"
    using basic keep mono leaf by blast
  from rest new show ?thesis unfolding extends_def by blast
qed

lemma file_invD:
  assumes "file_inv s ino"
  shows "mounted_ok s" "inode_ok ino" "tree_ok s ino"
  using assms by (simp_all add: file_inv_def)

lemma mounted_ok_cong:
  assumes "mounted_ok s" "disk_mounted s' = disk_mounted s" "superblock s' = superblock s"
    "size_in_sectors (disk s') = size_in_sectors (disk s)"
  shows "mounted_ok s'"
  using assms by (simp add: mounted_ok_def)

lemma frame_unmarked:
  assumes fi: "file_inv s ino"
    and sec: "\<And>b. block_bitmap s b \<noteq> 0 \<or> b \<le> unat (num_inode_blocks (superblock s))
               \<Longrightarrow> sectors (disk s') b = sectors (disk s) b"
    and fr: "superblock s' = superblock s" "disk_mounted s' = disk_mounted s"
      "size_in_sectors (disk s') = size_in_sectors (disk s)"
    and bm: "\<And>b. block_bitmap s b \<noteq> 0 \<Longrightarrow> block_bitmap s' b \<noteq> 0"
    and lt: "later (disk s) (disk s')"
  shows "slot_ptr s' ino sl = slot_ptr s ino sl" "file_inv s' ino" "extends s ino s' ino"
proof -
  note t = file_invD(3)[OF fi]
  have sp: "slot_ptr s' ino sl = slot_ptr s ino sl" for sl
  proof (rule slot_ptr_cong)
    fix psl assume "is_page psl" "slot_ptr s ino psl \<noteq> 0"
    then show "sectors (disk s') (unat (slot_ptr s ino psl)) = sectors (disk s) (unat (slot_ptr s ino psl))"
      using tree_okD(2)[OF t] sec by simp
  qed simp_all
  show "slot_ptr s' ino sl = slot_ptr s ino sl" by (rule sp)
  have t': "tree_ok s' ino" by (rule tree_ok_cong[OF t sp fr(1) bm])
  show "file_inv s' ino"
    using fi t' mounted_ok_cong[OF file_invD(1)[OF fi] fr(2,1,3)] by (simp add: file_inv_def)
  show "extends s ino s' ino"
    unfolding extends_def using fr sp bm sec lt tree_okD(2)[OF t] by auto
qed

lemma link_step:
  assumes fi: "file_inv s ino"
    and k: "data_block s k" "block_bitmap s k = 0" "unat w = k"
    and fr: "superblock s' = superblock s" "disk_mounted s' = disk_mounted s"
      "size_in_sectors (disk s') = size_in_sectors (disk s)"
      "block_bitmap s' = (block_bitmap s)(k := 1)"
    and sec: "\<And>b. sectors (disk s') b \<noteq> sectors (disk s) b \<Longrightarrow>
                b = k \<or> (\<exists>psl. is_page psl \<and> slot_ptr s ino psl \<noteq> 0 \<and> b = unat (slot_ptr s ino psl))"
    and sp: "\<And>sl. slot_ptr s' ino' sl = (if sl = sl0 then w else slot_ptr s ino sl)"
    and old: "slot_ptr s ino sl0 = 0"
    and fields: "valid ino' = valid ino" "size_bytes ino' = size_bytes ino"
      "padding ino' = padding ino" "inode_ok ino'"
    and lt: "later (disk s) (disk s')"
    and zk: "sectors (disk s') k = zero_block"
  shows "file_inv s' ino'" "extends s ino s' ino'"
proof -
  note t = file_invD(3)[OF fi]
  have t': "tree_ok s' ino'" by (rule tree_link[OF t sp k(3,1,2) fr(4,1)])
  show "file_inv s' ino'"
    using t' fields(4) mounted_ok_cong[OF file_invD(1)[OF fi] fr(2,1,3)] by (simp add: file_inv_def)
  have a: "sectors (disk s') b = sectors (disk s) b"
    if "b \<le> unat (num_inode_blocks (superblock s))" for b
  proof (rule ccontr)
    assume "sectors (disk s') b \<noteq> sectors (disk s) b"
    from sec[OF this] show False
    proof
      assume "b = k" with that k(1) show False by (simp add: data_block_def)
    next
      assume "\<exists>psl. is_page psl \<and> slot_ptr s ino psl \<noteq> 0 \<and> b = unat (slot_ptr s ino psl)"
      then obtain psl where "slot_ptr s ino psl \<noteq> 0" "b = unat (slot_ptr s ino psl)" by auto
      with tree_okD(1)[OF t, of psl] that show False by (simp add: data_block_def)
    qed
  qed
  have b: "sectors (disk s') (unat (slot_ptr s ino sl)) = sectors (disk s) (unat (slot_ptr s ino sl))"
    if "\<not> is_page sl" "slot_ptr s ino sl \<noteq> 0" for sl
  proof (rule ccontr)
    assume "sectors (disk s') (unat (slot_ptr s ino sl)) \<noteq> sectors (disk s) (unat (slot_ptr s ino sl))"
    from sec[OF this] show False
    proof
      assume "unat (slot_ptr s ino sl) = k"
      with tree_okD(2)[OF t that(2)] k(2) show False by simp
    next
      assume "\<exists>psl. is_page psl \<and> slot_ptr s ino psl \<noteq> 0 \<and> unat (slot_ptr s ino sl) = unat (slot_ptr s ino psl)"
      then obtain psl where p: "is_page psl" "slot_ptr s ino sl = slot_ptr s ino psl"
        by (auto simp: word_unat_eq_iff)
      from tree_ok_inj[OF t that(2) p(2)] p(1) that(1) show False by simp
    qed
  qed
  show "extends s ino s' ino'"
    unfolding extends_def using fr fields sp old a b lt zk k(2,3) by auto
qed

lemma alloc_step_fail:
  assumes fi: "file_inv s ino" and a: "alloc_zeroed s = (Inl e, s1)"
  shows "e < 0" "file_inv s1 ino" "extends s ino s1 ino" "\<And>sl. slot_ptr s1 ino sl = slot_ptr s ino sl"
    "block_bitmap s1 = block_bitmap s" "sectors (disk s1) = sectors (disk s)"
    "device_code e \<Longrightarrow> fault_hit (disk s) (disk s1)"
proof -
  have aok: "alloc_ok s" using fi by (simp add: file_inv_def mounted_ok_alloc_ok)
  note mo = mounted_okD[OF file_invD(1)[OF fi]]
  have "e < 0 \<and> block_bitmap s1 = block_bitmap s \<and> sectors (disk s1) = sectors (disk s)
      \<and> superblock s1 = superblock s \<and> disk_mounted s1 = disk_mounted s
      \<and> size_in_sectors (disk s1) = size_in_sectors (disk s) \<and> later (disk s) (disk s1)
      \<and> (device_code e \<longrightarrow> fault_hit (disk s) (disk s1))"
    using aok
  proof (cases rule: alloc_zeroed_cases)
    case nospace
    with a show ?thesis by (simp add: device_code_def)
  next
    case (fail k e' d')
    have "(word_of_nat k :: u32) < size_in_sectors (disk s)"
      using fail(2,6) mo(2) by (simp add: word_less_nat_alt)
    from vdisk_write_hit[OF fail(4) this] vdisk_write_later[OF fail(4)]
      a fail vdisk_write_cases[OF fail(4)] vdisk_code_neg[of e'] show ?thesis by auto
  next
    case (ok k d')
    with a show ?thesis by simp
  qed
  then have h: "e < 0" "block_bitmap s1 = block_bitmap s" "sectors (disk s1) = sectors (disk s)"
      "superblock s1 = superblock s" "disk_mounted s1 = disk_mounted s"
      "size_in_sectors (disk s1) = size_in_sectors (disk s)" "later (disk s) (disk s1)"
      "device_code e \<longrightarrow> fault_hit (disk s) (disk s1)" by simp_all
  show "e < 0" "block_bitmap s1 = block_bitmap s" "sectors (disk s1) = sectors (disk s)" by (rule h)+
  show "device_code e \<Longrightarrow> fault_hit (disk s) (disk s1)" using h(8) by simp
  show "file_inv s1 ino" by (rule frame_unmarked(2)[OF fi]) (simp_all add: h)
  show "extends s ino s1 ino" by (rule frame_unmarked(3)[OF fi]) (simp_all add: h)
  show "\<And>sl. slot_ptr s1 ino sl = slot_ptr s ino sl" by (rule frame_unmarked(1)[OF fi]) (simp_all add: h)
qed

lemma alloc_step_ok:
  assumes fi: "file_inv s ino" and a: "alloc_zeroed s = (Inr nb, s1)"
  obtains (new) k where "nb = int k" "unat (word_of_int nb :: u32) = k" "0 < k" "k < 2147483648"
    "data_block s k" "block_bitmap s k = 0" "block_bitmap s1 = (block_bitmap s)(k := 1)"
    "sectors (disk s1) = (sectors (disk s))(k := zero_block)"
    "superblock s1 = superblock s" "disk_mounted s1 = disk_mounted s"
    "size_in_sectors (disk s1) = size_in_sectors (disk s)"
    "file_inv s1 ino" "extends s ino s1 ino" "\<And>sl. slot_ptr s1 ino sl = slot_ptr s ino sl"
    "later (disk s) (disk s1)"
proof -
  have aok: "alloc_ok s" using fi by (simp add: file_inv_def mounted_ok_alloc_ok)
  note mo = mounted_okD[OF file_invD(1)[OF fi]]
  from aok show thesis
  proof (cases rule: alloc_zeroed_cases)
    case nospace
    with a show ?thesis by simp
  next
    case (fail k e' d')
    with a show ?thesis by simp
  next
    case (ok k d')
    have nb: "nb = int k" and s1: "s1 = s\<lparr>block_bitmap := (block_bitmap s)(k := 1), disk := d'\<rparr>"
      using a ok(6) by simp_all
    have u: "unat (word_of_int nb :: u32) = k" using ok(7) nb by simp
    have sec: "sectors (disk s1) = (sectors (disk s))(k := zero_block)"
      using vdisk_write_cases(2)[OF ok(5)] s1 ok(7) by simp
    have sz: "size_in_sectors (disk s1) = size_in_sectors (disk s)"
      using vdisk_write_cases(1)[OF ok(5)] s1 by simp
    have db: "data_block s k" using ok(2,4) by (simp add: data_block_def)
    have fr: "superblock s1 = superblock s" "disk_mounted s1 = disk_mounted s"
      "block_bitmap s1 = (block_bitmap s)(k := 1)" using s1 by simp_all
    have g: "block_bitmap s b \<noteq> 0 \<or> b \<le> unat (num_inode_blocks (superblock s)) \<Longrightarrow>
         sectors (disk s1) b = sectors (disk s) b" for b
      using sec ok(3,4) by auto
    have m: "block_bitmap s b \<noteq> 0 \<Longrightarrow> block_bitmap s1 b \<noteq> 0" for b using fr(3) by simp
    have k31: "k < 2147483648" using ok(2) mo(5) by simp
    have lt: "later (disk s) (disk s1)" using vdisk_write_later[OF ok(5)] s1 by simp
    show ?thesis
      by (rule that[OF nb u ok(1) k31 db ok(3) fr(3) sec fr(1,2) sz
            frame_unmarked(2)[OF fi g fr(1,2) sz m lt] frame_unmarked(3)[OF fi g fr(1,2) sz m lt]
            frame_unmarked(1)[OF fi g fr(1,2) sz m lt] lt])
  qed
qed

section \<open>get_block_for_offset on a well-formed file\<close>

text \<open>The outcome of a call with \<open>allocate\<close> for every failure schedule, path by path.\<close>

lemma free_block_facts:
  "superblock (free_block t x) = superblock t"
  "block_bitmap (free_block t x) b \<noteq> block_bitmap t b \<Longrightarrow> b = unat (word_of_int x :: u32)"
  by (auto simp: free_block_def split: if_splits)

lemma ptr_range:
  assumes "file_inv s ino" "slot_ptr s ino sl \<noteq> 0"
  shows "slot_ptr s ino sl < size_in_sectors (disk s)" "unat (slot_ptr s ino sl) < 2147483648"
    "0 < sint (slot_ptr s ino sl)" "sint (slot_ptr s ino sl) < 2147483648"
    "word_of_int (sint (slot_ptr s ino sl)) = slot_ptr s ino sl"
    "nat (sint (slot_ptr s ino sl)) = unat (slot_ptr s ino sl)"
proof -
  note mo = mounted_okD[OF file_invD(1)[OF assms(1)]]
  have d: "data_block s (unat (slot_ptr s ino sl))" by (rule tree_okD(1)[OF file_invD(3)[OF assms(1)] assms(2)])
  then have lt: "unat (slot_ptr s ino sl) < unat (num_blocks (superblock s))" by (simp add: data_block_def)
  then show "slot_ptr s ino sl < size_in_sectors (disk s)" using mo(2) by (simp add: word_less_nat_alt)
  show u: "unat (slot_ptr s ino sl) < 2147483648" using lt mo(5) by linarith
  have si: "sint (slot_ptr s ino sl) = int (unat (slot_ptr s ino sl))" by (rule sint_small) (use u in simp)
  have "0 < unat (slot_ptr s ino sl)" using assms(2) by (simp add: unat_gt_0)
  then show "0 < sint (slot_ptr s ino sl)" unfolding si by linarith
  show "sint (slot_ptr s ino sl) < 2147483648" unfolding si using u by linarith
  show "word_of_int (sint (slot_ptr s ino sl)) = slot_ptr s ino sl" by simp
  show "nat (sint (slot_ptr s ino sl)) = unat (slot_ptr s ino sl)" unfolding si by (rule nat_int)
qed

lemma gbo_entry_step:
  assumes fi: "file_inv s ino" and p: "is_page psl" "slot_ptr s ino psl = P" "P \<noteq> 0" and e: "e < 256"
    and g: "gbo_entry s ino P e True = (r, ino', s')"
  shows "ino' = ino" "extends s ino s' ino" "file_inv s' ino"
    "0 < r \<Longrightarrow> r < 2147483648 \<and> slot_ptr s' ino (child psl e) = word_of_int r
        \<and> (slot_ptr s ino (child psl e) = 0 \<longrightarrow> sectors (disk s') (nat r) = zero_block)"
    "\<And>sl. sl \<noteq> child psl e \<Longrightarrow> slot_ptr s' ino sl = slot_ptr s ino sl"
    "device_code r \<Longrightarrow> fault_hit (disk s) (disk s')" "r \<noteq> 0"
proof -
  obtain res d1 where rd: "vdisk_read (disk s) P = (res, d1)" by (cases "vdisk_read (disk s) P")
  note rc = vdisk_read_cases[OF rd]
  let ?s1 = "s\<lparr>disk := d1\<rparr>"
  have l0: "later (disk s) d1" by (rule vdisk_read_later[OF rd])
  have l1: "later (disk s) (disk ?s1)" using l0 by simp
  have fi1: "file_inv ?s1 ino" by (rule frame_unmarked(2)[OF fi]) (simp_all add: rc l0)
  have ex1: "extends s ino ?s1 ino" by (rule frame_unmarked(3)[OF fi]) (simp_all add: rc l0)
  have sp1: "slot_ptr ?s1 ino sl = slot_ptr s ino sl" for sl
    by (rule frame_unmarked(1)[OF fi]) (simp_all add: rc l0)
  have Pr: "P < size_in_sectors (disk s)" using ptr_range(1)[OF fi, of psl] p by simp
  have all: "ino' = ino \<and> extends s ino s' ino \<and> file_inv s' ino \<and>
    (0 < r \<longrightarrow> r < 2147483648 \<and> slot_ptr s' ino (child psl e) = word_of_int r
        \<and> (slot_ptr s ino (child psl e) = 0 \<longrightarrow> sectors (disk s') (nat r) = zero_block))
    \<and> (\<forall>sl. sl \<noteq> child psl e \<longrightarrow> slot_ptr s' ino sl = slot_ptr s ino sl)
    \<and> (device_code r \<longrightarrow> fault_hit (disk s) (disk s')) \<and> r \<noteq> 0"
  proof (cases res)
    case (Inl er)
    with g rd have "r = vdisk_code er" "ino' = ino" "s' = ?s1" by (simp_all add: gbo_entry_def)
    with ex1 fi1 sp1 vdisk_code_neg[of er] vdisk_read_hit[OF rd[unfolded Inl] Pr] show ?thesis by auto
  next
    case (Inr page)
    have page: "page = sectors (disk s) (unat P)" using rc(3) Inr by simp
    have ch: "slot_ptr s ino (child psl e) = get_ptr page e"
      using slot_ptr_child[OF p(1), of s ino e] p(2,3) e page by simp
    show ?thesis
    proof (cases "get_ptr page e = 0")
      case False
      with g rd Inr have res: "r = sint (get_ptr page e)" "ino' = ino" "s' = ?s1"
        by (simp_all add: gbo_entry_def Let_def)
      have nz: "slot_ptr ?s1 ino (child psl e) \<noteq> 0" using False ch sp1 by simp
      have "\<not> device_code r" using ptr_range(3)[OF fi1 nz] res(1) ch sp1 by (simp add: device_code_def)
      with ptr_range[OF fi1 nz] res ch sp1 fi1 ex1 False show ?thesis by simp
    next
      case True
      obtain ares s2 where al: "alloc_zeroed ?s1 = (ares, s2)" by (cases "alloc_zeroed ?s1")
      show ?thesis
      proof (cases ares)
        case (Inl er)
        with g rd Inr True al have res: "r = er" "ino' = ino" "s' = s2"
          by (simp_all add: gbo_entry_def Let_def)
        note af = alloc_step_fail[OF fi1 al[unfolded Inl]]
        have "device_code r \<longrightarrow> fault_hit (disk s) (disk s')"
          using af(7) later_hit[OF l1] res by auto
        with af(1,2,3,4) res extends_trans[OF ex1] sp1 show ?thesis by auto
      next
        case (Inr nb)
        from fi1 al[unfolded Inr] show ?thesis
        proof (cases rule: alloc_step_ok)
        case (new k)
        note k = new
        let ?w = "word_of_int nb :: u32"
        let ?page' = "set_ptr page e ?w"
        obtain wres d3 where wr: "vdisk_write (disk s2) P ?page' = (wres, d3)"
          by (cases "vdisk_write (disk s2) P ?page'")
        note wc = vdisk_write_cases[OF wr]
        have l3: "later (disk ?s1) d3" using later_trans[OF k(15) vdisk_write_later[OF wr]] .
        have Pm: "block_bitmap s (unat P) \<noteq> 0" using tree_okD(2)[OF file_invD(3)[OF fi], of psl] p by simp
        have kP: "unat P \<noteq> k" using Pm k(6) by auto
        show ?thesis
        proof (cases wres)
          case (Some er)
          with g rd \<open>res = Inr page\<close> True al Inr wr
          have res: "r = vdisk_code er" "ino' = ino" "s' = free_block (s2\<lparr>disk := d3\<rparr>) nb"
            by (simp_all add: gbo_entry_def Let_def)
          have pr1: "sectors (disk s') b = sectors (disk ?s1) b"
            if "block_bitmap ?s1 b \<noteq> 0 \<or> b \<le> unat (num_inode_blocks (superblock ?s1))" for b
          proof -
            from that have "b \<noteq> k" using k(5,6) by (auto simp: data_block_def)
            then show ?thesis using res(3) wc(3) Some k(8) by (simp add: free_block_facts)
          qed
          have pr2: "block_bitmap s' b \<noteq> 0" if a: "block_bitmap ?s1 b \<noteq> 0" for b
          proof -
            from a have bk: "b \<noteq> k" using k(6) by auto
            have "block_bitmap s' b = block_bitmap (s2\<lparr>disk := d3\<rparr>) b"
              using free_block_facts(2)[of "s2\<lparr>disk := d3\<rparr>" nb b] res(3) k(2) bk by auto
            then show ?thesis using a k(7) bk by simp
          qed
          have fr': "superblock s' = superblock ?s1" "disk_mounted s' = disk_mounted ?s1"
            "size_in_sectors (disk s') = size_in_sectors (disk ?s1)"
            using res(3) k(9,10,11) wc(1) by (simp_all add: free_block_facts)
          have l': "later (disk ?s1) (disk s')" using l3 res(3) by simp
          have fu: "extends ?s1 ino s' ino \<and> file_inv s' ino \<and> (\<forall>sl. slot_ptr s' ino sl = slot_ptr ?s1 ino sl)"
            using frame_unmarked[OF fi1 pr1 fr' pr2 l'] by simp
          have "P < size_in_sectors (disk s2)" using Pr k(11) rc(1) by simp
          from vdisk_write_hit[OF wr[unfolded Some] this]
          have "fault_hit (disk s) (disk s')"
            using later_hit[OF later_trans[OF l1 k(15)]] res(3) by simp
          with fu res extends_trans[OF ex1] sp1 vdisk_code_neg[of er] show ?thesis by auto
        next
          case None
          with g rd \<open>res = Inr page\<close> True al Inr wr
          have res: "r = sint (get_ptr ?page' e)" "ino' = ino" "s' = s2\<lparr>disk := d3\<rparr>"
            by (simp_all add: gbo_entry_def Let_def)
          have rk: "r = int k"
            using res(1) k(1,2,4) sint_small[of ?w] by simp
          have sec3: "sectors (disk s') = (sectors (disk s2))(unat P := ?page')"
            using wc(2) None res(3) by simp
          have pg2: "sectors (disk s2) (unat P) = page" using k(8) kP page rc(2) by simp
          have t2: "tree_ok s2 ino" by (rule file_invD(3)[OF k(12)])
          have P2: "slot_ptr s2 ino psl = P" using k(14) sp1 p(2) by simp
          have wP: "?w \<noteq> P" using kP k(2) by auto
          have sp3: "slot_ptr s' ino sl = (if sl = child psl e then ?w else slot_ptr ?s1 ino sl)" for sl
          proof -
            have "slot_ptr s' ino sl = (if sl = child psl e then ?w else slot_ptr s2 ino sl)"
            proof (rule slot_ptr_link_page[OF t2 p(1) _ e])
              show "slot_ptr s2 ino psl \<noteq> 0" using P2 p(3) by simp
              show "slot_ptr s2 ino (child psl e) = 0" using k(14) sp1 ch True by simp
              show "sectors (disk s') = (sectors (disk s2))(unat (slot_ptr s2 ino psl) :=
                      set_ptr (sectors (disk s2) (unat (slot_ptr s2 ino psl))) e ?w)"
                using sec3 P2 pg2 by simp
              show "sectors (disk s2) (unat ?w) = zero_block" using k(2,8) by simp
              show "?w \<noteq> slot_ptr s2 ino psl" using wP P2 by simp
            qed
            then show ?thesis using k(14) by simp
          qed
          have z: "sectors (disk s') (nat r) = zero_block" using rk sec3 k(8) kP by simp
          then have zk: "sectors (disk s') k = zero_block" using rk by simp
          have ls: "file_inv s' ino \<and> extends ?s1 ino s' ino"
          proof (intro conjI)
            have sec: "\<And>b. sectors (disk s') b \<noteq> sectors (disk ?s1) b \<Longrightarrow>
                b = k \<or> (\<exists>q. is_page q \<and> slot_ptr ?s1 ino q \<noteq> 0 \<and> b = unat (slot_ptr ?s1 ino q))"
            proof -
              fix b assume "sectors (disk s') b \<noteq> sectors (disk ?s1) b"
              then have "b = k \<or> b = unat P" using sec3 k(8) by (auto split: if_splits)
              then show "b = k \<or> (\<exists>q. is_page q \<and> slot_ptr ?s1 ino q \<noteq> 0 \<and> b = unat (slot_ptr ?s1 ino q))"
                using p sp1 by auto
            qed
            have old: "slot_ptr ?s1 ino (child psl e) = 0" using sp1 ch True by simp
            have fr: "superblock s' = superblock ?s1" "disk_mounted s' = disk_mounted ?s1"
              "size_in_sectors (disk s') = size_in_sectors (disk ?s1)"
              "block_bitmap s' = (block_bitmap ?s1)(k := 1)"
              using res(3) k wc(1) by simp_all
            have l': "later (disk ?s1) (disk s')" using l3 res(3) by simp
            show "file_inv s' ino"
              by (rule link_step(1)[OF fi1 k(5,6,2) fr sec sp3 old _ _ _ _ l' zk]) (simp_all add: file_invD[OF fi])
            show "extends ?s1 ino s' ino"
              by (rule link_step(2)[OF fi1 k(5,6,2) fr sec sp3 old _ _ _ _ l' zk]) (simp_all add: file_invD[OF fi])
          qed
          have nd: "\<not> device_code r" using rk by (simp add: device_code_def)
          have "slot_ptr s' ino (child psl e) = word_of_int r" using sp3 rk k(1) by simp
          with ls res(2) rk k(3,4) z nd extends_trans[OF ex1] sp3 sp1 show ?thesis by auto
        qed
        qed
      qed
    qed
  qed
  from all show "ino' = ino" "extends s ino s' ino" "file_inv s' ino"
    "0 < r \<Longrightarrow> r < 2147483648 \<and> slot_ptr s' ino (child psl e) = word_of_int r
        \<and> (slot_ptr s ino (child psl e) = 0 \<longrightarrow> sectors (disk s') (nat r) = zero_block)"
    "\<And>sl. sl \<noteq> child psl e \<Longrightarrow> slot_ptr s' ino sl = slot_ptr s ino sl"
    "device_code r \<Longrightarrow> fault_hit (disk s) (disk s')" "r \<noteq> 0"
    by simp_all
qed

lemma extends_later: "extends s ino s' ino' \<Longrightarrow> later (disk s) (disk s')"
  by (simp add: extends_def)

lemma gbo_direct_step:
  assumes fi: "file_inv s ino" and bi: "bi < 4"
    and g: "gbo_direct s ino bi True = (r, ino', s')"
  shows "step_post s ino (Direct bi) r ino' s'"
proof (cases "direct_blocks ino ! bi = 0")
  case False
  with g have res: "r = sint (direct_blocks ino ! bi)" "ino' = ino" "s' = s"
    by (auto simp: gbo_direct_def)
  have nz: "slot_ptr s ino (Direct bi) \<noteq> 0" using False bi by simp
  from ptr_range[OF fi nz] res fi bi False show ?thesis by (simp add: step_post_def device_code_def)
next
  case True
  obtain ares s1 where al: "alloc_zeroed s = (ares, s1)" by (cases "alloc_zeroed s")
  show ?thesis
  proof (cases ares)
    case (Inl er)
    with g True al have res: "r = er" "ino' = ino" "s' = s1" by (simp_all add: gbo_direct_def)
    from alloc_step_fail(1,2,3,7)[OF fi al[unfolded Inl]] res show ?thesis
      by (simp add: step_post_def)
  next
    case (Inr nb)
    let ?w = "word_of_int nb :: u32"
    let ?ino = "ino\<lparr>direct_blocks := (direct_blocks ino)[bi := ?w]\<rparr>"
    have io: "inode_ok ino" by (rule file_invD(2)[OF fi])
    have len: "bi < length (direct_blocks ino)" using io bi by (simp add: inode_ok_def)
    from g True al Inr len have res: "r = sint ?w" "ino' = ?ino" "s' = s1"
      by (simp_all add: gbo_direct_def Let_def)
    from fi al[unfolded Inr] show ?thesis
    proof (cases rule: alloc_step_ok)
      case (new k)
      have rk: "r = int k" using res(1) new(1,2,4) sint_small[of ?w] by simp
      have sp: "slot_ptr s1 ?ino sl = (if sl = Direct bi then ?w else slot_ptr s ino sl)" for sl
        using slot_ptr_link_direct[OF io bi, of s1 ?w sl] new(14) by simp
      have old: "slot_ptr s ino (Direct bi) = 0" using True bi by simp
      have sec: "\<And>b. sectors (disk s1) b \<noteq> sectors (disk s) b \<Longrightarrow>
          b = k \<or> (\<exists>psl. is_page psl \<and> slot_ptr s ino psl \<noteq> 0 \<and> b = unat (slot_ptr s ino psl))"
        using new(8) by (auto split: if_splits)
      have io': "inode_ok ?ino" using io by (simp add: inode_ok_def)
      have z: "sectors (disk s1) (nat r) = zero_block" using rk new(8) by simp
      then have zk: "sectors (disk s1) k = zero_block" using rk by simp
      have f: "file_inv s1 ?ino"
        by (rule link_step(1)[OF fi new(5,6,2,9,10,11,7) sec sp old _ _ _ io' new(15) zk]) simp_all
      have x: "extends s ino s1 ?ino"
        by (rule link_step(2)[OF fi new(5,6,2,9,10,11,7) sec sp old _ _ _ io' new(15) zk]) simp_all
      from f x z rk new(3,4) sp[of "Direct bi"] old res new(1) show ?thesis
        by (simp add: step_post_def device_code_def)
    qed
  qed
qed

lemma step_post_compose:
  assumes "extends s ino s1 ino1" "slot_ptr s ino lf = 0" "slot_ptr s1 ino1 lf = 0"
    and "step_post s1 ino1 lf r ino' s'"
  shows "step_post s ino lf r ino' s'"
  using assms extends_trans[OF assms(1)] later_hit[OF extends_later[OF assms(1)]]
  by (auto simp: step_post_def)

lemma gbo_entry_post:
  assumes fi: "file_inv s ino" and p: "is_page psl" "slot_ptr s ino psl = P" "P \<noteq> 0" and e: "e < 256"
    and g: "gbo_entry s ino P e True = (r, ino', s')"
  shows "step_post s ino (child psl e) r ino' s'"
  using gbo_entry_step(1,2,3,4,6,7)[OF fi p e g] by (auto simp: step_post_def)

lemma gbo_indirect_step:
  assumes fi: "file_inv s ino" and k: "k < 256"
    and g: "gbo_indirect s ino k True = (r, ino', s')"
  shows "step_post s ino (IndE k) r ino' s'"
proof (cases "indirect_block ino = 0")
  case False
  with g have "gbo_entry s ino (indirect_block ino) k True = (r, ino', s')"
    by (simp add: gbo_indirect_def)
  from gbo_entry_post[OF fi _ _ False k this, of Ind] show ?thesis by simp
next
  case True
  obtain ares s1 where al: "alloc_zeroed s = (ares, s1)" by (cases "alloc_zeroed s")
  show ?thesis
  proof (cases ares)
    case (Inl er)
    with g True al have res: "r = er" "ino' = ino" "s' = s1" by (simp_all add: gbo_indirect_def)
    from alloc_step_fail(1,2,3,7)[OF fi al[unfolded Inl]] res show ?thesis
      by (simp add: step_post_def)
  next
    case (Inr nb)
    let ?w = "word_of_int nb :: u32"
    let ?ino = "ino\<lparr>indirect_block := ?w\<rparr>"
    have io: "inode_ok ino" by (rule file_invD(2)[OF fi])
    from g True al Inr have g2: "gbo_entry s1 ?ino ?w k True = (r, ino', s')"
      by (simp add: gbo_indirect_def Let_def)
    from fi al[unfolded Inr] show ?thesis
    proof (cases rule: alloc_step_ok)
      case (new j)
      have z: "sectors (disk s1) (unat ?w) = zero_block" using new(2,8) by simp
      have sp: "slot_ptr s1 ?ino sl = (if sl = Ind then ?w else slot_ptr s ino sl)" for sl
        using slot_ptr_link_ind[OF True z, of sl] new(14) by simp
      have old: "slot_ptr s ino Ind = 0" using True by simp
      have sec: "\<And>b. sectors (disk s1) b \<noteq> sectors (disk s) b \<Longrightarrow>
          b = j \<or> (\<exists>psl. is_page psl \<and> slot_ptr s ino psl \<noteq> 0 \<and> b = unat (slot_ptr s ino psl))"
        using new(8) by (auto split: if_splits)
      have io': "inode_ok ?ino" using io by (simp add: inode_ok_def)
      have zk: "sectors (disk s1) j = zero_block" using new(8) by simp
      have f: "file_inv s1 ?ino"
        by (rule link_step(1)[OF fi new(5,6,2,9,10,11,7) sec sp old _ _ _ io' new(15) zk]) simp_all
      have x: "extends s ino s1 ?ino"
        by (rule link_step(2)[OF fi new(5,6,2,9,10,11,7) sec sp old _ _ _ io' new(15) zk]) simp_all
      have wnz: "?w \<noteq> 0" using new(2,3) by auto
      have P: "slot_ptr s1 ?ino Ind = ?w" by simp
      have "step_post s1 ?ino (child Ind k) r ino' s'"
        by (rule gbo_entry_post[OF f _ P wnz k g2]) simp
      then have sp1: "step_post s1 ?ino (IndE k) r ino' s'" by simp
      have o1: "slot_ptr s ino (IndE k) = 0" using True by simp
      have o2: "slot_ptr s1 ?ino (IndE k) = 0" using sp[of "IndE k"] o1 by simp
      show ?thesis by (rule step_post_compose[OF x o1 o2 sp1])
    qed
  qed
qed

lemma gbo_double_page_split:
  assumes fi: "file_inv s ino" and D: "double_indirect_block ino \<noteq> 0" and bi: "bi < 65536"
  shows "gbo_double_page s ino bi True =
     (case gbo_entry s ino (double_indirect_block ino) (bi div 256) True of
        (r1, ino1, s1) \<Rightarrow>
          if 0 < r1 then gbo_entry s1 ino (word_of_int r1) (bi mod 256) True else (r1, ino1, s1))"
proof -
  let ?D = "double_indirect_block ino"
  let ?j = "bi div 256"
  obtain res d1 where rd: "vdisk_read (disk s) ?D = (res, d1)" by (cases "vdisk_read (disk s) ?D")
  note rc = vdisk_read_cases[OF rd]
  let ?s1 = "s\<lparr>disk := d1\<rparr>"
  have l0: "later (disk s) d1" by (rule vdisk_read_later[OF rd])
  have fi1: "file_inv ?s1 ino" by (rule frame_unmarked(2)[OF fi]) (simp_all add: rc l0)
  have sp1: "slot_ptr ?s1 ino sl = slot_ptr s ino sl" for sl
    by (rule frame_unmarked(1)[OF fi]) (simp_all add: rc l0)
  have j: "?j < 256" using bi by simp
  show ?thesis
  proof (cases res)
    case (Inl er)
    with rd vdisk_code_neg[of er] show ?thesis
      by (simp add: gbo_double_page_def gbo_entry_def)
  next
    case (Inr page)
    have page: "page = sectors (disk s) (unat ?D)" using rc(3) Inr by simp
    show ?thesis
    proof (cases "get_ptr page ?j = 0")
      case False
      have nz: "slot_ptr ?s1 ino (DblE ?j) \<noteq> 0" using False page D j rc(2) by simp
      have eq: "slot_ptr ?s1 ino (DblE ?j) = get_ptr page ?j" using page D j rc(2) by simp
      from ptr_range(3)[OF fi1 nz] rd Inr False eq show ?thesis
        by (simp add: gbo_double_page_def gbo_entry_def Let_def)
    next
      case True
      obtain ares s2 where al: "alloc_zeroed ?s1 = (ares, s2)" by (cases "alloc_zeroed ?s1")
      show ?thesis
      proof (cases ares)
        case (Inl er)
        from alloc_step_fail(1)[OF fi1 al[unfolded Inl]] rd \<open>res = Inr page\<close> True al Inl
        show ?thesis by (simp add: gbo_double_page_def gbo_entry_def Let_def)
      next
        case (Inr nb)
        let ?w = "word_of_int nb :: u32"
        obtain wres d3 where wr: "vdisk_write (disk s2) ?D (set_ptr page ?j ?w) = (wres, d3)"
          by (cases "vdisk_write (disk s2) ?D (set_ptr page ?j ?w)")
        from fi1 al[unfolded Inr] show ?thesis
        proof (cases rule: alloc_step_ok)
          case (new k)
          have rk: "sint ?w = int k" using new(1,2,4) sint_small[of ?w] by simp
          show ?thesis
          proof (cases wres)
            case (Some er)
            with rd \<open>res = Inr page\<close> True al Inr wr vdisk_code_neg[of er] show ?thesis
              by (simp add: gbo_double_page_def gbo_entry_def Let_def)
          next
            case None
            with rd \<open>res = Inr page\<close> True al Inr wr rk new(1,3) show ?thesis
              by (simp add: gbo_double_page_def gbo_entry_def Let_def)
          qed
        qed
      qed
    qed
  qed
qed

lemma gbo_double_page_step:
  assumes fi: "file_inv s ino" and D: "double_indirect_block ino \<noteq> 0" and bi: "bi < 65536"
    and g: "gbo_double_page s ino bi True = (r, ino', s')"
  shows "step_post s ino (DblEE (bi div 256) (bi mod 256)) r ino' s'" "ino' = ino"
proof -
  let ?D = "double_indirect_block ino"
  let ?j = "bi div 256" and ?e = "bi mod 256"
  have j: "?j < 256" using bi by simp
  have e: "?e < 256" by simp
  obtain r1 ino1 s1 where g1: "gbo_entry s ino ?D ?j True = (r1, ino1, s1)"
    by (cases "gbo_entry s ino ?D ?j True")
  have PD: "slot_ptr s ino Dbl = ?D" by simp
  note st1 = gbo_entry_step[OF fi _ PD D j g1, simplified]
  note g' = g[unfolded gbo_double_page_split[OF fi D bi] g1 prod.case]
  have both: "step_post s ino (DblEE ?j ?e) r ino' s' \<and> ino' = ino"
  proof (cases "0 < r1")
    case False
    with g' have "r = r1" "ino' = ino1" "s' = s1" by simp_all
    with False st1(1,2,3,6,7) show ?thesis by (simp add: step_post_def)
  next
    case True
    with g' have g2: "gbo_entry s1 ino (word_of_int r1) ?e True = (r, ino', s')" by simp
    note fi1 = st1(3)
    from st1(4)[OF True] have r1: "r1 < 2147483648"
      and P: "slot_ptr s1 ino (DblE ?j) = word_of_int r1" by simp_all
    have "unat (word_of_int r1 :: u32) = nat r1" by (rule unat_word_of_int) (use True r1 in simp_all)
    then have wnz: "(word_of_int r1 :: u32) \<noteq> 0" using True by (metis nat_0_iff not_less unat_0 order_refl)
    note st2 = gbo_entry_step[OF fi1 _ P wnz e g2, simplified]
    have fr: "slot_ptr s1 ino (DblEE ?j ?e) = slot_ptr s ino (DblEE ?j ?e)"
      by (rule st1(5)) simp
    have ex: "extends s ino s' ino" by (rule extends_trans[OF st1(2) st2(2)])
    have h: "device_code r \<longrightarrow> fault_hit (disk s) (disk s')"
      using st2(6) later_hit[OF extends_later[OF st1(2)]] by auto
    from st2(1,3,4,7) fr ex h show ?thesis by (auto simp: step_post_def)
  qed
  then show "step_post s ino (DblEE (bi div 256) (bi mod 256)) r ino' s'" "ino' = ino" by blast+
qed

lemma gbo_double_step:
  assumes fi: "file_inv s ino" and bi: "bi < 65536"
    and g: "gbo_double s ino bi True = (r, ino', s')"
  shows "step_post s ino (DblEE (bi div 256) (bi mod 256)) r ino' s'"
proof (cases "double_indirect_block ino = 0")
  case False
  with g have "gbo_double_page s ino bi True = (r, ino', s')" by (simp add: gbo_double_def)
  from gbo_double_page_step(1)[OF fi False bi this] show ?thesis .
next
  case True
  obtain ares s1 where al: "alloc_zeroed s = (ares, s1)" by (cases "alloc_zeroed s")
  show ?thesis
  proof (cases ares)
    case (Inl er)
    with g True al have res: "r = er" "ino' = ino" "s' = s1" by (simp_all add: gbo_double_def)
    from alloc_step_fail(1,2,3,7)[OF fi al[unfolded Inl]] res show ?thesis
      by (simp add: step_post_def)
  next
    case (Inr nb)
    let ?w = "word_of_int nb :: u32"
    let ?ino = "ino\<lparr>double_indirect_block := ?w\<rparr>"
    let ?lf = "DblEE (bi div 256) (bi mod 256)"
    have io: "inode_ok ino" by (rule file_invD(2)[OF fi])
    from g True al Inr have g2: "gbo_double_page s1 ?ino bi True = (r, ino', s')"
      by (simp add: gbo_double_def Let_def)
    from fi al[unfolded Inr] show ?thesis
    proof (cases rule: alloc_step_ok)
      case (new j)
      have z: "sectors (disk s1) (unat ?w) = zero_block" using new(2,8) by simp
      have sp: "slot_ptr s1 ?ino sl = (if sl = Dbl then ?w else slot_ptr s ino sl)" for sl
        using slot_ptr_link_dbl[OF True z, of sl] new(14) by simp
      have old: "slot_ptr s ino Dbl = 0" using True by simp
      have sec: "\<And>b. sectors (disk s1) b \<noteq> sectors (disk s) b \<Longrightarrow>
          b = j \<or> (\<exists>psl. is_page psl \<and> slot_ptr s ino psl \<noteq> 0 \<and> b = unat (slot_ptr s ino psl))"
        using new(8) by (auto split: if_splits)
      have io': "inode_ok ?ino" using io by (simp add: inode_ok_def)
      have zk: "sectors (disk s1) j = zero_block" using new(8) by simp
      have f: "file_inv s1 ?ino"
        by (rule link_step(1)[OF fi new(5,6,2,9,10,11,7) sec sp old _ _ _ io' new(15) zk]) simp_all
      have x: "extends s ino s1 ?ino"
        by (rule link_step(2)[OF fi new(5,6,2,9,10,11,7) sec sp old _ _ _ io' new(15) zk]) simp_all
      have wnz: "double_indirect_block ?ino \<noteq> 0" using new(2,3) by auto
      have sp1: "step_post s1 ?ino ?lf r ino' s'"
        by (rule gbo_double_page_step(1)[OF f wnz bi g2])
      have o1: "slot_ptr s ino ?lf = 0" using True by simp
      have o2: "slot_ptr s1 ?ino ?lf = 0" using sp[of ?lf] o1 by simp
      show ?thesis by (rule step_post_compose[OF x o1 o2 sp1])
    qed
  qed
qed

lemma gbo_step:
  assumes fi: "file_inv s ino" and off: "0 \<le> offset" "offset < 67375104"
    and g: "get_block_for_offset s ino offset True = (r, ino', s')"
  shows "step_post s ino (leaf_of (nat (offset div 1024))) r ino' s'"
proof -
  have m: "disk_mounted s" using fi by (simp add: file_inv_def mounted_ok_mounted)
  have o31: "offset < 2 ^ 31" using off(2) by simp
  let ?bi = "nat (offset div 1024)"
  have b: "?bi < 65796" using off by simp
  note gu = g[unfolded gbo_unfold[OF m off(1) o31] Let_def]
  consider (d) "?bi < 4" | (i) "4 \<le> ?bi" "?bi < 260" | (dd) "260 \<le> ?bi" using b by linarith
  then show ?thesis
  proof cases
    case d
    with gu have "gbo_direct s ino ?bi True = (r, ino', s')" by simp
    from gbo_direct_step[OF fi d this] d show ?thesis by (simp add: leaf_of_def)
  next
    case i
    with gu have gi: "gbo_indirect s ino (?bi - 4) True = (r, ino', s')" by simp
    have "?bi - 4 < 256" using i by simp
    from gbo_indirect_step[OF fi this gi] i show ?thesis by (simp add: leaf_of_def)
  next
    case dd
    with gu b have gi: "gbo_double s ino (?bi - 260) True = (r, ino', s')" by simp
    have "?bi - 260 < 65536" using b by simp
    from gbo_double_step[OF fi this gi] dd show ?thesis by (simp add: leaf_of_def)
  qed
qed

section \<open>Allocation on a well-formed file\<close>

text \<open>The state that \<open>get_block_for_offset\<close> leaves, seen from the tree of the file.\<close>

lemma map_path_marked:
  assumes fi: "file_inv s ino" and off: "0 \<le> offset" "offset < 67375104"
  shows "\<forall>p \<in> set (map_path s ino offset). p \<noteq> 0 \<longrightarrow> block_bitmap s (unat p) \<noteq> 0"
proof -
  note t = tree_okD(2)[OF file_invD(3)[OF fi]]
  let ?bi = "nat (offset div 1024)"
  have b: "?bi < 65796" using off by simp
  have dr: "?bi < 4 \<Longrightarrow> direct_blocks ino ! ?bi \<noteq> 0 \<Longrightarrow>
            block_bitmap s (unat (direct_blocks ino ! ?bi)) \<noteq> 0"
    using t[of "Direct ?bi"] by simp
  have ir: "indirect_block ino \<noteq> 0 \<Longrightarrow> block_bitmap s (unat (indirect_block ino)) \<noteq> 0"
    using t[of Ind] by simp
  have ie: "indirect_block ino \<noteq> 0 \<Longrightarrow> ?bi - 4 < 256 \<Longrightarrow>
      get_ptr (sectors (disk s) (unat (indirect_block ino))) (?bi - 4) \<noteq> 0 \<Longrightarrow>
      block_bitmap s (unat (get_ptr (sectors (disk s) (unat (indirect_block ino))) (?bi - 4))) \<noteq> 0"
    using t[of "IndE (?bi - 4)"] by simp
  let ?D = "double_indirect_block ino"
  let ?j = "(?bi - 260) div 256" and ?e = "(?bi - 260) mod 256"
  have j: "?j < 256" using b by simp
  have dd: "?D \<noteq> 0 \<Longrightarrow> block_bitmap s (unat ?D) \<noteq> 0" using t[of Dbl] by simp
  have de: "?D \<noteq> 0 \<Longrightarrow> get_ptr (sectors (disk s) (unat ?D)) ?j \<noteq> 0 \<Longrightarrow>
      block_bitmap s (unat (get_ptr (sectors (disk s) (unat ?D)) ?j)) \<noteq> 0"
    using t[of "DblE ?j"] j by simp
  have dee: "?D \<noteq> 0 \<Longrightarrow> get_ptr (sectors (disk s) (unat ?D)) ?j \<noteq> 0 \<Longrightarrow>
      get_ptr (sectors (disk s) (unat (get_ptr (sectors (disk s) (unat ?D)) ?j))) ?e \<noteq> 0 \<Longrightarrow>
      block_bitmap s (unat (get_ptr (sectors (disk s) (unat (get_ptr (sectors (disk s) (unat ?D)) ?j))) ?e)) \<noteq> 0"
    using t[of "DblEE ?j ?e"] j by simp
  consider (d) "?bi < 4" | (i) "4 \<le> ?bi" "?bi < 260" | (x) "260 \<le> ?bi" by linarith
  then show ?thesis
  proof cases
    case d
    with dr[OF d] show ?thesis by (simp add: map_path_def Let_def)
  next
    case i
    then have "?bi - 4 < 256" by simp
    with i ir ie show ?thesis by (auto simp: map_path_def Let_def)
  next
    case x
    with dd de dee show ?thesis by (auto simp: map_path_def Let_def)
  qed
qed

lemma allocation_tree:
  assumes fi: "file_inv s inode" and off: "0 \<le> offset" "offset < 2 ^ 31"
    and g: "get_block_for_offset s inode offset True = (r, inode', s')"
  shows "(\<forall>sl. slot_ptr s inode sl = 0 \<and> slot_ptr s' inode' sl \<noteq> 0 \<longrightarrow>
            block_bitmap s (unat (slot_ptr s' inode' sl)) = 0
          \<and> block_bitmap s' (unat (slot_ptr s' inode' sl)) = 1
          \<and> (sectors (disk s') (unat (slot_ptr s' inode' sl)) = zero_block
             \<or> (is_page sl \<and> (\<exists>e k. block_bitmap s' k \<noteq> block_bitmap s k
                   \<and> sectors (disk s') (unat (slot_ptr s' inode' sl))
                       = set_ptr zero_block e (word_of_nat k)))))
       \<and> (\<forall>sl. slot_ptr s inode sl \<noteq> 0 \<longrightarrow> slot_ptr s' inode' sl = slot_ptr s inode sl)
       \<and> (\<forall>b. block_bitmap s' b \<noteq> block_bitmap s b \<longrightarrow>
            block_bitmap s b = 0 \<and> block_bitmap s' b = 1
          \<and> word_of_nat b \<in> set (map_path s' inode' offset)
          \<and> (sectors (disk s') b = zero_block
             \<or> (\<exists>e k. block_bitmap s' k \<noteq> block_bitmap s k
                   \<and> sectors (disk s') b = set_ptr zero_block e (word_of_nat k))))
       \<and> (\<exists>pre. faults (disk s) = pre @ faults (disk s')
              \<and> (\<forall>e. Some e \<in> set pre \<longrightarrow> r = vdisk_code e))"
proof (cases "offset < 67375104")
  case False
  have m: "disk_mounted s" using fi by (simp add: file_inv_def mounted_ok_mounted)
  have "\<not> nat (offset div 1024) < 65796" using False by simp
  with g[unfolded gbo_unfold[OF m off] Let_def] have "inode' = inode" "s' = s" by simp_all
  then show ?thesis by simp
next
  case True
  have aok: "alloc_ok s" using fi by (simp add: file_inv_def mounted_ok_alloc_ok)
  note ae = allocation_effects[OF aok file_invD(2)[OF fi] off map_path_marked[OF fi off(1) True] g]
  from gbo_step[OF fi off(1) True g] have ex: "extends s inode s' inode'"
    by (simp add: step_post_def)
  have keep: "\<forall>sl. slot_ptr s inode sl \<noteq> 0 \<longrightarrow> slot_ptr s' inode' sl = slot_ptr s inode sl"
    using ex by (simp add: extends_def)
  have new: "block_bitmap s (unat (slot_ptr s' inode' sl)) = 0
          \<and> block_bitmap s' (unat (slot_ptr s' inode' sl)) = 1
          \<and> (sectors (disk s') (unat (slot_ptr s' inode' sl)) = zero_block
             \<or> (is_page sl \<and> (\<exists>e k. block_bitmap s' k \<noteq> block_bitmap s k
                   \<and> sectors (disk s') (unat (slot_ptr s' inode' sl))
                       = set_ptr zero_block e (word_of_nat k))))"
    if z: "slot_ptr s inode sl = 0" and nz: "slot_ptr s' inode' sl \<noteq> 0" for sl
  proof -
    let ?b = "unat (slot_ptr s' inode' sl)"
    note n = extends_new[OF ex z nz]
    have ch: "block_bitmap s' ?b \<noteq> block_bitmap s ?b" using n(1,2) by simp
    from ae ch have one: "block_bitmap s' ?b = 1"
      and c: "sectors (disk s') ?b = zero_block
             \<or> (\<exists>e k. block_bitmap s' k \<noteq> block_bitmap s k
                   \<and> sectors (disk s') ?b = set_ptr zero_block e (word_of_nat k))" by blast+
    show ?thesis
    proof (cases "is_page sl")
      case True
      with n(1) one c show ?thesis by simp
    next
      case False
      with n(1,3) one show ?thesis by simp
    qed
  qed
  from ae new keep show ?thesis by blast
qed

text \<open>
  Claim C5. \<open>get_block_for_offset\<close> with \<open>allocate\<close>, on a well-formed file and a device that
  may fail at any operation, leaves a state in which:
  every place of the tree that the call has filled (an inode entry, an entry of the
  single-indirect page, of the double-indirect page or of a second-level page) holds a block
  that was free, is marked now, and contains zeros on the device, or, for a page, zeros and
  the one entry that the call has linked into it; since the device may stop the call after
  any operation, no block is linked before it is zeroed;
  no place that held a block has changed;
  every block whose bitmap entry has changed was free, is marked, contains zeros (or zeros and
  one new entry) and is stored on the path of the offset in the inode that the call returns:
  a block whose zero write or whose link into its parent page failed is free again;
  and a failure of the device is the return value.
  The block on the path may be stored in the returned in-memory inode only: a fresh
  single-indirect or double-indirect page is not released when the read of it that follows
  fails.
\<close>
theorem allocation_zeroed_then_linked:
  assumes "file_inv s inode" and "0 \<le> offset" "offset < 2 ^ 31"
    and "get_block_for_offset s inode offset True = (r, inode', s')"
  shows "(\<forall>sl. slot_ptr s inode sl = 0 \<and> slot_ptr s' inode' sl \<noteq> 0 \<longrightarrow>
            block_bitmap s (unat (slot_ptr s' inode' sl)) = 0
          \<and> block_bitmap s' (unat (slot_ptr s' inode' sl)) = 1
          \<and> (sectors (disk s') (unat (slot_ptr s' inode' sl)) = zero_block
             \<or> (is_page sl \<and> (\<exists>e k. block_bitmap s' k \<noteq> block_bitmap s k
                   \<and> sectors (disk s') (unat (slot_ptr s' inode' sl))
                       = set_ptr zero_block e (word_of_nat k)))))
       \<and> (\<forall>sl. slot_ptr s inode sl \<noteq> 0 \<longrightarrow> slot_ptr s' inode' sl = slot_ptr s inode sl)
       \<and> (\<forall>b. block_bitmap s' b \<noteq> block_bitmap s b \<longrightarrow>
            block_bitmap s b = 0 \<and> block_bitmap s' b = 1
          \<and> word_of_nat b \<in> set (map_path s' inode' offset)
          \<and> (sectors (disk s') b = zero_block
             \<or> (\<exists>e k. block_bitmap s' k \<noteq> block_bitmap s k
                   \<and> sectors (disk s') b = set_ptr zero_block e (word_of_nat k))))
       \<and> (\<exists>pre. faults (disk s) = pre @ faults (disk s')
              \<and> (\<forall>e. Some e \<in> set pre \<longrightarrow> r = vdisk_code e))"
  by (rule allocation_tree[OF assms])

lemma slot_ptr_all_zero:
  assumes "direct_blocks ino = [0, 0, 0, 0]" "indirect_block ino = 0" "double_indirect_block ino = 0"
  shows "slot_ptr s ino sl = 0"
proof (cases sl)
  case (Direct k)
  have "k < 4 \<Longrightarrow> [0, 0, 0, 0 :: u32] ! k = 0"
    by (simp add: nth_Cons' )
  with Direct assms show ?thesis by simp
qed (use assms in simp_all)

lemma ex_faulty_facts:
  "disk_mounted (ex_faulty fs)" "superblock (ex_faulty fs) = ex_sb"
  "faults (disk (ex_faulty fs)) = fs" "size_in_sectors (disk (ex_faulty fs)) = 16"
  "block_bitmap (ex_faulty fs) = (\<lambda>k. if k \<le> 1 then 1 else 0)"
  "inode_at (ex_faulty fs) 0 = inode_at ex_state1 0"
  "mounted_ok (ex_faulty fs)"
  by (simp_all add: ex_faulty_def ex_state1_def ex_state_def ex_disk_def inode_at_def put_inode_def
      mounted_ok_def ex_sb_def)

lemma ex_faulty_inv: "file_inv (ex_faulty fs) (inode_at ex_state1 0)"
  unfolding file_inv_def tree_ok_def
  by (simp add: ex_faulty_facts slot_ptr_all_zero ex_state1_inode0) (simp add: inode_ok_def)

lemma ex_faulty_find_free:
  "find_free_block (ex_faulty fs) = (2, (ex_faulty fs)\<lparr>block_bitmap := (block_bitmap (ex_faulty fs))(2 := 1)\<rparr>)"
proof -
  have "find_free_from (ex_faulty fs) 2 =
      (sint (word_of_nat 2 :: u32), (ex_faulty fs)\<lparr>block_bitmap := (block_bitmap (ex_faulty fs))(2 := 1)\<rparr>)"
    by (rule find_free_from_some) (simp_all add: ex_faulty_facts ex_sb_def)
  then show ?thesis
    by (simp add: find_free_block_def ex_faulty_facts ex_sb_def)
qed

lemma ex_faulty_gbo_fail:
  "get_block_for_offset (ex_faulty [Some ESECTOR]) (inode_at ex_state1 0) 0 True =
     (- 5, inode_at ex_state1 0, ex_faulty [])"
proof -
  have w: "vdisk_write (disk (ex_faulty [Some ESECTOR])) 2 zero_block = (Some ESECTOR, disk (ex_faulty []))"
    by (simp add: vdisk_write_def next_fault_def ex_faulty_def)
  have fb: "free_block ((ex_faulty [Some ESECTOR])\<lparr>block_bitmap := (block_bitmap (ex_faulty [Some ESECTOR]))(2 := 1),
               disk := disk (ex_faulty [])\<rparr>) 2 = ex_faulty []"
    by (simp add: free_block_def ex_faulty_facts ex_sb_def) (simp add: ex_faulty_def fun_eq_iff ex_state1_def ex_state_def put_inode_def)
  have "alloc_zeroed (ex_faulty [Some ESECTOR]) = (Inl (- 5), ex_faulty [])"
    by (simp add: alloc_zeroed_def ex_faulty_find_free w fb)
  then show ?thesis
    by (simp add: get_block_for_offset_def gbo_direct_def ex_faulty_facts ex_state1_inode0)
qed

theorem allocation_zeroed_then_linked_witness:
  "file_inv (ex_faulty [Some ESECTOR]) (inode_at ex_state1 0)
   \<and> get_block_for_offset (ex_faulty [Some ESECTOR]) (inode_at ex_state1 0) 0 True
       = (vdisk_code ESECTOR, inode_at ex_state1 0, ex_faulty [])
   \<and> block_bitmap (ex_faulty []) = block_bitmap (ex_faulty [Some ESECTOR])
   \<and> faults (disk (ex_faulty [Some ESECTOR])) = [Some ESECTOR] @ faults (disk (ex_faulty []))
   \<and> file_inv ex_state1 (inode_at ex_state1 0)
   \<and> get_block_for_offset ex_state1 (inode_at ex_state1 0) 0 True =
       (2, (inode_at ex_state1 0)\<lparr>direct_blocks := [2, 0, 0, 0]\<rparr>,
        ex_state1\<lparr>block_bitmap := (block_bitmap ex_state1)(2 := 1),
                  disk := (disk ex_state1)\<lparr>sectors := (sectors (disk ex_state1))(2 := zero_block)\<rparr>\<rparr>)
   \<and> slot_ptr ex_state1 (inode_at ex_state1 0) (Direct 0) = 0
   \<and> block_bitmap ex_state1 2 = 0"
proof -
  have e: "ex_faulty [] = ex_state1" by (simp add: ex_faulty_def ex_state1_def ex_state_def ex_disk_def put_inode_def)
  have fi: "file_inv ex_state1 (inode_at ex_state1 0)" using ex_faulty_inv[of "[]"] e by simp
  note t1 = allocation_zeroed_then_linked[OF ex_faulty_inv, of 0 "[Some ESECTOR]", OF _ _ ex_faulty_gbo_fail]
  note t2 = allocation_zeroed_then_linked[OF fi, of 0, OF _ _ ex_state1_gbo]
  from t2 have "block_bitmap ex_state1 2 = 0"
    by (simp add: ex_state1_def ex_state_def)
  moreover from t1 have "block_bitmap (ex_faulty []) = block_bitmap (ex_faulty [Some ESECTOR])"
    by (simp add: ex_faulty_facts)
  ultimately show ?thesis
    using ex_faulty_inv fi ex_faulty_gbo_fail ex_state1_gbo
    by (simp add: ex_faulty_facts slot_ptr_all_zero ex_state1_inode0)
qed

lemma ex_four_inode_ok: "inode_ok ex_four_inode"
  by (simp add: inode_ok_def ex_four_inode_def)

lemma ex_four_facts:
  "disk_mounted (ex_four fs)" "superblock (ex_four fs) = ex_sb"
  "faults (disk (ex_four fs)) = fs" "size_in_sectors (disk (ex_four fs)) = 16"
  "block_bitmap (ex_four fs) = (\<lambda>k. if k \<le> 5 then 1 else 0)"
  "inode_at (ex_four fs) 0 = ex_four_inode"
  using inode_at_put_inode[OF ex_four_inode_ok, of ex_state 0 0]
  by (simp_all add: ex_four_def ex_state_def ex_disk_def inode_at_def put_inode_def)

lemma ex_four_disk [simp]:
  "(ex_four fs)\<lparr>disk := (disk (ex_four fs))\<lparr>faults := fs'\<rparr>\<rparr> = ex_four fs'"
  by (simp add: ex_four_def)

lemma ex_four_read_inode:
  "read_inode (ex_four (None # fs)) 0 False = (Inr ex_four_inode, ex_four fs)"
  using ex_four_facts(6)[of fs]
  by (simp add: read_inode_def inode_limit_def vdisk_read_def next_fault_def ex_four_facts
      ex_sb_def inode_at_def)
     (simp add: ex_four_def)

lemma ex_four_find_free:
  "find_free_block (ex_four fs) = (6, (ex_four fs)\<lparr>block_bitmap := (block_bitmap (ex_four fs))(6 := 1)\<rparr>)"
proof -
  have "find_free_from (ex_four fs) 2 =
      (sint (word_of_nat 6 :: u32), (ex_four fs)\<lparr>block_bitmap := (block_bitmap (ex_four fs))(6 := 1)\<rparr>)"
    by (rule find_free_from_some) (simp_all add: ex_four_facts ex_sb_def)
  then show ?thesis
    by (simp add: find_free_block_def ex_four_facts ex_sb_def)
qed

lemma ex_four_gbo_leak:
  "get_block_for_offset (ex_four [None, Some ESECTOR]) ex_four_inode 4096 True =
     (- 5, ex_four_inode\<lparr>indirect_block := 6\<rparr>, ex_leak)"
proof -
  let ?s = "ex_four [None, Some ESECTOR]"
  have w: "vdisk_write (disk ?s) 6 zero_block =
      (None, (disk (ex_four [Some ESECTOR]))\<lparr>sectors := (sectors (disk (ex_four [Some ESECTOR])))(6 := zero_block)\<rparr>)"
    by (simp add: vdisk_write_def next_fault_def ex_four_def put_inode_def ex_state_def ex_disk_def)
  have a: "alloc_zeroed ?s = (Inr 6, ?s\<lparr>block_bitmap := (block_bitmap ?s)(6 := 1),
      disk := (disk (ex_four [Some ESECTOR]))\<lparr>sectors := (sectors (disk (ex_four [Some ESECTOR])))(6 := zero_block)\<rparr>\<rparr>)"
    by (simp add: alloc_zeroed_def ex_four_find_free w)
  show ?thesis
    by (simp add: get_block_for_offset_def gbo_indirect_def gbo_entry_def a ex_four_facts
        vdisk_read_def next_fault_def)
       (simp add: ex_four_inode_def ex_leak_def ex_four_def)
qed

text \<open>
  A device error after which the allocated block is not released: the file has its four
  direct blocks, the call for offset 4096 allocates block 6 as the single-indirect page,
  zeroes it and stores it in the in-memory inode, and the read of the page fails (fs.c
  1012-1036). The error is returned and block 6 stays marked; \<open>write\<close> returns the error
  without writing the inode, so the inode on the device does not refer to block 6.
\<close>
theorem allocation_leak_counterexample:
  "get_block_for_offset (ex_four [None, Some ESECTOR]) ex_four_inode 4096 True =
     (vdisk_code ESECTOR, ex_four_inode\<lparr>indirect_block := 6\<rparr>, ex_leak)
   \<and> block_bitmap (ex_four [None, Some ESECTOR]) 6 = 0 \<and> block_bitmap ex_leak 6 = 1
   \<and> write_fs (ex_four [None, None, Some ESECTOR]) 0 [1] 1 4096 = (- 5, ex_leak)
   \<and> inode_at ex_leak 0 = ex_four_inode \<and> indirect_block ex_four_inode = 0"
proof -
  have wl: "write_loop (ex_four [None, Some ESECTOR]) 0 ex_four_inode [1] 1 0 4096 = (- 5, ex_leak)"
    by (subst write_loop.simps)
       (simp add: ex_four_gbo_leak persist_size_def c_mod_def c_div_def, simp add: ex_four_inode_def)
  have sz: "size_bytes ex_four_inode = 4096" "valid ex_four_inode = 1"
    by (simp_all add: ex_four_inode_def)
  have bad: "\<not> bad_inode_num (ex_four [None, None, Some ESECTOR]) 0"
    by (simp add: bad_inode_num_def inode_limit_def ex_four_facts ex_sb_def)
  have w: "write_fs (ex_four [None, None, Some ESECTOR]) 0 [1] 1 4096 = (- 5, ex_leak)"
    by (simp add: write_fs_def ex_four_facts bad ex_four_read_inode sz wl)
  have ia: "inode_at ex_leak 0 = ex_four_inode"
    using ex_four_facts(6)[of "[]"] by (simp add: ex_leak_def inode_at_def)
  from w ia show ?thesis
    by (simp add: ex_four_gbo_leak ex_four_facts ex_leak_def) (simp add: ex_four_inode_def)
qed

section \<open>File content and the frame of a block loop\<close>

text \<open>The bytes of a file, and how one round of a block loop changes them.\<close>

lemma evolves_refl [simp]: "evolves s ino s ino"
  by (simp add: evolves_def)

lemma evolves_trans:
  assumes "evolves s ino s1 ino1" "evolves s1 ino1 s2 ino2"
  shows "evolves s ino s2 ino2"
proof -
  have l: "later (disk s) (disk s2)" using assms by (auto simp: evolves_def intro: later_trans)
  from assms show ?thesis unfolding evolves_def
    by (intro conjI) (simp_all add: l)
qed

lemma extends_evolves: "extends s ino s' ino' \<Longrightarrow> evolves s ino s' ino'"
  by (simp add: extends_def evolves_def)

lemma evolves_mapped: "evolves s ino s' ino' \<Longrightarrow> mapped s ino k \<Longrightarrow> mapped s' ino' k"
  by (simp add: evolves_def mapped_def)

lemma leaf_not_page [simp]: "\<not> is_page (leaf_of bi)"
  by (simp add: leaf_of_def)

lemma leaf_of_inj: "leaf_of a = leaf_of b \<Longrightarrow> a = b"
proof -
  assume h: "leaf_of a = leaf_of b"
  consider (d) "a < 4" | (i) "4 \<le> a" "a < 260" | (dd) "260 \<le> a" by linarith
  then show ?thesis
  proof cases
    case d with h show ?thesis by (auto simp: leaf_of_def split: if_splits)
  next
    case i with h show ?thesis by (auto simp: leaf_of_def split: if_splits)
  next
    case dd
    with h have b: "260 \<le> b" and e: "(a - 260) div 256 = (b - 260) div 256"
      "(a - 260) mod 256 = (b - 260) mod 256"
      by (auto simp: leaf_of_def split: if_splits)
    from e have "a - 260 = b - 260" by (metis div_mult_mod_eq)
    with dd b show ?thesis by linarith
  qed
qed

lemma extends_byte:
  assumes "extends s ino s' ino'" "mapped s ino k"
  shows "file_byte s' ino' k = file_byte s ino k"
  using assms by (simp add: extends_def mapped_def file_byte_def)

lemma same_block:
  fixes c k :: int
  assumes "c \<le> k" "k < c + m" "c mod 1024 + m \<le> 1024"
  shows "k div 1024 = c div 1024" "k mod 1024 = c mod 1024 + (k - c)"
proof -
  have k: "k = 1024 * (c div 1024) + (c mod 1024 + (k - c))" by simp
  have r: "0 \<le> c mod 1024 + (k - c)" "c mod 1024 + (k - c) < 1024" using assms by simp_all
  show "k div 1024 = c div 1024" by (rule int_div_pos_eq[OF k r])
  show "k mod 1024 = c mod 1024 + (k - c)" by (rule int_mod_pos_eq[OF k r])
qed

text \<open>One round of a block loop: the block of the current offset is written back.\<close>
lemma block_round:
  assumes fi: "file_inv s ino" and co: "0 \<le> co"
    and P: "slot_ptr s ino (leaf_of (nat (co div 1024))) = P" "P \<noteq> 0"
    and rd: "(if partial then vdisk_read (disk s) P else (Inr zero_block, disk s)) = (Inr blk, d2)"
    and wr: "vdisk_write d2 P nblk = (None, d3)"
    and m: "0 < m" "co mod 1024 + m \<le> 1024" "partial \<or> m = 1024"
    and content: "\<forall>q<1024. nblk q =
        (if nat (co mod 1024) \<le> q \<and> q < nat (co mod 1024 + m) then v (q - nat (co mod 1024)) else blk q)"
  shows "file_inv (s\<lparr>disk := d3\<rparr>) ino" "evolves s ino (s\<lparr>disk := d3\<rparr>) ino"
    "\<And>k. 0 \<le> k \<Longrightarrow> mapped s ino k \<Longrightarrow> file_byte (s\<lparr>disk := d3\<rparr>) ino k =
        (if co \<le> k \<and> k < co + m then v (nat (k - co)) else file_byte s ino k)"
    "\<And>k. mapped (s\<lparr>disk := d3\<rparr>) ino k = mapped s ino k"
proof -
  let ?s3 = "s\<lparr>disk := d3\<rparr>"
  let ?lf = "leaf_of (nat (co div 1024))"
  note t = file_invD(3)[OF fi]
  have d2: "sectors d2 = sectors (disk s)" "size_in_sectors d2 = size_in_sectors (disk s)"
    "later (disk s) d2" "partial \<Longrightarrow> blk = sectors (disk s) (unat P)"
    using rd vdisk_read_cases[of "disk s" P "Inr blk" d2] vdisk_read_later[of "disk s" P "Inr blk" d2]
    by (auto split: if_splits)
  note wc = vdisk_write_cases[OF wr]
  have sec: "sectors (disk ?s3) = (sectors (disk s))(unat (slot_ptr s ino ?lf) := nblk)"
    using wc(2) d2(1) P by simp
  have sp: "slot_ptr ?s3 ino sl = slot_ptr s ino sl" for sl
    by (rule slot_ptr_leaf_write[OF t _ _ sec]) (simp_all add: P)
  have l: "later (disk s) (disk ?s3)" using later_trans[OF d2(3) vdisk_write_later[OF wr]] by simp
  have t3: "tree_ok ?s3 ino" by (rule tree_ok_cong[OF t sp]) simp_all
  show "file_inv ?s3 ino"
    using t3 fi mounted_ok_cong[OF file_invD(1)[OF fi], of ?s3] wc(1) d2(2) by (simp add: file_inv_def)
  have it: "sectors (disk ?s3) b = sectors (disk s) b" if "b \<le> unat (num_inode_blocks (superblock s))" for b
  proof -
    have "data_block s (unat P)" using tree_okD(1)[OF t, of ?lf] P by simp
    with that have "b \<noteq> unat P" by (auto simp: data_block_def)
    then show ?thesis using sec P by simp
  qed
  show "evolves s ino ?s3 ino"
    unfolding evolves_def using sp l it wc(1) d2(2) by simp
  show "\<And>k. mapped ?s3 ino k = mapped s ino k" by (simp add: mapped_def sp)
  show "file_byte ?s3 ino k = (if co \<le> k \<and> k < co + m then v (nat (k - co)) else file_byte s ino k)"
    if k: "0 \<le> k" "mapped s ino k" for k
  proof (cases "k div 1024 = co div 1024")
    case False
    then have "nat (k div 1024) \<noteq> nat (co div 1024)" using k(1) co by simp
    then have "leaf_of (nat (k div 1024)) \<noteq> ?lf" using leaf_of_inj by blast
    then have "slot_ptr s ino (leaf_of (nat (k div 1024))) \<noteq> P"
      using tree_ok_inj[OF t, of "leaf_of (nat (k div 1024))" ?lf] k(2) P by (auto simp: mapped_def)
    then have ne: "unat (slot_ptr s ino (leaf_of (nat (k div 1024)))) \<noteq> unat P"
      by (simp add: word_unat_eq_iff)
    have "\<not> (co \<le> k \<and> k < co + m)" using same_block(1)[of co k m] m(2) False by auto
    then show ?thesis using ne sec P by (auto simp: file_byte_def sp)
  next
    case True
    have q: "nat (k mod 1024) < 1024" by simp
    have fb: "file_byte ?s3 ino k = nblk (nat (k mod 1024))"
      using True sec P by (simp add: file_byte_def sp)
    show ?thesis
    proof (cases "co \<le> k \<and> k < co + m")
      case T: True
      then have km: "k mod 1024 = co mod 1024 + (k - co)" using same_block(2)[of co k m] m(2) by simp
      have c0: "0 \<le> co mod 1024" by simp
      have "nat (co mod 1024) \<le> nat (k mod 1024) \<and> nat (k mod 1024) < nat (co mod 1024 + m)"
        unfolding km using T c0 m(1) by linarith
      moreover have "nat (k mod 1024) - nat (co mod 1024) = nat (k - co)"
        unfolding km using T c0 by linarith
      ultimately have "nblk (nat (k mod 1024)) = v (nat (k - co))"
        by (simp only: content[rule_format, OF q] if_P)
      then show ?thesis using fb T by simp
    next
      case F: False
      have kk: "k = 1024 * (co div 1024) + k mod 1024" using True by (metis mult_div_mod_eq)
      have cc: "co = 1024 * (co div 1024) + co mod 1024" by simp
      have out: "\<not> (nat (co mod 1024) \<le> nat (k mod 1024) \<and> nat (k mod 1024) < nat (co mod 1024 + m))"
      proof
        assume a: "nat (co mod 1024) \<le> nat (k mod 1024) \<and> nat (k mod 1024) < nat (co mod 1024 + m)"
        have "0 \<le> co mod 1024" "0 \<le> k mod 1024" by simp_all
        with a have "co mod 1024 \<le> k mod 1024" "k mod 1024 < co mod 1024 + m" by linarith+
        with kk cc have "co \<le> k \<and> k < co + m" by linarith
        with F show False by simp
      qed
      have part: partial
      proof (rule ccontr)
        assume np: "\<not> partial"
        then have "m = 1024" using m(3) by simp
        with m(2) have c0: "co mod 1024 = 0" by (smt (verit) pos_mod_sign)
        have "k mod 1024 < 1024" by simp
        with out c0 \<open>m = 1024\<close> show False by simp
      qed
      have "nblk (nat (k mod 1024)) = blk (nat (k mod 1024))"
        by (simp only: content[rule_format, OF q] if_not_P[OF out])
      also have "\<dots> = file_byte s ino k" using d2(4)[OF part] True P by (simp add: file_byte_def)
      finally show ?thesis using fb F by auto
    qed
  qed
qed

section \<open>The payload loop of write\<close>

text \<open>The loop invariant of \<open>write_loop\<close>: the bytes written so far are in the file.\<close>

lemma loop_post_refl: "file_inv s ino \<Longrightarrow> hi \<le> lo \<Longrightarrow> loop_post s ino s ino lo hi v"
  by (auto simp: loop_post_def loop_inv_def)

lemma loop_inv_extends:
  assumes "extends s ino s' ino'" "file_inv s' ino'" "hi \<le> lo"
  shows "loop_inv s ino s' ino' lo hi v"
  using assms extends_evolves[OF assms(1)] extends_byte[OF assms(1)]
  by (auto simp: loop_inv_def)

lemma word_of_int_pos_neq0:
  assumes "0 < r" "r < 2147483648"
  shows "(word_of_int r :: u32) \<noteq> 0" "unat (word_of_int r :: u32) = nat r"
proof -
  show u: "unat (word_of_int r :: u32) = nat r" by (rule unat_word_of_int) (use assms in simp_all)
  show "(word_of_int r :: u32) \<noteq> 0"
  proof
    assume "(word_of_int r :: u32) = 0"
    then have "unat (word_of_int r :: u32) = 0" by simp
    with u assms show False by simp
  qed
qed

lemma loop_inv_step:
  assumes sp: "step_post s ino (leaf_of (nat (co div 1024))) r ino1 s1" and r: "0 < r" and co: "0 \<le> co"
    and rd: "(if partial then vdisk_read (disk s1) (word_of_int r) else (Inr zero_block, disk s1))
               = (Inr blk, d2)"
    and wr: "vdisk_write d2 (word_of_int r) nblk = (None, d3)"
    and m: "0 < m" "co mod 1024 + m \<le> 1024" "partial \<or> m = 1024" "co + m \<le> hi"
    and content: "\<forall>q<1024. nblk q =
        (if nat (co mod 1024) \<le> q \<and> q < nat (co mod 1024 + m)
         then v (co + int (q - nat (co mod 1024))) else blk q)"
    and rest: "loop_inv (s1\<lparr>disk := d3\<rparr>) ino1 s_e ino_e (co + m) hi v"
  shows "loop_inv s ino s_e ino_e co hi v"
    "(\<forall>k. co + m \<le> k \<and> k < hi \<longrightarrow> mapped (s1\<lparr>disk := d3\<rparr>) ino1 k) \<longrightarrow> ino_e = ino1 \<Longrightarrow>
     (\<forall>k. co \<le> k \<and> k < hi \<longrightarrow> mapped s ino k) \<longrightarrow> ino_e = ino"
proof -
  let ?lf = "leaf_of (nat (co div 1024))"
  let ?s3 = "s1\<lparr>disk := d3\<rparr>"
  from sp r have ex: "extends s ino s1 ino1" and fi1: "file_inv s1 ino1"
    and same: "slot_ptr s ino ?lf \<noteq> 0 \<longrightarrow> ino1 = ino"
    and r31: "r < 2147483648" and P: "slot_ptr s1 ino1 ?lf = word_of_int r"
    by (simp_all add: step_post_def)
  note Pnz = word_of_int_pos_neq0(1)[OF r r31]
  note br = block_round[OF fi1 co P Pnz rd wr m(1,2,3), of "\<lambda>i. v (co + int i)", OF content]
  note ev1 = extends_evolves[OF ex]
  from rest have fe: "file_inv s_e ino_e" and ev3: "evolves ?s3 ino1 s_e ino_e"
    and by3: "\<And>k. co + m \<le> k \<Longrightarrow> k < hi \<Longrightarrow> mapped s_e ino_e k \<and> file_byte s_e ino_e k = v k"
    and fr3: "\<And>k. 0 \<le> k \<Longrightarrow> mapped ?s3 ino1 k \<Longrightarrow> k < co + m \<or> hi \<le> k \<Longrightarrow>
               file_byte s_e ino_e k = file_byte ?s3 ino1 k"
    by (simp_all add: loop_inv_def)
  have ev: "evolves s ino s_e ino_e" by (rule evolves_trans[OF evolves_trans[OF ev1 br(2)] ev3])
  have m13: "mapped ?s3 ino1 k = mapped s1 ino1 k" for k by (rule br(4))
  have a: "mapped s_e ino_e k \<and> file_byte s_e ino_e k = v k" if k: "co \<le> k" "k < hi" for k
  proof (cases "k < co + m")
    case False
    then show ?thesis using by3[of k] k by simp
  next
    case True
    have k0: "0 \<le> k" using k co by simp
    have "k div 1024 = co div 1024" by (rule same_block(1)[OF k(1) True m(2)])
    then have m1: "mapped s1 ino1 k" using P Pnz by (simp add: mapped_def)
    then have m3: "mapped ?s3 ino1 k" by (simp add: m13)
    have "file_byte ?s3 ino1 k = v (co + int (nat (k - co)))" using br(3)[OF k0 m1] k(1) True by simp
    also have "\<dots> = v k" using k(1) by simp
    finally have "file_byte ?s3 ino1 k = v k" .
    moreover have "file_byte s_e ino_e k = file_byte ?s3 ino1 k" by (rule fr3[OF k0 m3]) (use True in simp)
    ultimately show ?thesis using evolves_mapped[OF ev3 m3] by simp
  qed
  have b: "file_byte s_e ino_e k = file_byte s ino k"
    if k: "0 \<le> k" "mapped s ino k" "k < co \<or> hi \<le> k" for k
  proof -
    have m1: "mapped s1 ino1 k" by (rule evolves_mapped[OF ev1 k(2)])
    have m3: "mapped ?s3 ino1 k" using m1 by (simp add: m13)
    have out: "\<not> (co \<le> k \<and> k < co + m)" using k(3) m(4) by auto
    have "file_byte s_e ino_e k = file_byte ?s3 ino1 k" by (rule fr3[OF k(1) m3]) (use k(3) m(1) in auto)
    also have "\<dots> = file_byte s1 ino1 k" using br(3)[OF k(1) m1] out by auto
    also have "\<dots> = file_byte s ino k" by (rule extends_byte[OF ex k(2)])
    finally show ?thesis .
  qed
  show "loop_inv s ino s_e ino_e co hi v" unfolding loop_inv_def using fe ev a b by blast
  assume same3: "(\<forall>k. co + m \<le> k \<and> k < hi \<longrightarrow> mapped ?s3 ino1 k) \<longrightarrow> ino_e = ino1"
  show "(\<forall>k. co \<le> k \<and> k < hi \<longrightarrow> mapped s ino k) \<longrightarrow> ino_e = ino"
  proof
    assume all: "\<forall>k. co \<le> k \<and> k < hi \<longrightarrow> mapped s ino k"
    have "mapped s ino co" using all m(1,4) by simp
    then have i1: "ino1 = ino" using same by (simp add: mapped_def)
    have "\<forall>k. co + m \<le> k \<and> k < hi \<longrightarrow> mapped ?s3 ino1 k"
    proof (intro allI impI)
      fix k assume "co + m \<le> k \<and> k < hi"
      then have "mapped s ino k" using all m(1) by simp
      from evolves_mapped[OF ev1 this] show "mapped ?s3 ino1 k" by (simp add: m13)
    qed
    with same3 i1 show "ino_e = ino" by simp
  qed
qed

lemma loop_post_step:
  assumes sp: "step_post s ino (leaf_of (nat (co div 1024))) r ino1 s1" and r: "0 < r" and co: "0 \<le> co"
    and rd: "(if partial then vdisk_read (disk s1) (word_of_int r) else (Inr zero_block, disk s1))
               = (Inr blk, d2)"
    and wr: "vdisk_write d2 (word_of_int r) nblk = (None, d3)"
    and m: "0 < m" "co mod 1024 + m \<le> 1024" "partial \<or> m = 1024" "co + m \<le> hi"
    and content: "\<forall>q<1024. nblk q =
        (if nat (co mod 1024) \<le> q \<and> q < nat (co mod 1024 + m)
         then v (co + int (q - nat (co mod 1024))) else blk q)"
    and rest: "loop_post (s1\<lparr>disk := d3\<rparr>) ino1 s_e ino_e (co + m) hi v"
  shows "loop_post s ino s_e ino_e co hi v"
proof -
  from rest have ri: "loop_inv (s1\<lparr>disk := d3\<rparr>) ino1 s_e ino_e (co + m) hi v"
    and rs: "(\<forall>k. co + m \<le> k \<and> k < hi \<longrightarrow> mapped (s1\<lparr>disk := d3\<rparr>) ino1 k) \<longrightarrow> ino_e = ino1"
    by (simp_all add: loop_post_def)
  from loop_inv_step(1)[OF sp r co rd wr m content ri] loop_inv_step(2)[OF sp r co rd wr m content ri rs]
  show ?thesis by (simp add: loop_post_def)
qed

lemma write_loop_round:
  assumes "bw < len" "get_block_for_offset s ino co True = (r, ino1, s1)"
  shows "write_loop s i ino data len bw co =
     (if r \<le> 0 then ((if bw > 0 then bw else r), persist_size s1 i ino1 co)
      else case (if c_mod co 1024 > 0 \<or> chunk (c_mod co 1024) (len - bw) < 1024
                 then vdisk_read (disk s1) (word_of_int r) else (Inr zero_block, disk s1)) of
          (Inl e, d2) \<Rightarrow> if bw > 0 then (bw, persist_size (s1\<lparr>disk := d2\<rparr>) i ino1 co)
                         else (vdisk_code e, s1\<lparr>disk := d2\<rparr>)
        | (Inr blk, d2) \<Rightarrow>
            (case vdisk_write d2 (word_of_int r)
                    (memcpy_block blk (nat (c_mod co 1024)) (drop (nat bw) data)
                       (nat (chunk (c_mod co 1024) (len - bw)))) of
               (Some e, d3) \<Rightarrow> if bw > 0 then (bw, persist_size (s1\<lparr>disk := d3\<rparr>) i ino1 co)
                              else (vdisk_code e, s1\<lparr>disk := d3\<rparr>)
             | (None, d3) \<Rightarrow> write_loop (s1\<lparr>disk := d3\<rparr>) i ino1 data len
                   (bw + chunk (c_mod co 1024) (len - bw)) (co + chunk (c_mod co 1024) (len - bw))))"
  by (subst write_loop.simps) (simp add: assms Let_def)

lemma chunk_facts:
  assumes "0 \<le> co" "0 < rem"
  shows "0 < chunk (co mod 1024) rem" "chunk (co mod 1024) rem \<le> rem"
    "co mod 1024 + chunk (co mod 1024) rem \<le> 1024"
    "(co mod 1024 > 0 \<or> chunk (co mod 1024) rem < 1024) \<or> chunk (co mod 1024) rem = 1024"
  using assms by (auto simp: chunk_def)

lemma write_loop_ok:
  assumes off: "0 \<le> off" and len: "len = int (length data)" and mx: "off + len \<le> 67375104"
  shows "file_inv s ino \<Longrightarrow> 0 \<le> bw \<Longrightarrow> bw \<le> len \<Longrightarrow>
     write_loop s i ino data len bw (off + bw) = (len, s') \<Longrightarrow>
     \<exists>s1 ino1. s' = persist_size s1 i ino1 (off + len)
        \<and> loop_post s ino s1 ino1 (off + bw) (off + len) (\<lambda>k. data ! nat (k - off))"
proof (induction "nat (len - bw)" arbitrary: s ino bw rule: less_induct)
  case less
  note fi = less.prems(1) and bw = less.prems(2,3) and wl = less.prems(4)
  show ?case
  proof (cases "bw < len")
    case False
    with bw have e: "bw = len" by simp
    from wl have "s' = persist_size s i ino (off + len)"
      by (subst (asm) write_loop.simps) (simp add: e)
    with loop_post_refl[OF fi, of "off + len" "off + bw"] e show ?thesis by auto
  next
    case True
    let ?co = "off + bw"
    have co: "0 \<le> ?co" "?co < 67375104" using off bw True mx by simp_all
    have cm: "c_mod ?co 1024 = ?co mod 1024" by (rule c_mod_nonneg[OF co(1)])
    let ?m = "chunk (?co mod 1024) (len - bw)"
    have rem: "0 < len - bw" using True by simp
    note cf = chunk_facts[OF co(1) rem]
    obtain r ino1 s1 where g: "get_block_for_offset s ino ?co True = (r, ino1, s1)"
      by (cases "get_block_for_offset s ino ?co True")
    note sp = gbo_step[OF fi co g]
    note wr = wl[unfolded write_loop_round[OF True g] cm]
    have rpos: "0 < r"
    proof (rule ccontr)
      assume "\<not> 0 < r"
      with wr True bw show False by (auto split: if_splits)
    qed
    let ?partial = "?co mod 1024 > 0 \<or> ?m < 1024"
    obtain rres d2 where rd: "(if ?partial then vdisk_read (disk s1) (word_of_int r)
        else (Inr zero_block, disk s1)) = (rres, d2)"
      by (cases "if ?partial then vdisk_read (disk s1) (word_of_int r) else (Inr zero_block, disk s1)")
    obtain blk where blk: "rres = Inr blk"
    proof (cases rres)
      case (Inl e)
      with wr rpos rd True bw vdisk_code_neg[of e] have False by (auto split: if_splits)
      then show ?thesis ..
    qed
    let ?nblk = "memcpy_block blk (nat (?co mod 1024)) (drop (nat bw) data) (nat ?m)"
    obtain wres d3 where wv: "vdisk_write d2 (word_of_int r) ?nblk = (wres, d3)"
      by (cases "vdisk_write d2 (word_of_int r) ?nblk")
    have wnone: "wres = None"
    proof (cases wres)
      case (Some e)
      with wr rpos rd blk wv True bw vdisk_code_neg[of e] have False by (auto split: if_splits)
      then show ?thesis ..
    qed
    let ?s3 = "s1\<lparr>disk := d3\<rparr>"
    from wr rpos rd blk wv wnone
    have rec: "write_loop ?s3 i ino1 data len (bw + ?m) (off + (bw + ?m)) = (len, s')"
      by (simp add: add.assoc)
    have fi1: "file_inv s1 ino1" using sp by (simp add: step_post_def)
    have r31: "r < 2147483648" and P: "slot_ptr s1 ino1 (leaf_of (nat (?co div 1024))) = word_of_int r"
      using sp rpos by (simp_all add: step_post_def)
    have c0: "0 \<le> ?co mod 1024" by simp
    have e1: "nat (?co mod 1024) + nat ?m = nat (?co mod 1024 + ?m)"
      using c0 cf(1) by (simp add: nat_add_distrib)
    have fi3: "file_inv ?s3 ino1"
      by (rule block_round(1)[OF fi1 co(1) P word_of_int_pos_neq0(1)[OF rpos r31] rd[unfolded blk]
            wv[unfolded wnone] cf(1,3,4), of "\<lambda>i. drop (nat bw) data ! i"])
         (simp add: memcpy_block_def e1)
    have "\<exists>s_e ino_e. s' = persist_size s_e i ino_e (off + len)
        \<and> loop_post ?s3 ino1 s_e ino_e (off + (bw + ?m)) (off + len) (\<lambda>k. data ! nat (k - off))"
      by (rule less.hyps[OF _ fi3 _ _ rec]) (use cf bw True in simp_all)
    then obtain s_e ino_e where se: "s' = persist_size s_e i ino_e (off + len)"
      and rest: "loop_post ?s3 ino1 s_e ino_e (?co + ?m) (off + len) (\<lambda>k. data ! nat (k - off))"
      by (auto simp: add.assoc)
    have content: "\<forall>q<1024. ?nblk q = (if nat (?co mod 1024) \<le> q \<and> q < nat (?co mod 1024 + ?m)
         then data ! nat (?co + int (q - nat (?co mod 1024)) - off) else blk q)"
    proof -
      have "drop (nat bw) data ! j = data ! nat (?co + int j - off)" for j
      proof -
        have "nat (?co + int j - off) = nat bw + j" using bw(1) by (simp add: nat_add_distrib)
        moreover have "nat bw \<le> length data" using bw len by simp
        ultimately show ?thesis by simp
      qed
      then show ?thesis by (simp add: memcpy_block_def e1)
    qed
    have "loop_post s ino s_e ino_e ?co (off + len) (\<lambda>k. data ! nat (k - off))"
      by (rule loop_post_step[OF sp rpos co(1) rd[unfolded blk] wv[unfolded wnone] cf(1,3,4) _ content rest])
         (use cf(2) in simp)
    with se show ?thesis by blast
  qed
qed

section \<open>The zero-fill loop of write\<close>

text \<open>The loop invariant of \<open>fill_loop\<close>, with the state of its error exits.\<close>

lemma fill_loop_round:
  assumes "c < e" "get_block_for_offset s ino c True = (r, ino1, s1)"
  shows "fill_loop s i ino c e =
     (if r \<le> 0 then (Inl r, fill_fail s1 i ino1 c)
      else case (if c_mod c 1024 > 0 \<or> chunk (c_mod c 1024) (e - c) < 1024
                 then vdisk_read (disk s1) (word_of_int r) else (Inr zero_block, disk s1)) of
          (Inl er, d2) \<Rightarrow> (Inl (vdisk_code er), fill_fail (s1\<lparr>disk := d2\<rparr>) i ino1 c)
        | (Inr blk, d2) \<Rightarrow>
            (case vdisk_write d2 (word_of_int r)
                    (memset_block blk (nat (c_mod c 1024)) 0 (nat (chunk (c_mod c 1024) (e - c)))) of
               (Some er, d3) \<Rightarrow> (Inl (vdisk_code er), fill_fail (s1\<lparr>disk := d3\<rparr>) i ino1 c)
             | (None, d3) \<Rightarrow> fill_loop (s1\<lparr>disk := d3\<rparr>) i ino1
                   (c + chunk (c_mod c 1024) (e - c)) e))"
  by (subst fill_loop.simps) (simp add: assms Let_def)

lemma vdisk_write_fail_any:
  "vdisk_write d p b = (Some e, d') \<Longrightarrow> vdisk_write d p b' = (Some e, d')"
  by (auto simp: vdisk_write_def split: prod.splits option.splits if_splits)

lemma vdisk_write_fail_read:
  "vdisk_write d p b = (Some e, d') \<Longrightarrow> vdisk_read d p = (Inl e, d')"
  by (auto simp: vdisk_write_def vdisk_read_def split: prod.splits option.splits if_splits)

lemma chunk_mono: "e' \<le> e \<Longrightarrow> chunk bo (e' - c) \<le> chunk bo (e - c)"
  by (simp add: chunk_def)

lemma chunk_full:
  assumes "c + chunk bo (e - c) \<le> c'" "c' < e" "c' \<le> x"
  shows "chunk bo (x - c) = chunk bo (e - c)"
  using assms by (auto simp: chunk_def split: if_splits)

lemma fill_stops_here:
  assumes "\<And>e'. c < e' \<Longrightarrow> e' \<le> e \<Longrightarrow> \<exists>r s1. fill_loop s i ino c e' = (Inl r, s1)"
  shows "fill_stops s i ino c c e"
  unfolding fill_stops_def using assms by (subst fill_loop.simps) simp

lemma fill_fails_gbo:
  assumes "c < e'" "get_block_for_offset s ino c True = (r, ino1, s1)" "r \<le> 0"
  shows "\<exists>r' s''. fill_loop s i ino c e' = (Inl r', s'')"
  by (subst fill_loop_round[OF assms(1,2)]) (simp add: assms(3))

lemma fill_fails_read:
  assumes "c < e'" "e' \<le> e" "get_block_for_offset s ino c True = (r, ino1, s1)" "0 < r"
    and "c_mod c 1024 > 0 \<or> chunk (c_mod c 1024) (e - c) < 1024"
    and "vdisk_read (disk s1) (word_of_int r) = (Inl er, d2)"
  shows "\<exists>r' s''. fill_loop s i ino c e' = (Inl r', s'')"
proof -
  have "c_mod c 1024 > 0 \<or> chunk (c_mod c 1024) (e' - c) < 1024"
    using assms(5) chunk_mono[OF assms(2), of "c_mod c 1024" c] by linarith
  then show ?thesis
    using assms(4,6) by (subst fill_loop_round[OF assms(1,3)]) auto
qed

lemma fill_fails_write:
  assumes "c < e'" "e' \<le> e" "get_block_for_offset s ino c True = (r, ino1, s1)" "0 < r"
    and "(if c_mod c 1024 > 0 \<or> chunk (c_mod c 1024) (e - c) < 1024
          then vdisk_read (disk s1) (word_of_int r) else (Inr zero_block, disk s1)) = (Inr blk, d2)"
    and "vdisk_write d2 (word_of_int r) nblk = (Some er, d3)"
  shows "\<exists>r' s''. fill_loop s i ino c e' = (Inl r', s'')"
proof (cases "c_mod c 1024 > 0 \<or> chunk (c_mod c 1024) (e - c) < 1024")
  case True
  then have p': "c_mod c 1024 > 0 \<or> chunk (c_mod c 1024) (e' - c) < 1024"
    using chunk_mono[OF assms(2), of "c_mod c 1024" c] by linarith
  from True assms(5) have rd: "vdisk_read (disk s1) (word_of_int r) = (Inr blk, d2)" by simp
  show ?thesis
    using assms(4) p' rd vdisk_write_fail_any[OF assms(6)]
    by (subst fill_loop_round[OF assms(1,3)]) auto
next
  case False
  with assms(5) have d2: "d2 = disk s1" by simp
  show ?thesis
  proof (cases "c_mod c 1024 > 0 \<or> chunk (c_mod c 1024) (e' - c) < 1024")
    case True
    with assms(4) vdisk_write_fail_read[OF assms(6)[unfolded d2]] show ?thesis
      by (subst fill_loop_round[OF assms(1,3)]) auto
  next
    case False
    with assms(4) vdisk_write_fail_any[OF assms(6)[unfolded d2]] show ?thesis
      by (subst fill_loop_round[OF assms(1,3)]) auto
  qed
qed

lemma fill_stops_step:
  assumes ce: "c < e" and g: "get_block_for_offset s ino c True = (r, ino1, s1)" and r: "0 < r"
    and rd: "(if c_mod c 1024 > 0 \<or> chunk (c_mod c 1024) (e - c) < 1024
          then vdisk_read (disk s1) (word_of_int r) else (Inr zero_block, disk s1)) = (Inr blk, d2)"
    and wr: "vdisk_write d2 (word_of_int r)
          (memset_block blk (nat (c_mod c 1024)) 0 (nat (chunk (c_mod c 1024) (e - c)))) = (None, d3)"
    and c': "c + chunk (c_mod c 1024) (e - c) \<le> c'" "c' < e" and m: "0 < chunk (c_mod c 1024) (e - c)"
    and st: "fill_stops (s1\<lparr>disk := d3\<rparr>) i ino1 (c + chunk (c_mod c 1024) (e - c)) c' e"
  shows "fill_stops s i ino c c' e"
proof -
  let ?m = "chunk (c_mod c 1024) (e - c)"
  have step: "fill_loop s i ino c x = fill_loop (s1\<lparr>disk := d3\<rparr>) i ino1 (c + ?m) x" if x: "c' \<le> x" for x
  proof -
    have cx: "c < x" using c'(1) m x by linarith
    have ch: "chunk (c_mod c 1024) (x - c) = ?m" by (rule chunk_full[OF c' x])
    show ?thesis
      using r rd wr by (subst fill_loop_round[OF cx g]) (simp add: ch)
  qed
  from st show ?thesis
    unfolding fill_stops_def using step by (metis order_refl less_imp_le)
qed

lemma fill_post_failI:
  "r < 0 \<Longrightarrow> c \<le> c' \<Longrightarrow> c' < e \<Longrightarrow> loop_inv s ino s1 ino1 c c' (\<lambda>_. 0) \<Longrightarrow>
   fill_stops s i ino c c' e \<Longrightarrow> (device_code r \<longrightarrow> fault_hit (disk s) (disk s1)) \<Longrightarrow>
   fill_post s ino i c e (Inl r) (fill_fail s1 i ino1 c')"
  unfolding fill_post_def by auto

lemma loop_inv_later: "loop_inv s ino s1 ino1 lo hi v \<Longrightarrow> later (disk s) (disk s1)"
  by (simp add: loop_inv_def evolves_def)

lemma fill_loop_post:
  assumes mx: "e \<le> 67375104"
  shows "file_inv s ino \<Longrightarrow> 0 \<le> c \<Longrightarrow> fill_loop s i ino c e = (res, s') \<Longrightarrow>
     fill_post s ino i c e res s'"
proof (induction "nat (e - c)" arbitrary: s ino c rule: less_induct)
  case less
  note fi = less.prems(1) and c0 = less.prems(2) and fl = less.prems(3)
  show ?case
  proof (cases "c < e")
    case False
    from fl have "res = Inr ino" "s' = s"
      by (subst (asm) fill_loop.simps, simp add: False)+
    with loop_post_refl[OF fi, of e c] False show ?thesis by (simp add: fill_post_def loop_post_def)
  next
    case True
    have co: "0 \<le> c" "c < 67375104" using c0 True mx by simp_all
    have cm: "c_mod c 1024 = c mod 1024" by (rule c_mod_nonneg[OF co(1)])
    let ?m = "chunk (c mod 1024) (e - c)"
    have rem: "0 < e - c" using True by simp
    note cf = chunk_facts[OF co(1) rem]
    obtain r ino1 s1 where g: "get_block_for_offset s ino c True = (r, ino1, s1)"
      by (cases "get_block_for_offset s ino c True")
    note sp = gbo_step[OF fi co g]
    note fr = fl[unfolded fill_loop_round[OF True g] cm]
    from sp have ex: "extends s ino s1 ino1" and fi1: "file_inv s1 ino1"
      and hit1: "device_code r \<longrightarrow> fault_hit (disk s) (disk s1)" and rnz: "r \<noteq> 0"
      by (simp_all add: step_post_def)
    show ?thesis
    proof (cases "r \<le> 0")
      case rneg: True
      with fr have res: "res = Inl r" "s' = fill_fail s1 i ino1 c" by simp_all
      have "loop_inv s ino s1 ino1 c c (\<lambda>_. 0)" by (rule loop_inv_extends[OF ex fi1]) simp
      moreover have "fill_stops s i ino c c e"
        by (rule fill_stops_here) (rule fill_fails_gbo[OF _ g rneg])
      ultimately show ?thesis using res rneg rnz True hit1 by (auto intro!: fill_post_failI)
    next
      case False
      then have rpos: "0 < r" by simp
      have r31: "r < 2147483648" and P: "slot_ptr s1 ino1 (leaf_of (nat (c div 1024))) = word_of_int r"
        using sp rpos by (simp_all add: step_post_def)
      note Pnz = word_of_int_pos_neq0(1)[OF rpos r31]
      have Pr: "(word_of_int r :: u32) < size_in_sectors (disk s1)"
        using ptr_range(1)[OF fi1, of "leaf_of (nat (c div 1024))"] P Pnz by simp
      let ?partial = "c mod 1024 > 0 \<or> ?m < 1024"
      obtain rres d2 where rd: "(if ?partial then vdisk_read (disk s1) (word_of_int r)
          else (Inr zero_block, disk s1)) = (rres, d2)"
        by (cases "if ?partial then vdisk_read (disk s1) (word_of_int r) else (Inr zero_block, disk s1)")
      have d2: "sectors d2 = sectors (disk s1)" "size_in_sectors d2 = size_in_sectors (disk s1)"
        "later (disk s1) d2"
        using rd vdisk_read_cases[of "disk s1" "word_of_int r" rres d2]
          vdisk_read_later[of "disk s1" "word_of_int r" rres d2]
        by (auto split: if_splits)
      have same_state: "file_inv (s1\<lparr>disk := d\<rparr>) ino1 \<and> extends s ino (s1\<lparr>disk := d\<rparr>) ino1"
        if "sectors d = sectors (disk s1)" "size_in_sectors d = size_in_sectors (disk s1)"
          "later (disk s1) d" for d
        using frame_unmarked(2,3)[OF fi1, of "s1\<lparr>disk := d\<rparr>"] that extends_trans[OF ex] by simp
      show ?thesis
      proof (cases rres)
        case (Inl er)
        with fr False rd have res: "res = Inl (vdisk_code er)" "s' = fill_fail (s1\<lparr>disk := d2\<rparr>) i ino1 c"
          by simp_all
        from rd Inl have rd': "vdisk_read (disk s1) (word_of_int r) = (Inl er, d2)"
          by (auto split: if_splits)
        have h: "fault_hit (disk s) (disk (s1\<lparr>disk := d2\<rparr>))"
          using later_hit[OF extends_later[OF ex] vdisk_read_hit[OF rd' Pr]] by simp
        have "loop_inv s ino (s1\<lparr>disk := d2\<rparr>) ino1 c c (\<lambda>_. 0)"
          using loop_inv_extends[of s ino "s1\<lparr>disk := d2\<rparr>" ino1 c c] same_state[OF d2] by simp
        moreover have pt: "c_mod c 1024 > 0 \<or> chunk (c_mod c 1024) (e - c) < 1024"
          using rd Inl unfolding cm by (auto split: if_splits)
        have "fill_stops s i ino c c e"
          by (rule fill_stops_here) (rule fill_fails_read[OF _ _ g rpos pt rd'])
        ultimately show ?thesis using res True h vdisk_code_neg[of er]
          by (auto intro!: fill_post_failI simp: less_imp_le)
      next
        case (Inr blk)
        let ?nblk = "memset_block blk (nat (c mod 1024)) 0 (nat ?m)"
        obtain wres d3 where wv: "vdisk_write d2 (word_of_int r) ?nblk = (wres, d3)"
          by (cases "vdisk_write d2 (word_of_int r) ?nblk")
        note wc = vdisk_write_cases[OF wv]
        have l3: "later (disk s1) d3" by (rule later_trans[OF d2(3) vdisk_write_later[OF wv]])
        show ?thesis
        proof (cases wres)
          case (Some er)
          with fr False rd Inr wv
          have res: "res = Inl (vdisk_code er)" "s' = fill_fail (s1\<lparr>disk := d3\<rparr>) i ino1 c"
            by simp_all
          have "word_of_int r < size_in_sectors d2" using Pr d2(2) by simp
          from vdisk_write_hit[OF wv[unfolded Some] this]
          have h: "fault_hit (disk s) (disk (s1\<lparr>disk := d3\<rparr>))"
            using later_hit[OF later_trans[OF extends_later[OF ex] d2(3)]] by simp
          have "sectors d3 = sectors (disk s1)" "size_in_sectors d3 = size_in_sectors (disk s1)"
            using wc(1,3) Some d2 by simp_all
          from same_state[OF this l3]
          have "loop_inv s ino (s1\<lparr>disk := d3\<rparr>) ino1 c c (\<lambda>_. 0)"
            using loop_inv_extends[of s ino "s1\<lparr>disk := d3\<rparr>" ino1 c c] by simp
          moreover have "fill_stops s i ino c c e"
            by (rule fill_stops_here)
               (rule fill_fails_write[OF _ _ g rpos rd[unfolded Inr cm[symmetric]] wv[unfolded Some]])
          ultimately show ?thesis using res True h vdisk_code_neg[of er]
            by (auto intro!: fill_post_failI simp: less_imp_le)
        next
          case None
          let ?s3 = "s1\<lparr>disk := d3\<rparr>"
          from fr False rd Inr wv None
          have rec: "fill_loop ?s3 i ino1 (c + ?m) e = (res, s')" by simp
          have c0': "0 \<le> c mod 1024" by simp
          have e1: "nat (c mod 1024) + nat ?m = nat (c mod 1024 + ?m)"
            using c0' cf(1) by (simp add: nat_add_distrib)
          have content: "\<forall>q<1024. ?nblk q = (if nat (c mod 1024) \<le> q \<and> q < nat (c mod 1024 + ?m)
              then (\<lambda>_. 0) (c + int (q - nat (c mod 1024))) else blk q)"
            by (simp add: memset_block_def e1)
          have fi3: "file_inv ?s3 ino1"
            by (rule block_round(1)[OF fi1 co(1) P Pnz rd[unfolded Inr] wv[unfolded None] cf(1,3,4),
                  of "\<lambda>_. 0"]) (simp add: memset_block_def e1)
          have ih: "fill_post ?s3 ino1 i (c + ?m) e res s'"
            by (rule less.hyps[OF _ fi3 _ rec]) (use cf co True in simp_all)
          show ?thesis
          proof (cases res)
            case (Inr ino')
            with ih have rest: "loop_inv ?s3 ino1 s' ino' (c + ?m) e (\<lambda>_. 0)"
              by (simp add: fill_post_def)
            have "loop_inv s ino s' ino' c e (\<lambda>_. 0)"
              by (rule loop_inv_step(1)[OF sp rpos co(1) rd[unfolded \<open>rres = Inr blk\<close>] wv[unfolded None]
                    cf(1,3,4) _ content rest]) (use cf(2) in simp)
            with Inr show ?thesis by (simp add: fill_post_def)
          next
            case (Inl rr)
            with ih obtain c' sa inoa where f: "rr < 0" "c + ?m \<le> c'" "c' < e"
              "s' = fill_fail sa i inoa c'"
              "loop_inv ?s3 ino1 sa inoa (c + ?m) c' (\<lambda>_. 0)"
              "device_code rr \<longrightarrow> fault_hit (disk ?s3) (disk sa)"
              "fill_stops ?s3 i ino1 (c + ?m) c' e"
              by (auto simp: fill_post_def)
            have fs: "fill_stops s i ino c c' e"
              by (rule fill_stops_step[OF True g rpos rd[unfolded Inr cm[symmetric]]
                    wv[unfolded None cm[symmetric]] f(2)[unfolded cm[symmetric]] f(3)
                    cf(1)[unfolded cm[symmetric]] f(7)[unfolded cm[symmetric]]])
            have li: "loop_inv s ino sa inoa c c' (\<lambda>_. 0)"
              by (rule loop_inv_step(1)[OF sp rpos co(1) rd[unfolded \<open>rres = Inr blk\<close>] wv[unfolded None]
                    cf(1,3,4) f(2) content f(5)])
            have "later (disk s) (disk ?s3)"
              using later_trans[OF extends_later[OF ex] l3] by simp
            with f(6) have "device_code rr \<longrightarrow> fault_hit (disk s) (disk sa)"
              using later_hit by blast
            with Inl f(1-4) li fs cf(1) show ?thesis
              by (auto intro!: fill_post_failI)
          qed
        qed
      qed
    qed
  qed
qed

section \<open>read on a well-formed file\<close>

text \<open>On a working device \<open>read\<close> returns the bytes of a mapped range.\<close>

lemma self_disk [simp]: "s\<lparr>disk := disk s\<rparr> = s"
  by simp

lemma gbo_entry_lookup:
  assumes "reliable s" "P < size_in_sectors (disk s)"
  shows "gbo_entry s ino P e False = (sint (get_ptr (sectors (disk s) (unat P)) e), ino, s)"
  using assms by (simp add: gbo_entry_def reliable_def vdisk_read_ok Let_def)

lemma gbo_lookup:
  assumes fi: "file_inv s ino" and rel: "reliable s" and off: "0 \<le> offset" "offset < 67375104"
  shows "get_block_for_offset s ino offset False
           = (sint (slot_ptr s ino (leaf_of (nat (offset div 1024)))), ino, s)"
proof -
  have m: "disk_mounted s" using fi by (simp add: file_inv_def mounted_ok_mounted)
  have o31: "offset < 2 ^ 31" using off(2) by simp
  let ?bi = "nat (offset div 1024)"
  have b: "?bi < 65796" using off by simp
  note gu = gbo_unfold[OF m off(1) o31, of ino False, unfolded Let_def]
  consider (d) "?bi < 4" | (i) "4 \<le> ?bi" "?bi < 260" | (dd) "260 \<le> ?bi" using b by linarith
  then show ?thesis
  proof cases
    case d
    then show ?thesis unfolding gu by (simp add: gbo_direct_def leaf_of_def)
  next
    case i
    have k: "?bi - 4 < 256" using i by simp
    show ?thesis
    proof (cases "indirect_block ino = 0")
      case True
      with i k show ?thesis unfolding gu by (simp add: gbo_indirect_def leaf_of_def)
    next
      case False
      have "slot_ptr s ino Ind \<noteq> 0" using False by simp
      from ptr_range(1)[OF fi this] have "indirect_block ino < size_in_sectors (disk s)" by simp
      from gbo_entry_lookup[OF rel this] False i k show ?thesis
        unfolding gu by (simp add: gbo_indirect_def leaf_of_def)
    qed
  next
    case dd
    let ?q = "?bi - 260"
    have q: "?q div 256 < 256" "?q mod 256 < 256" using b by simp_all
    show ?thesis
    proof (cases "double_indirect_block ino = 0")
      case True
      with dd b show ?thesis unfolding gu by (simp add: gbo_double_def leaf_of_def)
    next
      case False
      let ?D = "double_indirect_block ino"
      have "slot_ptr s ino Dbl \<noteq> 0" using False by simp
      from ptr_range(1)[OF fi this] have Dr: "?D < size_in_sectors (disk s)" by simp
      have rdD: "vdisk_read (disk s) ?D = (Inr (sectors (disk s) (unat ?D)), disk s)"
        using rel Dr by (simp add: vdisk_read_ok reliable_def)
      show ?thesis
      proof (cases "get_ptr (sectors (disk s) (unat ?D)) (?q div 256) = 0")
        case True
        with False dd b q rdD show ?thesis
          unfolding gu by (simp add: gbo_double_def gbo_double_page_def leaf_of_def Let_def)
      next
        case F: False
        have "slot_ptr s ino (DblE (?q div 256)) \<noteq> 0" using False F q by simp
        from ptr_range(1)[OF fi this] False q
        have "get_ptr (sectors (disk s) (unat ?D)) (?q div 256) < size_in_sectors (disk s)" by simp
        from gbo_entry_lookup[OF rel this] False F dd b q rdD show ?thesis
          unfolding gu by (simp add: gbo_double_def gbo_double_page_def leaf_of_def Let_def)
      qed
    qed
  qed
qed

lemma uint_mod_1024:
  assumes "0 \<le> c" "c < 4294967296"
  shows "uint ((word_of_int c :: u32) mod 1024) = c mod 1024"
  using assms by (simp add: uint_mod_distrib uint_word_of_int_id)

lemma read_loop_ok:
  assumes fi: "file_inv s ino" and rel: "reliable s" and off: "0 \<le> off" and mx: "off + n \<le> 67375104"
    and mp: "\<forall>k. off \<le> k \<and> k < off + n \<longrightarrow> mapped s ino k"
  shows "0 \<le> br \<Longrightarrow> br \<le> n \<Longrightarrow>
     read_loop s ino n br (word_of_int (off + br)) data
       = (n, data @ map (\<lambda>j. file_byte s ino (off + int j)) [nat br ..< nat n], s)"
proof (induction "nat (n - br)" arbitrary: br data rule: less_induct)
  case less
  note br = less.prems
  show ?case
  proof (cases "br < n")
    case False
    with br have "br = n" by simp
    then show ?thesis by (subst read_loop.simps) simp
  next
    case True
    let ?c = "off + br"
    let ?co = "word_of_int ?c :: u32"
    have c: "0 \<le> ?c" "?c < 67375104" using off br True mx by simp_all
    have sc: "sint ?co = ?c" by (rule sint_word_of_int) (use c in simp_all)
    have bo: "uint (?co mod 1024) = ?c mod 1024" by (rule uint_mod_1024) (use c in simp_all)
    let ?lf = "leaf_of (nat (?c div 1024))"
    let ?P = "slot_ptr s ino ?lf"
    have Pnz: "?P \<noteq> 0" using mp[rule_format, of ?c] br True by (simp add: mapped_def)
    note pr = ptr_range[OF fi Pnz]
    have g: "get_block_for_offset s ino (sint ?co) False = (sint ?P, ino, s)"
      unfolding sc by (rule gbo_lookup[OF fi rel c])
    have rd: "vdisk_read (disk s) (word_of_int (sint ?P)) = (Inr (sectors (disk s) (unat ?P)), disk s)"
      unfolding pr(5) using rel pr(1) by (simp add: vdisk_read_ok reliable_def)
    let ?m = "chunk (?c mod 1024) (n - br)"
    let ?blk = "sectors (disk s) (unat ?P)"
    have rem: "0 < n - br" using True by simp
    note cf = chunk_facts[OF c(1) rem]
    have step: "read_loop s ino n br ?co data =
        read_loop s ino n (br + ?m) (word_of_int (off + (br + ?m)))
          (data @ map ?blk [nat (?c mod 1024) ..< nat (?c mod 1024 + ?m)])"
      unfolding read_loop_round[OF True g] bo using pr(3) rd
      by (simp add: add.assoc)
    have ih: "read_loop s ino n (br + ?m) (word_of_int (off + (br + ?m)))
          (data @ map ?blk [nat (?c mod 1024) ..< nat (?c mod 1024 + ?m)])
        = (n, (data @ map ?blk [nat (?c mod 1024) ..< nat (?c mod 1024 + ?m)])
              @ map (\<lambda>j. file_byte s ino (off + int j)) [nat (br + ?m) ..< nat n], s)"
      by (rule less.hyps) (use cf br True in simp_all)
    have c0: "0 \<le> ?c mod 1024" by simp
    have n1: "nat (?c mod 1024 + ?m) = nat (?c mod 1024) + nat ?m"
      using c0 cf(1) by (simp add: nat_add_distrib)
    have n2: "nat (br + ?m) = nat br + nat ?m" using br(1) cf(1) by (simp add: nat_add_distrib)
    have seg: "map ?blk [nat (?c mod 1024) ..< nat (?c mod 1024 + ?m)]
        = map (\<lambda>j. file_byte s ino (off + int j)) [nat br ..< nat (br + ?m)]"
    proof (rule nth_equalityI)
      show "length (map ?blk [nat (?c mod 1024) ..< nat (?c mod 1024 + ?m)])
          = length (map (\<lambda>j. file_byte s ino (off + int j)) [nat br ..< nat (br + ?m)])"
        unfolding n1 n2 by simp
    next
      fix j assume "j < length (map ?blk [nat (?c mod 1024) ..< nat (?c mod 1024 + ?m)])"
      then have jn: "j < nat ?m" unfolding n1 by simp
      then have j: "int j < ?m" by linarith
      let ?k = "?c + int j"
      have kb: "?k div 1024 = ?c div 1024" "?k mod 1024 = ?c mod 1024 + (?k - ?c)"
        by (rule same_block[of ?c ?k ?m]; use j cf(3) in simp)+
      have l: "map ?blk [nat (?c mod 1024) ..< nat (?c mod 1024 + ?m)] ! j = ?blk (nat (?c mod 1024) + j)"
        unfolding n1 using jn by simp
      have r: "map (\<lambda>j. file_byte s ino (off + int j)) [nat br ..< nat (br + ?m)] ! j
          = file_byte s ino (off + int (nat br + j))"
        unfolding n2 using jn by simp
      have ek: "off + int (nat br + j) = ?k" using br(1) by simp
      have km: "nat (?k mod 1024) = nat (?c mod 1024) + j" unfolding kb(2) using c0 by simp
      have "file_byte s ino ?k = ?blk (nat (?c mod 1024) + j)"
        unfolding file_byte_def kb(1) km by (rule refl)
      then have "file_byte s ino (off + int (nat br + j)) = ?blk (nat (?c mod 1024) + j)"
        unfolding ek .
      with l r show "map ?blk [nat (?c mod 1024) ..< nat (?c mod 1024 + ?m)] ! j
          = map (\<lambda>j. file_byte s ino (off + int j)) [nat br ..< nat (br + ?m)] ! j" by simp
    qed
    have split: "[nat br ..< nat n] = [nat br ..< nat (br + ?m)] @ [nat (br + ?m) ..< nat n]"
    proof -
      have "nat br \<le> nat (br + ?m)" "nat (br + ?m) \<le> nat n" using cf(1,2) br by simp_all
      then show ?thesis by (metis le_Suc_ex upt_add_eq_append)
    qed
    have "read_loop s ino n br ?co data
        = (n, (data @ map ?blk [nat (?c mod 1024) ..< nat (?c mod 1024 + ?m)])
              @ map (\<lambda>j. file_byte s ino (off + int j)) [nat (br + ?m) ..< nat n], s)"
      by (rule trans[OF step ih])
    also have "\<dots> = (n, data @ map (\<lambda>j. file_byte s ino (off + int j)) [nat br ..< nat n], s)"
      by (simp only: seg append_assoc map_append[symmetric] split[symmetric])
    finally show ?thesis .
  qed
qed

lemma slot_ptr_size_upd [simp]: "slot_ptr s (ino\<lparr>size_bytes := x\<rparr>) sl = slot_ptr s ino sl"
  by (cases sl) simp_all

lemma file_inv_size_upd [simp]: "file_inv s (ino\<lparr>size_bytes := x\<rparr>) = file_inv s ino"
  by (simp add: file_inv_def tree_ok_def inode_ok_def)

lemma mapped_size_upd [simp]: "mapped s (ino\<lparr>size_bytes := x\<rparr>) k = mapped s ino k"
  by (simp add: mapped_def)

lemma file_byte_size_upd [simp]: "file_byte s (ino\<lparr>size_bytes := x\<rparr>) k = file_byte s ino k"
  by (simp add: file_byte_def)

lemma put_inode_frame:
  assumes fi: "file_inv s ino" and n: "n < num_inodes s"
  shows "file_inv (put_inode s n x) ino"
    "mapped (put_inode s n x) ino k = mapped s ino k"
    "mapped s ino k \<Longrightarrow> file_byte (put_inode s n x) ino k = file_byte s ino k"
    "num_inodes (put_inode s n x) = num_inodes s"
    "reliable (put_inode s n x) = reliable s"
proof -
  note t = file_invD(3)[OF fi]
  have sp: "slot_ptr (put_inode s n x) ino sl = slot_ptr s ino sl" for sl
    by (rule slot_ptr_put_inode[OF t n])
  have t': "tree_ok (put_inode s n x) ino" by (rule tree_ok_cong[OF t sp]) simp_all
  have "mounted_ok (put_inode s n x)" by (rule mounted_ok_cong[OF file_invD(1)[OF fi]]) simp_all
  with t' fi show "file_inv (put_inode s n x) ino" by (simp add: file_inv_def)
  show "mapped (put_inode s n x) ino k = mapped s ino k" by (simp add: mapped_def sp)
  show "num_inodes (put_inode s n x) = num_inodes s" by (simp add: num_inodes_def)
  show "reliable (put_inode s n x) = reliable s" by (simp add: reliable_def)
  assume "mapped s ino k"
  then have nz: "slot_ptr s ino (leaf_of (nat (k div 1024))) \<noteq> 0" by (simp add: mapped_def)
  have "unat (num_inode_blocks (superblock s)) + 1 \<le> unat (slot_ptr s ino (leaf_of (nat (k div 1024))))"
    using tree_okD(1)[OF t nz] by (simp add: data_block_def)
  moreover have "1 + n div 32 \<le> unat (num_inode_blocks (superblock s))"
    using n by (simp add: num_inodes_def)
  ultimately have "unat (slot_ptr s ino (leaf_of (nat (k div 1024)))) \<noteq> 1 + n div 32" by linarith
  then show "file_byte (put_inode s n x) ino k = file_byte s ino k"
    unfolding file_byte_def sp by (simp add: put_inode_def)
qed

lemma evolves_inode_at:
  assumes "evolves s ino s' ino'" "n < num_inodes s"
  shows "inode_at s' n = inode_at s n"
proof -
  have "1 + n div 32 \<le> unat (num_inode_blocks (superblock s))"
    using assms(2) by (simp add: num_inodes_def)
  then show ?thesis using assms(1) by (simp add: inode_at_def evolves_def)
qed

lemma evolves_facts:
  assumes "evolves s ino s' ino'"
  shows "num_inodes s' = num_inodes s" "reliable s \<Longrightarrow> reliable s'"
    "valid ino' = valid ino" "size_bytes ino' = size_bytes ino"
  using assms later_reliable[of "disk s" "disk s'"]
  by (simp_all add: evolves_def num_inodes_def reliable_def)

lemma read_zero:
  assumes "mounted_ok s" "reliable s" "0 \<le> i" "i < int (num_inodes s)"
    and "valid (inode_at s (nat i)) \<noteq> 0"
  shows "read s i 0 off = (0, [], s)"
  using assms(5) mounted_ok_mounted[OF assms(1)] not_bad_inode_num[OF assms(1,3,4)]
    read_inode_ok[OF assms(1-4)]
  by (simp add: read_def Let_def)

lemma read_ok:
  assumes mo: "mounted_ok s" and rel: "reliable s" and i: "0 \<le> i" "i < int (num_inodes s)"
    and ino: "ino = inode_at s (nat i)" and v: "valid ino \<noteq> 0" and t: "tree_ok s ino"
    and off: "0 \<le> off" "0 < len" "off + len \<le> uint (size_bytes ino)"
    and sz: "uint (size_bytes ino) \<le> 67375104"
    and mp: "\<forall>k. off \<le> k \<and> k < off + len \<longrightarrow> mapped s ino k"
  shows "read s i len off = (len, map (\<lambda>j. file_byte s ino (off + int j)) [0 ..< nat len], s)"
proof -
  have fi: "file_inv s ino" using mo t ino by (simp add: file_inv_def inode_at_def)
  let ?sz = "size_bytes ino"
  have o32: "off < 4294967296" using off sz by simp
  have uo: "uint (word_of_int off :: u32) = off" by (rule uint_word_of_int_id) (use off o32 in simp_all)
  have lt: "(word_of_int off :: u32) < ?sz" unfolding word_less_def uo using off by simp
  have d: "?sz - word_of_int off = (word_of_int (uint ?sz - off) :: u32)" by simp
  have n: "sint (?sz - word_of_int off) = uint ?sz - off"
    unfolding d by (rule sint_word_of_int) (use off sz in simp_all)
  have btr: "(if (word_of_int off :: u32) < ?sz then
               let n = sint (?sz - word_of_int off) in if n > len then len else n else 0) = len"
    using lt n off by (simp add: Let_def)
  have rl: "read_loop s ino len 0 (word_of_int (off + 0)) []
       = (len, [] @ map (\<lambda>j. file_byte s ino (off + int j)) [nat 0 ..< nat len], s)"
    by (rule read_loop_ok[OF fi rel off(1) _ mp]) (use off sz in simp_all)
  have ri: "read_inode s i False = (Inr ino, s)" unfolding ino by (rule read_inode_ok[OF mo rel i])
  have e: "(if len < uint ?sz - off then len else uint ?sz - off) = len" using off(3) by simp
  have "read s i len off = read_loop s ino len 0 (word_of_int off) []"
    using v mounted_ok_mounted[OF mo] not_bad_inode_num[OF mo i] off(2) lt
    by (simp add: read_def Let_def ri n e)
  with rl show ?thesis by simp
qed

lemma commit_size:
  assumes fi: "file_inv s ino" and rel: "reliable s" and i: "0 \<le> i" "i < int (num_inodes s)"
  shows "write_inode s i (ino\<lparr>size_bytes := w\<rparr>) = (0, put_inode s (nat i) (ino\<lparr>size_bytes := w\<rparr>))"
    "inode_at (put_inode s (nat i) (ino\<lparr>size_bytes := w\<rparr>)) (nat i) = ino\<lparr>size_bytes := w\<rparr>"
    "file_inv (put_inode s (nat i) (ino\<lparr>size_bytes := w\<rparr>)) (ino\<lparr>size_bytes := w\<rparr>)"
    "reliable (put_inode s (nat i) (ino\<lparr>size_bytes := w\<rparr>))"
    "num_inodes (put_inode s (nat i) (ino\<lparr>size_bytes := w\<rparr>)) = num_inodes s"
    "mapped (put_inode s (nat i) (ino\<lparr>size_bytes := w\<rparr>)) (ino\<lparr>size_bytes := w\<rparr>) k = mapped s ino k"
    "mapped s ino k \<Longrightarrow>
       file_byte (put_inode s (nat i) (ino\<lparr>size_bytes := w\<rparr>)) (ino\<lparr>size_bytes := w\<rparr>) k = file_byte s ino k"
proof -
  let ?x = "ino\<lparr>size_bytes := w\<rparr>"
  have n: "nat i < num_inodes s" using i by simp
  have io: "inode_ok ?x" using file_invD(2)[OF fi] by (simp add: inode_ok_def)
  show "write_inode s i ?x = (0, put_inode s (nat i) ?x)"
    by (rule write_inode_ok[OF file_invD(1)[OF fi] rel i])
  show "inode_at (put_inode s (nat i) ?x) (nat i) = ?x" using inode_at_put_inode[OF io] by simp
  note pf = put_inode_frame[OF fi n, where x = ?x]
  show "file_inv (put_inode s (nat i) ?x) ?x" using pf(1) by simp
  show "reliable (put_inode s (nat i) ?x)" using pf(5) rel by simp
  show "num_inodes (put_inode s (nat i) ?x) = num_inodes s" by (rule pf(4))
  show "mapped (put_inode s (nat i) ?x) ?x k = mapped s ino k" using pf(2) by simp
  show "mapped s ino k \<Longrightarrow> file_byte (put_inode s (nat i) ?x) ?x k = file_byte s ino k"
    using pf(3) by simp
qed

section \<open>write on a working device\<close>

text \<open>The file after a \<open>write\<close> that has returned the length of its payload.\<close>

lemma write_tail:
  assumes fi: "file_inv sa inoa" and rel: "reliable sa" and i: "0 \<le> i" "i < int (num_inodes sa)"
    and off: "0 \<le> offset" "offset + len \<le> 67375104" "len = int (length B)"
    and disk: "offset + len \<le> uint (size_bytes inoa) \<Longrightarrow>
          inode_at sa (nat i) = inoa \<and> (\<forall>k. offset \<le> k \<and> k < offset + len \<longrightarrow> mapped sa inoa k)"
    and w: "write_loop sa i inoa B len 0 offset = (len, s')"
  shows "\<exists>s1 ino1. loop_inv sa inoa s1 ino1 offset (offset + len) (\<lambda>k. B ! nat (k - offset))
        \<and> reliable s' \<and> num_inodes s' = num_inodes sa \<and> file_inv s' (inode_at s' (nat i))
        \<and> valid (inode_at s' (nat i)) = valid inoa
        \<and> uint (size_bytes (inode_at s' (nat i))) = max (uint (size_bytes inoa)) (offset + len)
        \<and> (\<forall>k. mapped s' (inode_at s' (nat i)) k = mapped s1 ino1 k)
        \<and> (\<forall>k. mapped s1 ino1 k \<longrightarrow> file_byte s' (inode_at s' (nat i)) k = file_byte s1 ino1 k)"
proof -
  let ?v = "\<lambda>k. B ! nat (k - offset)"
  let ?e = "offset + len"
  have len0: "0 \<le> len" using off(3) by simp
  have w': "write_loop sa i inoa B len 0 (offset + 0) = (len, s')" using w by simp
  from write_loop_ok[OF off(1,3,2) fi _ len0 w']
  obtain s1 ino1 where s': "s' = persist_size s1 i ino1 ?e"
    and lp: "loop_post sa inoa s1 ino1 offset ?e ?v" by auto
  from lp have li: "loop_inv sa inoa s1 ino1 offset ?e ?v"
    and same: "(\<forall>k. offset \<le> k \<and> k < ?e \<longrightarrow> mapped sa inoa k) \<longrightarrow> ino1 = inoa"
    by (simp_all add: loop_post_def)
  from li have fi1: "file_inv s1 ino1" and ev: "evolves sa inoa s1 ino1" by (simp_all add: loop_inv_def)
  note ef = evolves_facts[OF ev]
  have rel1: "reliable s1" by (rule ef(2)[OF rel])
  have i1: "i < int (num_inodes s1)" using i(2) ef(1) by simp
  have ue: "uint (word_of_int ?e :: u32) = ?e"
    by (rule uint_word_of_int_id) (use off len0 in simp_all)
  have gt: "(word_of_int ?e :: u32) > size_bytes ino1 \<longleftrightarrow> uint (size_bytes inoa) < ?e"
    unfolding word_less_def ue ef(4) ..
  show ?thesis
  proof (cases "uint (size_bytes inoa) < ?e")
    case True
    let ?x = "ino1\<lparr>size_bytes := word_of_int ?e\<rparr>"
    note cs = commit_size[OF fi1 rel1 i(1) i1, where w = "word_of_int ?e"]
    have s'': "s' = put_inode s1 (nat i) ?x" using s' gt True cs(1) by (simp add: persist_size_def)
    have ia: "inode_at s' (nat i) = ?x" unfolding s'' by (rule cs(2))
    have "uint (size_bytes ?x) = max (uint (size_bytes inoa)) ?e"
      using True ue by simp
    with li cs(3,4,5,6,7) ef show ?thesis unfolding ia unfolding s''
      by (intro exI[of _ s1] exI[of _ ino1]) simp
  next
    case False
    then have le: "?e \<le> uint (size_bytes inoa)" by simp
    have s'': "s' = s1" using s' gt False by (simp add: persist_size_def)
    from disk[OF le] same have "ino1 = inoa" "inode_at sa (nat i) = inoa" by simp_all
    moreover have "inode_at s1 (nat i) = inode_at sa (nat i)"
      by (rule evolves_inode_at[OF ev]) (use i in simp)
    ultimately have ia: "inode_at s' (nat i) = ino1" using s'' by simp
    have "uint (size_bytes ino1) = max (uint (size_bytes inoa)) ?e" using le ef(4) by simp
    with li fi1 rel1 ef show ?thesis unfolding ia unfolding s''
      by (intro exI[of _ s1] exI[of _ ino1]) simp
  qed
qed

lemma size_facts:
  assumes "uint (w :: u32) \<le> 67375104"
  shows "sint w = uint w" "0 \<le> x \<Longrightarrow> x < 4294967296 \<Longrightarrow> (word_of_int x > w) = (uint w < x)"
proof -
  have "int (unat w) = uint w" by simp
  with assms have "unat w < 2147483648" by linarith
  then have "unat w < 2 ^ 31" by simp
  from sint_small[OF this] show "sint w = uint w" by simp
  assume x: "0 \<le> x" "x < 4294967296"
  have "uint (word_of_int x :: u32) = x" by (rule uint_word_of_int_id) (use x in simp_all)
  then show "(word_of_int x > w) = (uint w < x)" by (simp add: word_less_def)
qed

lemma write_fs_unfold:
  assumes mo: "mounted_ok s" and rel: "reliable s" and i: "0 \<le> i" "i < int (num_inodes s)"
    and ino: "ino = inode_at s (nat i)" and v: "valid ino \<noteq> 0"
    and sz: "uint (size_bytes ino) \<le> 67375104" and off: "0 \<le> offset" "offset \<le> 67375104"
  shows "write_fs s i B len offset =
     (if uint (size_bytes ino) < offset then
        (case fill_loop s i ino (uint (size_bytes ino)) offset of
           (Inl r, s2) \<Rightarrow> (r, s2)
         | (Inr ino2, s2) \<Rightarrow>
             write_loop s2 i (ino2\<lparr>size_bytes := word_of_int offset\<rparr>) B len 0 offset)
      else write_loop s i ino B len 0 offset)"
proof -
  have ri: "read_inode s i False = (Inr ino, s)" unfolding ino by (rule read_inode_ok[OF mo rel i])
  have o: "offset < 4294967296" using off by simp
  show ?thesis
    using v mounted_ok_mounted[OF mo] not_bad_inode_num[OF mo i]
    by (simp add: write_fs_def ri size_facts[OF sz] off o)
qed

lemma write_fs_view:
  assumes mo: "mounted_ok s" and rel: "reliable s" and i: "0 \<le> i" "i < int (num_inodes s)"
    and ino: "ino = inode_at s (nat i)" and v: "valid ino \<noteq> 0" and t: "tree_ok s ino"
    and dn: "offset \<le> uint (size_bytes ino) \<Longrightarrow> dense s ino"
    and sz: "uint (size_bytes ino) \<le> 67375104"
    and off: "0 \<le> offset" "offset + int (length B) \<le> 67375104"
    and w: "write_fs s i B (int (length B)) offset = (int (length B), s')"
  shows "written s i ino B offset s'"
proof -
  let ?len = "int (length B)"
  let ?usz = "uint (size_bytes ino)"
  let ?F = "inode_at s' (nat i)"
  let ?v = "\<lambda>k. B ! nat (k - offset)"
  have fi: "file_inv s ino" using mo t ino by (simp add: file_inv_def inode_at_def)
  have o: "offset \<le> 67375104" using off by simp
  note wu = w[unfolded write_fs_unfold[OF mo rel i ino v sz off(1) o]]
  show ?thesis
  proof (cases "?usz < offset")
    case False
    with wu have wl: "write_loop s i ino B ?len 0 offset = (?len, s')" by simp
    have "dense s ino" using dn False by simp
    then have disk: "offset + ?len \<le> ?usz \<Longrightarrow>
        inode_at s (nat i) = ino \<and> (\<forall>k. offset \<le> k \<and> k < offset + ?len \<longrightarrow> mapped s ino k)"
      using ino off(1) by (auto simp: dense_def)
    from write_tail[OF fi rel i off refl disk wl]
    obtain s1 ino1 where li: "loop_inv s ino s1 ino1 offset (offset + ?len) ?v"
      and f: "reliable s'" "num_inodes s' = num_inodes s" "file_inv s' ?F" "valid ?F = valid ino"
        "uint (size_bytes ?F) = max ?usz (offset + ?len)"
        "\<forall>k. mapped s' ?F k = mapped s1 ino1 k"
        "\<forall>k. mapped s1 ino1 k \<longrightarrow> file_byte s' ?F k = file_byte s1 ino1 k"
      by blast
    from li have by1: "\<forall>k. offset \<le> k \<and> k < offset + ?len \<longrightarrow>
        mapped s1 ino1 k \<and> file_byte s1 ino1 k = ?v k" by (simp add: loop_inv_def)
    have szF: "uint (size_bytes ?F) = (if B = [] then ?usz else max ?usz (offset + ?len))"
      using f(5) False by auto
    have A3: "i < int (num_inodes s')" using f(2) i by simp
    have A4: "valid ?F \<noteq> 0" using f(4) v by simp
    have A7: "\<forall>k. offset \<le> k \<and> k < offset + ?len \<longrightarrow> mapped s' ?F k \<and> file_byte s' ?F k = ?v k"
    proof (intro allI impI)
      fix k assume r: "offset \<le> k \<and> k < offset + ?len"
      with by1 have "mapped s1 ino1 k" "file_byte s1 ino1 k = ?v k" by simp_all
      with f(6,7) show "mapped s' ?F k \<and> file_byte s' ?F k = ?v k" by simp
    qed
    have A8: "\<forall>k. ?usz \<le> k \<and> k < offset \<longrightarrow> mapped s' ?F k \<and> file_byte s' ?F k = 0"
      using False by auto
    show ?thesis unfolding written_def
      by (intro conjI impI file_invD(1,3)[OF f(3)] f(1) A3 A4 szF A7 A8)
  next
    case True
    obtain res s2 where fl: "fill_loop s i ino ?usz offset = (res, s2)"
      by (cases "fill_loop s i ino ?usz offset")
    have u0: "0 \<le> ?usz" by simp
    note fp = fill_loop_post[OF o fi u0 fl, unfolded fill_post_def]
    show ?thesis
    proof (cases res)
      case (Inl r)
      with fp wu True fl have "r < 0" "r = ?len" by simp_all
      then show ?thesis by simp
    next
      case (Inr ino2)
      let ?a = "ino2\<lparr>size_bytes := word_of_int offset\<rparr>"
      from fp Inr have li2: "loop_inv s ino s2 ino2 ?usz offset (\<lambda>_. 0)" by simp
      from wu True fl Inr have wl: "write_loop s2 i ?a B ?len 0 offset = (?len, s')" by simp
      from li2 have fi2: "file_inv s2 ino2" and ev2: "evolves s ino s2 ino2"
        and z2: "\<forall>k. ?usz \<le> k \<and> k < offset \<longrightarrow> mapped s2 ino2 k \<and> file_byte s2 ino2 k = 0"
        by (simp_all add: loop_inv_def)
      note ef = evolves_facts[OF ev2]
      have rel2: "reliable s2" by (rule ef(2)[OF rel])
      have i2: "i < int (num_inodes s2)" using i(2) ef(1) by simp
      have ua: "uint (size_bytes ?a) = offset"
        using uint_word_of_int_id[of offset] off(1) o by simp
      show ?thesis
      proof (cases "B = []")
        case True
        have "\<not> (word_of_int offset :: u32) > size_bytes ?a" by simp
        then have "write_loop s2 i ?a B 0 0 offset = (0, s2)"
          by (subst write_loop.simps) (simp add: persist_size_def)
        with wl True have s': "s' = s2" by simp
        have ia: "inode_at s2 (nat i) = ino"
          using evolves_inode_at[OF ev2, of "nat i"] i ino by simp
        have "mounted_ok s2" by (rule file_invD(1)[OF fi2])
        with True s' ia rel2 i2 v show ?thesis by (simp add: written_def)
      next
        case False
        then have lpos: "0 < ?len" by simp
        have fia: "file_inv s2 ?a" using fi2 by simp
        have disk: "offset + ?len \<le> uint (size_bytes ?a) \<Longrightarrow>
            inode_at s2 (nat i) = ?a \<and> (\<forall>k. offset \<le> k \<and> k < offset + ?len \<longrightarrow> mapped s2 ?a k)"
          using ua lpos by simp
        from write_tail[OF fia rel2 i(1) i2 off refl disk wl]
        obtain s1 ino1 where li: "loop_inv s2 ?a s1 ino1 offset (offset + ?len) ?v"
          and f: "reliable s'" "num_inodes s' = num_inodes s2" "file_inv s' ?F" "valid ?F = valid ?a"
            "uint (size_bytes ?F) = max (uint (size_bytes ?a)) (offset + ?len)"
            "\<forall>k. mapped s' ?F k = mapped s1 ino1 k"
            "\<forall>k. mapped s1 ino1 k \<longrightarrow> file_byte s' ?F k = file_byte s1 ino1 k"
          by blast
        from li have by1: "\<forall>k. offset \<le> k \<and> k < offset + ?len \<longrightarrow>
            mapped s1 ino1 k \<and> file_byte s1 ino1 k = ?v k"
          and ev1: "evolves s2 ?a s1 ino1"
          and fr1: "\<forall>k. 0 \<le> k \<and> mapped s2 ?a k \<and> (k < offset \<or> offset + ?len \<le> k) \<longrightarrow>
             file_byte s1 ino1 k = file_byte s2 ?a k"
          by (simp_all add: loop_inv_def)
        have gap: "mapped s' ?F k \<and> file_byte s' ?F k = 0" if k: "?usz \<le> k" "k < offset" for k
        proof -
          from z2 k have m2: "mapped s2 ?a k" and b2: "file_byte s2 ?a k = 0" by simp_all
          have m1: "mapped s1 ino1 k" by (rule evolves_mapped[OF ev1 m2])
          have k0: "0 \<le> k" using u0 k(1) by linarith
          have "file_byte s1 ino1 k = 0" using fr1[rule_format, of k] m2 k0 k(2) b2 by simp
          with m1 f(6,7) show ?thesis by simp
        qed
        have szF: "uint (size_bytes ?F) = (if B = [] then ?usz else max ?usz (offset + ?len))"
          using f(5) ua False True lpos by simp
        have A3: "i < int (num_inodes s')" using f(2) i2 by simp
        have A4: "valid ?F \<noteq> 0" using f(4) v ef(3) by simp
        have A7: "\<forall>k. offset \<le> k \<and> k < offset + ?len \<longrightarrow> mapped s' ?F k \<and> file_byte s' ?F k = ?v k"
        proof (intro allI impI)
      fix k assume r: "offset \<le> k \<and> k < offset + ?len"
      with by1 have "mapped s1 ino1 k" "file_byte s1 ino1 k = ?v k" by simp_all
      with f(6,7) show "mapped s' ?F k \<and> file_byte s' ?F k = ?v k" by simp
    qed
        have A8: "\<forall>k. ?usz \<le> k \<and> k < offset \<longrightarrow> mapped s' ?F k \<and> file_byte s' ?F k = 0"
          using gap by simp
        show ?thesis unfolding written_def
          by (intro conjI impI file_invD(1,3)[OF f(3)] f(1) A3 A4 szF A7 A8)
      qed
    qed
  qed
qed

section \<open>Round trip of write and read\<close>

lemma dense_size:
  assumes "dense s ino"
  shows "uint (size_bytes ino) \<le> 67375104"
proof (rule ccontr)
  assume "\<not> uint (size_bytes ino) \<le> 67375104"
  then have "mapped s ino 67375104" using assms by (simp add: dense_def)
  then show False by (simp add: mapped_def leaf_of_def)
qed

lemma read_beyond:
  assumes "mounted_ok s" "reliable s" "0 \<le> i" "i < int (num_inodes s)"
    and "valid (inode_at s (nat i)) \<noteq> 0"
    and "uint (size_bytes (inode_at s (nat i))) \<le> a" "a < 4294967296"
  shows "read s i n a = (0, [], s)"
proof -
  have "0 \<le> a" using assms(6) by (rule order_trans[rotated]) simp
  then have "uint (word_of_int a :: u32) = a" using assms(7) by (intro uint_word_of_int_id) simp_all
  then have "\<not> (word_of_int a :: u32) < size_bytes (inode_at s (nat i))"
    using assms(6) by (simp add: word_less_def)
  then show ?thesis
    using assms(5) mounted_ok_mounted[OF assms(1)] not_bad_inode_num[OF assms(1,3,4)]
      read_inode_ok[OF assms(1-4)]
    by (simp add: read_def Let_def)
qed

lemma round_trip:
  assumes "mounted_ok s" "reliable s" "0 \<le> i" "i < int (num_inodes s)"
    and "valid (inode_at s (nat i)) \<noteq> 0" "tree_ok s (inode_at s (nat i))"
    and "dense s (inode_at s (nat i))"
    and "0 \<le> offset" "offset + int (length B) \<le> 67375104"
    and "write_fs s i B (int (length B)) offset = (int (length B), s')"
  shows "read s' i (int (length B)) offset = (int (length B), B, s')"
proof -
  let ?ino = "inode_at s (nat i)"
  let ?F = "inode_at s' (nat i)"
  note sz = dense_size[OF assms(7)]
  have wr: "written s i ?ino B offset s'"
    by (rule write_fs_view[OF assms(1-4) refl assms(5,6) assms(7) sz assms(8,9,10)])
  then have b: "mounted_ok s'" "reliable s'" "i < int (num_inodes s')" "valid ?F \<noteq> 0"
    by (simp_all add: written_def)
  show ?thesis
  proof (cases "B = []")
    case True
    with read_zero[OF b(1,2) assms(3) b(3,4)] show ?thesis by simp
  next
    case False
    with wr have t: "tree_ok s' ?F"
      and szF: "uint (size_bytes ?F) = max (uint (size_bytes ?ino)) (offset + int (length B))"
      and pl: "\<forall>k. offset \<le> k \<and> k < offset + int (length B) \<longrightarrow>
                 mapped s' ?F k \<and> file_byte s' ?F k = B ! nat (k - offset)"
      by (simp_all add: written_def)
    have lpos: "0 < int (length B)" using False by simp
    have mp: "\<forall>k. offset \<le> k \<and> k < offset + int (length B) \<longrightarrow> mapped s' ?F k" using pl by simp
    have r: "read s' i (int (length B)) offset
        = (int (length B), map (\<lambda>j. file_byte s' ?F (offset + int j)) [0 ..< nat (int (length B))], s')"
      by (rule read_ok[OF b(1,2) assms(3) b(3) refl b(4) t assms(8) lpos _ _ mp])
         (use szF sz assms(9) in simp_all)
    have "map (\<lambda>j. file_byte s' ?F (offset + int j)) [0 ..< length B] = B"
    proof (rule nth_equalityI)
      show "length (map (\<lambda>j. file_byte s' ?F (offset + int j)) [0 ..< length B]) = length B" by simp
    next
      fix j assume "j < length (map (\<lambda>j. file_byte s' ?F (offset + int j)) [0 ..< length B])"
      then have j: "j < length B" by simp
      then have "file_byte s' ?F (offset + int j) = B ! nat (offset + int j - offset)"
        using pl[rule_format, of "offset + int j"] by simp
      with j show "map (\<lambda>j. file_byte s' ?F (offset + int j)) [0 ..< length B] ! j = B ! j" by simp
    qed
    with r show ?thesis by simp
  qed
qed

text \<open>
  Claim C1. In a well-formed mounted state on a working device, let \<open>i\<close> be a valid inode
  whose file is well formed (the blocks of its tree are marked data blocks, none is stored
  twice) and has no hole below its size. For every byte string \<open>B\<close> and every offset with
  \<open>0 \<le> offset\<close> and \<open>offset + |B| \<le> (4 + 256 + 256 * 256) * 1024 = 67375104\<close>: when
  \<open>write(i, B, |B|, offset)\<close> returns \<open>|B|\<close>, then \<open>read(i, buf, |B|, offset)\<close> in the state that
  the write has left returns \<open>|B|\<close> and the bytes \<open>B\<close>, and leaves the state as it is.
\<close>
theorem write_read_round_trip:
  assumes "mounted_ok s" "reliable s" "0 \<le> i" "i < int (num_inodes s)"
    and "valid (inode_at s (nat i)) \<noteq> 0" "tree_ok s (inode_at s (nat i))"
    and "dense s (inode_at s (nat i))"
    and "0 \<le> offset" "offset + int (length B) \<le> 67375104"
    and "write_fs s i B (int (length B)) offset = (int (length B), s')"
  shows "read s' i (int (length B)) offset = (int (length B), B, s')"
  by (rule round_trip[OF assms])

lemma ex_state1_tree: "tree_ok ex_state1 (inode_at ex_state1 0)" "dense ex_state1 (inode_at ex_state1 0)"
  by (auto simp: tree_ok_def dense_def slot_ptr_all_zero ex_state1_inode0)

lemma ex_state1_write:
  "fst (write_fs ex_state1 0 [7, 8, 9] 3 0) = 3"
proof -
  let ?d1 = "(disk ex_state1)\<lparr>sectors := (sectors (disk ex_state1))(2 := zero_block)\<rparr>"
  have d: "faults (disk ex_state1) = []" "size_in_sectors (disk ex_state1) = 16"
    by (simp_all add: ex_state1_def ex_state_def ex_disk_def put_inode_def)
  have u: "write_fs ex_state1 0 [7, 8, 9] 3 0 =
      write_loop ex_state1 0 (inode_at ex_state1 0) [7, 8, 9] 3 0 0"
    by (subst write_fs_unfold[OF ex_state1_ok, of 0 "inode_at ex_state1 0"])
       (simp_all add: ex_state1_num_inodes ex_state1_inode0)
  have r: "vdisk_read ?d1 2 = (Inr zero_block, ?d1)"
    by (simp add: vdisk_read_def next_fault_def d)
  have w: "vdisk_write ?d1 2 b = (None, ?d1\<lparr>sectors := (sectors ?d1)(2 := b)\<rparr>)" for b
    by (simp add: vdisk_write_def next_fault_def d)
  have "write_loop ex_state1 0 (inode_at ex_state1 0) [7, 8, 9] 3 0 0 =
      write_loop (ex_state1\<lparr>block_bitmap := (block_bitmap ex_state1)(2 := 1),
           disk := ?d1\<lparr>sectors := (sectors ?d1)(2 := memcpy_block zero_block 0 [7, 8, 9] 3)\<rparr>\<rparr>)
        0 ((inode_at ex_state1 0)\<lparr>direct_blocks := [2, 0, 0, 0]\<rparr>) [7, 8, 9] 3 3 3"
    by (subst write_loop_round[OF _ ex_state1_gbo]) (simp_all add: chunk_def c_mod_def c_div_def r w)
  moreover have "fst (write_loop s2 0 ino2 [7, 8, 9] 3 3 3) = 3" for s2 ino2
    by (subst write_loop.simps) simp
  ultimately show ?thesis unfolding u by simp
qed

lemma write_loop_done: "len \<le> bw \<Longrightarrow> fst (write_loop s i ino data len bw co) = bw"
  by (subst write_loop.simps) simp

lemma gbo_direct_hit:
  assumes "disk_mounted s" "0 \<le> offset" "offset < 4096"
    and "direct_blocks ino ! nat (offset div 1024) \<noteq> 0"
  shows "get_block_for_offset s ino offset a =
     (sint (direct_blocks ino ! nat (offset div 1024)), ino, s)"
proof -
  have "offset div 1024 < 4" using assms(3) by simp
  with assms show ?thesis by (simp add: get_block_for_offset_def gbo_direct_def Let_def)
qed

lemma ex_four_slots:
  "slot_ptr (ex_four fs) ex_four_inode sl =
     (case sl of Direct k \<Rightarrow> if k = 0 then 2 else if k = 1 then 3 else if k = 2 then 4
                            else if k = 3 then 5 else 0
      | _ \<Rightarrow> 0)"
proof (cases sl)
  case (Direct k)
  have "k < 4 \<Longrightarrow> k = 0 \<or> k = 1 \<or> k = 2 \<or> k = 3" by auto
  with Direct show ?thesis by (auto simp: ex_four_inode_def)
qed (simp_all add: ex_four_inode_def)

lemma ex_four_tree: "tree_ok (ex_four fs) ex_four_inode" "dense (ex_four fs) ex_four_inode"
proof -
  show "tree_ok (ex_four fs) ex_four_inode"
    unfolding tree_ok_def ex_four_slots
    by (auto simp: data_block_def ex_four_facts ex_sb_def split: slot.splits if_splits)
  have "nat (k div 1024) < 4" if "0 \<le> k" "k < 4096" for k :: int using that by simp
  then have "nat (k div 1024) = 0 \<or> nat (k div 1024) = 1 \<or> nat (k div 1024) = 2 \<or> nat (k div 1024) = 3"
    if "0 \<le> k" "k < 4096" for k :: int using that by fastforce
  then show "dense (ex_four fs) ex_four_inode"
    unfolding dense_def mapped_def ex_four_slots
    by (auto simp: leaf_of_def ex_four_inode_def)
qed

lemma ex_four_write:
  "fst (write_fs (ex_four []) 0 [7, 8, 9] 3 1022) = 3"
proof -
  let ?s = "ex_four []"
  have ok: "mounted_ok ?s" "reliable ?s"
    by (simp_all add: mounted_ok_def reliable_def ex_four_facts ex_sb_def)
  have u: "write_fs ?s 0 [7, 8, 9] 3 1022 = write_loop ?s 0 ex_four_inode [7, 8, 9] 3 0 1022"
    by (subst write_fs_unfold[OF ok, of 0 ex_four_inode])
       (simp_all add: ex_four_facts num_inodes_def ex_sb_def, simp_all add: ex_four_inode_def)
  have d: "direct_blocks ex_four_inode ! 0 = 2" "direct_blocks ex_four_inode ! Suc 0 = 3"
    by (simp_all add: ex_four_inode_def)
  have g0: "get_block_for_offset s ex_four_inode 1022 True = (2, ex_four_inode, s)"
    if "disk_mounted s" for s
    using gbo_direct_hit[OF that, of 1022 ex_four_inode True] by (simp add: d)
  have g1: "get_block_for_offset s ex_four_inode 1024 True = (3, ex_four_inode, s)"
    if "disk_mounted s" for s
    using gbo_direct_hit[OF that, of 1024 ex_four_inode True] by (simp add: d)
  have m: "disk_mounted ?s" by (rule ex_four_facts)
  have r1: "write_loop s 0 ex_four_inode [7, 8, 9] 3 0 1022 =
      write_loop (s\<lparr>disk := (disk s)\<lparr>sectors := (sectors (disk s))
          (2 := memcpy_block (sectors (disk s) 2) 1022 [7, 8, 9] 2)\<rparr>\<rparr>) 0 ex_four_inode [7, 8, 9] 3 2 1024"
    if "disk_mounted s" "faults (disk s) = []" "size_in_sectors (disk s) = 16" for s
    by (subst write_loop_round[OF _ g0[OF that(1)]])
       (simp_all add: chunk_def c_mod_def c_div_def vdisk_read_def vdisk_write_def next_fault_def that)
  have r2: "fst (write_loop s 0 ex_four_inode [7, 8, 9] 3 2 1024) = 3"
    if "disk_mounted s" "faults (disk s) = []" "size_in_sectors (disk s) = 16" for s
    by (subst write_loop_round[OF _ g1[OF that(1)]])
       (simp_all add: chunk_def c_mod_def c_div_def vdisk_read_def vdisk_write_def next_fault_def
          that write_loop_done)
  have "fst (write_loop ?s 0 ex_four_inode [7, 8, 9] 3 0 1022) = 3"
    by (subst r1) (simp_all add: ex_four_facts r2)
  then show ?thesis unfolding u .
qed

theorem write_read_round_trip_witness:
  "mounted_ok ex_state1 \<and> reliable ex_state1 \<and> valid (inode_at ex_state1 0) \<noteq> 0
   \<and> fst (write_fs ex_state1 0 [7, 8, 9] 3 0) = 3
   \<and> read (snd (write_fs ex_state1 0 [7, 8, 9] 3 0)) 0 3 0 =
       (3, [7, 8, 9], snd (write_fs ex_state1 0 [7, 8, 9] 3 0))
   \<and> mounted_ok (ex_four []) \<and> reliable (ex_four []) \<and> inode_at (ex_four []) 0 = ex_four_inode
   \<and> tree_ok (ex_four []) ex_four_inode \<and> dense (ex_four []) ex_four_inode
   \<and> size_bytes ex_four_inode = 4096
   \<and> fst (write_fs (ex_four []) 0 [7, 8, 9] 3 1022) = 3
   \<and> read (snd (write_fs (ex_four []) 0 [7, 8, 9] 3 1022)) 0 3 1022 =
       (3, [7, 8, 9], snd (write_fs (ex_four []) 0 [7, 8, 9] 3 1022))"
proof -
  let ?s1 = "snd (write_fs ex_state1 0 [7, 8, 9] 3 0)"
  let ?s4 = "snd (write_fs (ex_four []) 0 [7, 8, 9] 3 1022)"
  have ok4: "mounted_ok (ex_four [])" "reliable (ex_four [])"
    by (simp_all add: mounted_ok_def reliable_def ex_four_facts ex_sb_def)
  have w1: "write_fs ex_state1 0 [7, 8, 9] (int (length [7, 8, 9 :: byte])) 0 =
      (int (length [7, 8, 9 :: byte]), ?s1)"
    using ex_state1_write by (simp add: prod_eq_iff)
  have w4: "write_fs (ex_four []) 0 [7, 8, 9] (int (length [7, 8, 9 :: byte])) 1022 =
      (int (length [7, 8, 9 :: byte]), ?s4)"
    using ex_four_write by (simp add: prod_eq_iff)
  from write_read_round_trip[of ex_state1 0 0 "[7, 8, 9]" ?s1]
  have "read ?s1 0 3 0 = (3, [7, 8, 9], ?s1)"
    using ex_state1_ok ex_state1_tree w1 by (simp add: ex_state1_num_inodes ex_state1_inode0)
  moreover
  from write_read_round_trip[of "ex_four []" 0 1022 "[7, 8, 9]" ?s4]
  have "read ?s4 0 3 1022 = (3, [7, 8, 9], ?s4)"
    using ok4 ex_four_tree w4 by (simp add: ex_four_facts num_inodes_def ex_sb_def) (simp add: ex_four_inode_def)
  ultimately show ?thesis
    using ex_state1_ok ex_state1_write ok4 ex_four_tree ex_four_write
    by (simp add: ex_state1_inode0 ex_four_facts) (simp add: ex_four_inode_def)
qed

section \<open>Zero fill of a gap\<close>

lemma read_inode_next:
  assumes "mounted_ok s" "0 \<le> i" "i < int (num_inodes s)" "faults (disk s) = None # fs"
  shows "read_inode s i b = (Inr (inode_at s (nat i)), s\<lparr>disk := (disk s)\<lparr>faults := fs\<rparr>\<rparr>)"
proof -
  have nb: "\<not> bad_inode_num s i" by (rule not_bad_inode_num[OF assms(1-3)])
  show ?thesis
    using assms(4) nb inode_block_in_range[OF assms(1-3)] inode_byte_offset[OF assms(2)]
      mounted_ok_mounted[OF assms(1)]
    by (simp add: read_inode_def bad_inode_num_def vdisk_read_def next_fault_def
        inode_at_def Let_def)
qed

lemma file_inv_schedule:
  assumes "file_inv s ino"
  shows "file_inv (s\<lparr>disk := (disk s)\<lparr>faults := fs\<rparr>\<rparr>) ino"
proof -
  let ?s = "s\<lparr>disk := (disk s)\<lparr>faults := fs\<rparr>\<rparr>"
  have sp: "slot_ptr ?s ino sl = slot_ptr s ino sl" for sl
    by (rule slot_ptr_cong) simp_all
  have "tree_ok ?s ino" by (rule tree_ok_cong[OF file_invD(3)[OF assms] sp]) simp_all
  moreover have "mounted_ok ?s" by (rule mounted_ok_cong[OF file_invD(1)[OF assms]]) simp_all
  ultimately show ?thesis using file_invD(2)[OF assms] by (simp add: file_inv_def)
qed

lemma zeros_read:
  assumes mo: "mounted_ok s" and rel: "reliable s" and i: "0 \<le> i" "i < int (num_inodes s)"
    and v: "valid (inode_at s (nat i)) \<noteq> 0" and t: "tree_ok s (inode_at s (nat i))"
    and z: "\<forall>k. lo \<le> k \<and> k < hi \<longrightarrow>
          mapped s (inode_at s (nat i)) k \<and> file_byte s (inode_at s (nat i)) k = 0"
    and sz: "hi \<le> uint (size_bytes (inode_at s (nat i)))" "uint (size_bytes (inode_at s (nat i))) \<le> 67375104"
    and r: "0 \<le> lo" "lo \<le> a" "0 \<le> n" "a + n \<le> hi"
  shows "read s i n a = (n, replicate (nat n) 0, s)"
proof (cases "n = 0")
  case True
  then show ?thesis using read_zero[OF mo rel i v] by simp
next
  case False
  let ?F = "inode_at s (nat i)"
  have n: "0 < n" using False r(3) by simp
  have a: "0 \<le> a" using r(1,2) by simp
  have e: "a + n \<le> uint (size_bytes ?F)" using r(4) sz(1) by simp
  have mp: "\<forall>k. a \<le> k \<and> k < a + n \<longrightarrow> mapped s ?F k" using z r(2,4) by simp
  have "map (\<lambda>j. file_byte s ?F (a + int j)) [0 ..< nat n] = map (\<lambda>j. 0) [0 ..< nat n]"
  proof (rule map_cong[OF refl])
    fix j assume "j \<in> set [0 ..< nat n]"
    then have "a \<le> a + int j \<and> a + int j < a + n" by auto
    with z r(2,4) show "file_byte s ?F (a + int j) = 0" by simp
  qed
  then have "map (\<lambda>j. file_byte s ?F (a + int j)) [0 ..< nat n] = replicate (nat n) 0"
    by (simp add: map_replicate_trivial)
  with read_ok[OF mo rel i refl v t a n e sz(2) mp] show ?thesis by simp
qed

lemma gap_reads_zero:
  assumes mo: "mounted_ok s" and rel: "reliable s" and i: "0 \<le> i" "i < int (num_inodes s)"
    and ino: "ino = inode_at s (nat i)" and v: "valid ino \<noteq> 0" and t: "tree_ok s ino"
    and us: "uint (size_bytes ino) < offset" and off: "offset + int (length B) \<le> 67375104"
    and w: "write_fs s i B (int (length B)) offset = (int (length B), s')"
    and r: "uint (size_bytes ino) \<le> a" "0 \<le> n" "a + n \<le> offset"
  shows "read s' i n a = ((if B = [] then 0 else n), replicate (if B = [] then 0 else nat n) 0, s')"
proof -
  let ?usz = "uint (size_bytes ino)"
  let ?F = "inode_at s' (nat i)"
  have u0: "0 \<le> ?usz" by simp
  have o0: "0 \<le> offset" using us u0 by linarith
  have sz: "?usz \<le> 67375104" using us off by simp
  have dn: "offset \<le> ?usz \<Longrightarrow> dense s ino" using us by simp
  note wr = write_fs_view[OF mo rel i ino v t dn sz o0 off w, unfolded written_def]
  from wr have mo': "mounted_ok s'" and rel': "reliable s'" and i': "i < int (num_inodes s')"
    and v': "valid ?F \<noteq> 0" by simp_all
  show ?thesis
  proof (cases "B = []")
    case True
    with wr have "uint (size_bytes ?F) = ?usz" by simp
    then have le: "uint (size_bytes ?F) \<le> a" using r(1) by simp
    have "a < 4294967296" using r(2,3) off by simp
    from read_beyond[OF mo' rel' i(1) i' v' le this] True show ?thesis by simp
  next
    case False
    with wr have t': "tree_ok s' ?F"
      and z: "\<forall>k. ?usz \<le> k \<and> k < offset \<longrightarrow> mapped s' ?F k \<and> file_byte s' ?F k = 0"
      and s': "uint (size_bytes ?F) = max ?usz (offset + int (length B))"
      by simp_all
    have s1: "offset \<le> uint (size_bytes ?F)" unfolding s' by simp
    have s2: "uint (size_bytes ?F) \<le> 67375104" unfolding s' using sz off by simp
    from zeros_read[OF mo' rel' i(1) i' v' t' z s1 s2 u0 r] False show ?thesis by simp
  qed
qed

lemma fill_failure_persisted:
  assumes mo: "mounted_ok s" and i: "0 \<le> i" "i < int (num_inodes s)"
    and ino: "ino = inode_at s (nat i)" and v: "valid ino \<noteq> 0" and t: "tree_ok s ino"
    and us: "uint (size_bytes ino) < offset" and off: "offset \<le> 67375104"
    and fs: "faults (disk s) = None # replicate m None @ [Some e]"
    and fl: "fill_loop (s\<lparr>disk := (disk s)\<lparr>faults := replicate m None @ [Some e]\<rparr>\<rparr>) i ino
               (uint (size_bytes ino)) offset = (Inl r, s2)"
    and dc: "device_code r"
  shows "write_fs s i B len offset = (r, s2)"
    and "reliable s2"
    and "\<exists>c'. uint (size_bytes ino) \<le> c' \<and> c' < offset
           \<and> uint (size_bytes (inode_at s2 (nat i))) = c'
           \<and> fill_stops (s\<lparr>disk := (disk s)\<lparr>faults := replicate m None @ [Some e]\<rparr>\<rparr>) i ino
                 (uint (size_bytes ino)) c' offset
           \<and> (\<forall>a n. uint (size_bytes ino) \<le> a \<and> 0 \<le> n \<and> a + n \<le> c' \<longrightarrow>
                 read s2 i n a = (n, replicate (nat n) 0, s2))"
proof -
  let ?usz = "uint (size_bytes ino)"
  let ?s1 = "s\<lparr>disk := (disk s)\<lparr>faults := replicate m None @ [Some e]\<rparr>\<rparr>"
  have u0: "0 \<le> ?usz" by simp
  have o0: "0 \<le> offset" "offset < 4294967296" using us u0 off by linarith+
  have sz: "?usz \<le> 67375104" using us off by simp
  have ri: "read_inode s i False = (Inr ino, ?s1)" unfolding ino by (rule read_inode_next[OF mo i fs])
  show "write_fs s i B len offset = (r, s2)"
    using v mounted_ok_mounted[OF mo] not_bad_inode_num[OF mo i] us fl
    by (simp add: write_fs_def ri size_facts[OF sz] o0)
  have fi: "file_inv s ino" using mo t ino by (simp add: file_inv_def inode_at_def)
  have fi1: "file_inv ?s1 ino" by (rule file_inv_schedule[OF fi])
  from fill_loop_post[OF off fi1 u0 fl, unfolded fill_post_def] dc
  obtain c' sA ino1 where c: "?usz \<le> c'" "c' < offset" and s2: "s2 = fill_fail sA i ino1 c'"
    and li: "loop_inv ?s1 ino sA ino1 ?usz c' (\<lambda>_. 0)" and fh: "fault_hit (disk ?s1) (disk sA)"
    and st: "fill_stops ?s1 i ino ?usz c' offset"
    by auto
  have "faults (disk sA) = []" by (rule hit_one_fault[OF fh, of m e]) simp
  then have relA: "reliable sA" by (simp add: reliable_def)
  from li have fiA: "file_inv sA ino1" and ev: "evolves ?s1 ino sA ino1"
    and z: "\<forall>k. ?usz \<le> k \<and> k < c' \<longrightarrow> mapped sA ino1 k \<and> file_byte sA ino1 k = 0"
    by (simp_all add: loop_inv_def)
  have n1: "num_inodes ?s1 = num_inodes s" by (simp add: num_inodes_def)
  note ef = evolves_facts[OF ev]
  have iA: "i < int (num_inodes sA)" using i(2) ef(1) n1 by simp
  define w :: u32 where "w = (if word_of_int c' > size_bytes ino1 then word_of_int c' else size_bytes ino1)"
  have c32: "0 \<le> c'" "c' < 4294967296" using c u0 o0 by linarith+
  have uc: "uint (word_of_int c' :: u32) = c'" by (rule uint_word_of_int_id) (use c32 in simp_all)
  have uw: "uint w = c'"
  proof (cases "(word_of_int c' :: u32) > size_bytes ino1")
    case True
    then show ?thesis using uc by (simp add: w_def)
  next
    case False
    then have "c' \<le> ?usz" using uc ef(4) by (simp add: word_less_def)
    with c(1) False ef(4) show ?thesis by (simp add: w_def)
  qed
  let ?F = "ino1\<lparr>size_bytes := w\<rparr>"
  note cs = commit_size[OF fiA relA i(1) iA, where w = w]
  have s2': "s2 = put_inode sA (nat i) ?F" unfolding s2 fill_fail_def w_def[symmetric] cs(1) by simp
  show "reliable s2" unfolding s2' by (rule cs(4))
  have ia: "inode_at s2 (nat i) = ?F" unfolding s2' by (rule cs(2))
  have fi2: "file_inv s2 ?F" unfolding s2' by (rule cs(3))
  have rel2: "reliable s2" unfolding s2' by (rule cs(4))
  have i2: "i < int (num_inodes s2)" unfolding s2' using cs(5) iA by simp
  have v2: "valid (inode_at s2 (nat i)) \<noteq> 0" unfolding ia using ef(3) v by simp
  have t2: "tree_ok s2 (inode_at s2 (nat i))" unfolding ia by (rule file_invD(3)[OF fi2])
  have z2: "\<forall>k. ?usz \<le> k \<and> k < c' \<longrightarrow>
      mapped s2 (inode_at s2 (nat i)) k \<and> file_byte s2 (inode_at s2 (nat i)) k = 0"
  proof (intro allI impI)
    fix k assume k: "?usz \<le> k \<and> k < c'"
    with z have m: "mapped sA ino1 k" and b: "file_byte sA ino1 k = 0" by simp_all
    have "mapped s2 ?F k" unfolding s2' using cs(6)[of k] m by simp
    moreover have "file_byte s2 ?F k = 0" unfolding s2' using cs(7)[OF m] b by simp
    ultimately show "mapped s2 (inode_at s2 (nat i)) k \<and> file_byte s2 (inode_at s2 (nat i)) k = 0"
      unfolding ia by (rule conjI)
  qed
  have sz2: "c' \<le> uint (size_bytes (inode_at s2 (nat i)))"
      "uint (size_bytes (inode_at s2 (nat i))) \<le> 67375104"
    unfolding ia using uw c(2) off by simp_all
  have rd: "read s2 i n a = (n, replicate (nat n) 0, s2)"
    if "?usz \<le> a" "0 \<le> n" "a + n \<le> c'" for a n
    by (rule zeros_read[OF file_invD(1)[OF fi2] rel2 i(1) i2 v2 t2 z2 sz2 u0 that])
  have "uint (size_bytes (inode_at s2 (nat i))) = c'" unfolding ia using uw by simp
  with c rd st show "\<exists>c'. ?usz \<le> c' \<and> c' < offset
           \<and> uint (size_bytes (inode_at s2 (nat i))) = c'
           \<and> fill_stops ?s1 i ino ?usz c' offset
           \<and> (\<forall>a n. ?usz \<le> a \<and> 0 \<le> n \<and> a + n \<le> c' \<longrightarrow>
                 read s2 i n a = (n, replicate (nat n) 0, s2))"
    by blast
qed

lemma ex_one_facts:
  "disk_mounted (ex_one b fs)" "superblock (ex_one b fs) = ex_sb"
  "faults (disk (ex_one b fs)) = fs" "size_in_sectors (disk (ex_one b fs)) = 16"
  "block_bitmap (ex_one b fs) = (\<lambda>k. if k \<le> 2 then 1 else 0)"
  "inode_at (ex_one b fs) 0 = inode_at ex_state1 0"
  "sectors (disk (ex_one b fs)) 2 = b"
  by (auto simp: ex_one_def ex_faulty_def ex_state1_def ex_state_def ex_disk_def inode_at_def
      put_inode_def ex_sb_def fun_eq_iff)

lemma ex_one_disk [simp]:
  "(ex_one b fs)\<lparr>disk := (disk (ex_one b fs))\<lparr>faults := fs'\<rparr>\<rparr> = ex_one b fs'"
  "(ex_one b fs)\<lparr>disk := (disk (ex_one b fs))\<lparr>sectors := (sectors (disk (ex_one b fs)))(2 := b'),
        faults := fs'\<rparr>\<rparr> = ex_one b' fs'"
  "(ex_one b fs)\<lparr>disk := (disk (ex_one b fs))\<lparr>sectors := (sectors (disk (ex_one b fs)))(2 := b')\<rparr>\<rparr>
      = ex_one b' fs"
  by (simp_all add: ex_one_def ex_faulty_def)

lemma ex_faulty_disk [simp]:
  "(ex_faulty fs)\<lparr>disk := (disk (ex_faulty fs))\<lparr>faults := fs'\<rparr>\<rparr> = ex_faulty fs'"
  by (simp add: ex_faulty_def)

lemma ex_faulty_alloc:
  "alloc_zeroed (ex_faulty (None # fs)) = (Inr 2, ex_one zero_block fs)"
  "alloc_zeroed (ex_faulty []) = (Inr 2, ex_one zero_block [])"
  by (simp_all add: alloc_zeroed_def ex_faulty_find_free vdisk_write_def next_fault_def ex_faulty_facts)
     (simp_all add: ex_one_def ex_faulty_def ex_state1_def ex_state_def ex_disk_def put_inode_def)

lemma ex_faulty_gbo:
  "get_block_for_offset (ex_faulty (None # fs)) (inode_at ex_state1 0) 0 True =
     (2, ex_grown_inode, ex_one zero_block fs)"
  "get_block_for_offset (ex_faulty []) (inode_at ex_state1 0) 0 True =
     (2, ex_grown_inode, ex_one zero_block [])"
  by (simp_all add: get_block_for_offset_def gbo_direct_def ex_faulty_alloc ex_faulty_facts
      ex_state1_inode0 ex_grown_inode_def)

lemma ex_grown_inode_simps:
  "direct_blocks ex_grown_inode = [2, 0, 0, 0]" "size_bytes ex_grown_inode = 0"
  "valid ex_grown_inode = 1" "indirect_block ex_grown_inode = 0"
  "double_indirect_block ex_grown_inode = 0"
  by (simp_all add: ex_grown_inode_def ex_state1_inode0)

lemma ex_one_find_free:
  "find_free_block (ex_one b fs) =
     (3, (ex_one b fs)\<lparr>block_bitmap := (block_bitmap (ex_one b fs))(3 := 1)\<rparr>)"
proof -
  have "find_free_from (ex_one b fs) 2 =
      (sint (word_of_nat 3 :: u32), (ex_one b fs)\<lparr>block_bitmap := (block_bitmap (ex_one b fs))(3 := 1)\<rparr>)"
    by (rule find_free_from_some) (simp_all add: ex_one_facts ex_sb_def)
  then show ?thesis
    by (simp add: find_free_block_def ex_one_facts ex_sb_def)
qed

lemma ex_one_alloc_fail:
  "alloc_zeroed (ex_one b (Some e # fs)) = (Inl (vdisk_code e), ex_one b fs)"
proof -
  let ?s = "ex_one b (Some e # fs)"
  have w: "vdisk_write (disk (?s\<lparr>block_bitmap := (block_bitmap ?s)(3 := 1)\<rparr>)) 3 zero_block =
      (Some e, disk (ex_one b fs))"
    by (simp add: vdisk_write_def next_fault_def ex_one_facts) (simp add: ex_one_def ex_faulty_def)
  have fb: "free_block (?s\<lparr>block_bitmap := (block_bitmap ?s)(3 := 1), disk := disk (ex_one b fs)\<rparr>) 3
      = ex_one b fs"
    by (simp add: free_block_def ex_one_facts ex_sb_def)
       (simp add: ex_one_def ex_faulty_def fun_eq_iff ex_state1_def ex_state_def put_inode_def)
  show ?thesis
    using w by (simp add: alloc_zeroed_def ex_one_find_free fb)
qed

lemma ex_one_gbo_fail:
  "get_block_for_offset (ex_one b (Some e # fs)) ex_grown_inode 1024 True =
     (vdisk_code e, ex_grown_inode, ex_one b fs)"
  by (simp add: get_block_for_offset_def gbo_direct_def ex_one_alloc_fail ex_one_facts
      ex_grown_inode_simps)

lemma ex_one_gbo_hit:
  "0 \<le> offset \<Longrightarrow> offset < 1024 \<Longrightarrow>
   get_block_for_offset (ex_one b fs) (ex_grown_inode\<lparr>size_bytes := w\<rparr>) offset True =
     (2, ex_grown_inode\<lparr>size_bytes := w\<rparr>, ex_one b fs)"
  by (simp add: get_block_for_offset_def gbo_direct_def ex_one_facts ex_grown_inode_simps)

lemma fill_loop_done: "e \<le> c \<Longrightarrow> fill_loop s i ino c e = (Inr ino, s)"
  by (subst fill_loop.simps) simp

lemma ex_one_rw:
  "vdisk_read (disk (ex_one b [])) 2 = (Inr b, disk (ex_one b []))"
  "vdisk_write (disk (ex_one b [])) 2 b' = (None, disk (ex_one b' []))"
  "vdisk_write (disk (ex_one b (None # fs))) 2 b' = (None, disk (ex_one b' fs))"
  by (simp_all add: vdisk_read_def vdisk_write_def next_fault_def ex_one_facts)
     (simp_all add: ex_one_def ex_faulty_def)

lemma ex_one_self [simp]: "(ex_one b fs)\<lparr>disk := disk (ex_one b' fs')\<rparr> = ex_one b' fs'"
  by (simp add: ex_one_def ex_faulty_def)

lemma ex_fill_1000:
  "fill_loop ex_state1 0 (inode_at ex_state1 0) 0 1000 =
     (Inr ex_grown_inode, ex_one (memset_block zero_block 0 0 1000) [])"
proof -
  have e: "ex_faulty [] = ex_state1" by (simp add: ex_faulty_def ex_state1_def ex_state_def ex_disk_def put_inode_def)
  show ?thesis
    by (subst fill_loop_round[OF _ ex_faulty_gbo(2)[unfolded e]])
       (simp_all add: chunk_def c_mod_def c_div_def ex_one_rw fill_loop_done)
qed

lemma ex_write_1000:
  "fst (write_fs ex_state1 0 [1] 1 1000) = 1"
proof -
  have u: "write_fs ex_state1 0 [1] 1 1000 =
      write_loop (ex_one (memset_block zero_block 0 0 1000) []) 0
        (ex_grown_inode\<lparr>size_bytes := 1000\<rparr>) [1] 1 0 1000"
    by (subst write_fs_unfold[OF ex_state1_ok, of 0 "inode_at ex_state1 0"])
       (simp_all add: ex_state1_num_inodes ex_state1_inode0 ex_fill_1000[unfolded ex_state1_inode0])
  show ?thesis
    unfolding u
    by (subst write_loop_round[OF _ ex_one_gbo_hit])
       (simp_all add: chunk_def c_mod_def c_div_def ex_one_rw write_loop_done)
qed

lemma ex_fill_fail_2000:
  "fill_loop (ex_faulty (None # None # Some e # fs)) 0 (inode_at ex_state1 0) 0 2000 =
     (Inl (vdisk_code e), fill_fail (ex_one zero_block fs) 0 ex_grown_inode 1024)"
proof -
  have z: "memset_block zero_block 0 0 1024 = zero_block"
    by (simp add: memset_block_def zero_block_def fun_eq_iff)
  have neg: "vdisk_code e \<le> 0" by (cases e) simp_all
  have "fill_loop (ex_faulty (None # None # Some e # fs)) 0 (inode_at ex_state1 0) 0 2000 =
      fill_loop (ex_one zero_block (Some e # fs)) 0 ex_grown_inode 1024 2000"
    by (subst fill_loop_round[OF _ ex_faulty_gbo(1)])
       (simp_all add: chunk_def c_mod_def c_div_def ex_one_rw z)
  also have "\<dots> = (Inl (vdisk_code e), fill_fail (ex_one zero_block fs) 0 ex_grown_inode 1024)"
    by (subst fill_loop_round[OF _ ex_one_gbo_fail]) (simp_all add: neg)
  finally show ?thesis .
qed

lemma ex_one_persist_fail:
  "fill_fail (ex_one b (Some e # fs)) 0 ino c = ex_one b fs"
  by (simp add: fill_fail_def write_inode_def ex_one_facts inode_limit_def ex_sb_def
      vdisk_read_def next_fault_def)

lemma ex_faulty_read_inode:
  "read_inode (ex_faulty (None # fs)) 0 False = (Inr (inode_at ex_state1 0), ex_faulty fs)"
  using read_inode_next[OF ex_faulty_facts(7), of 0 "None # fs" fs False]
  by (simp add: ex_faulty_facts num_inodes_def ex_sb_def)

lemma ex_double_failure:
  "write_fs (ex_faulty [None, None, None, Some ESECTOR, Some ESECTOR]) 0 [1] 1 2000 =
     (- 5, ex_one zero_block [])"
proof -
  have bad: "\<not> bad_inode_num (ex_faulty fs) 0" for fs
    by (simp add: bad_inode_num_def inode_limit_def ex_faulty_facts ex_sb_def)
  show ?thesis
    by (simp add: write_fs_def ex_faulty_facts bad ex_faulty_read_inode ex_state1_inode0
        ex_fill_fail_2000[unfolded ex_state1_inode0] ex_one_persist_fail)
qed

lemma ex_grown_slots: "slot_ptr (ex_one b fs) ex_grown_inode sl = (if sl = Direct 0 then 2 else 0)"
proof (cases sl)
  case (Direct k)
  have "k < 4 \<Longrightarrow> k \<noteq> 0 \<Longrightarrow> [2, 0, 0, 0 :: u32] ! k = 0" by (simp add: nth_Cons')
  with Direct show ?thesis by (simp add: ex_grown_inode_simps)
qed (simp_all add: ex_grown_inode_simps)

lemma ex_one_inv: "file_inv (ex_one b fs) (ex_grown_inode\<lparr>size_bytes := w\<rparr>)"
proof -
  have "mounted_ok (ex_one b fs)" by (simp add: mounted_ok_def ex_one_facts ex_sb_def)
  moreover have "inode_ok (ex_grown_inode\<lparr>size_bytes := w\<rparr>)"
    by (simp add: inode_ok_def ex_grown_inode_def ex_state1_inode0)
  moreover have "tree_ok (ex_one b fs) (ex_grown_inode\<lparr>size_bytes := w\<rparr>)"
    by (auto simp: tree_ok_def ex_grown_slots data_block_def ex_one_facts ex_sb_def split: if_splits)
  ultimately show ?thesis by (simp add: file_inv_def)
qed

lemma ex_one_persist:
  "fill_fail (ex_one b []) 0 ex_grown_inode 1024 =
     put_inode (ex_one b []) 0 (ex_grown_inode\<lparr>size_bytes := 1024\<rparr>)"
  "inode_at (put_inode (ex_one b []) 0 (ex_grown_inode\<lparr>size_bytes := 1024\<rparr>)) 0 =
     ex_grown_inode\<lparr>size_bytes := 1024\<rparr>"
proof -
  have fi: "file_inv (ex_one b []) ex_grown_inode" using ex_one_inv[of b "[]" 0]
    by (simp add: ex_grown_inode_def ex_state1_inode0)
  have rel: "reliable (ex_one b [])" by (simp add: reliable_def ex_one_facts)
  have n: "(0::int) < int (num_inodes (ex_one b []))" by (simp add: num_inodes_def ex_one_facts ex_sb_def)
  note cs = commit_size[OF fi rel order_refl n, where w = 1024]
  show "fill_fail (ex_one b []) 0 ex_grown_inode 1024 =
     put_inode (ex_one b []) 0 (ex_grown_inode\<lparr>size_bytes := 1024\<rparr>)"
    using cs(1) by (simp add: fill_fail_def ex_grown_inode_simps)
  show "inode_at (put_inode (ex_one b []) 0 (ex_grown_inode\<lparr>size_bytes := 1024\<rparr>)) 0 =
     ex_grown_inode\<lparr>size_bytes := 1024\<rparr>"
    using cs(2) by simp
qed

lemma ex_single_failure:
  "write_fs (ex_faulty [None, None, None, Some ESECTOR]) 0 B len 2000 =
     (- 5, put_inode (ex_one zero_block []) 0 (ex_grown_inode\<lparr>size_bytes := 1024\<rparr>))"
proof -
  have bad: "\<not> bad_inode_num (ex_faulty fs) 0" for fs
    by (simp add: bad_inode_num_def inode_limit_def ex_faulty_facts ex_sb_def)
  show ?thesis
    by (simp add: write_fs_def ex_faulty_facts bad ex_faulty_read_inode ex_state1_inode0
        ex_fill_fail_2000[unfolded ex_state1_inode0] ex_one_persist)
qed

text \<open>
  Claim C2. Let \<open>i\<close> be a valid inode of a well-formed mounted state, with a well-formed
  file of size \<open>sz\<close>, and let \<open>sz < offset\<close> and \<open>offset + |B| \<le> 67375104\<close>.

  On a working device: when \<open>write(i, B, |B|, offset)\<close> returns \<open>|B|\<close> and \<open>B\<close> is not empty, every
  read of \<open>n\<close> bytes at \<open>a\<close> with \<open>sz \<le> a\<close> and \<open>a + n \<le> offset\<close> returns \<open>n\<close> bytes that are all zero;
  when \<open>B\<close> is empty the size on the disk is still \<open>sz\<close> and every such read returns no bytes.

  On a device that works for the read of the inode and for \<open>m\<close> more operations, fails once
  and works again: when the zero-fill loop leaves \<open>write\<close> with a device error \<open>r\<close>, then
  \<open>write\<close> returns \<open>r\<close>, and the size of the inode on the disk is the furthest offset \<open>c'\<close>
  up to which the fill has succeeded: \<open>sz \<le> c' < offset\<close>, the zero-fill loop with the end \<open>c'\<close>
  finishes on that device and with every later end up to \<open>offset\<close> it fails, and every read
  inside the range from \<open>sz\<close> to \<open>c'\<close> returns zeros.
\<close>
theorem sparse_fill:
  assumes "mounted_ok s" and "0 \<le> i" "i < int (num_inodes s)"
    and "ino = inode_at s (nat i)" and "valid ino \<noteq> 0" and "tree_ok s ino"
    and "uint (size_bytes ino) < offset" and "offset + int (length B) \<le> 67375104"
  shows "(reliable s \<and> write_fs s i B (int (length B)) offset = (int (length B), s') \<longrightarrow>
            (\<forall>a n. uint (size_bytes ino) \<le> a \<and> 0 \<le> n \<and> a + n \<le> offset \<longrightarrow>
               read s' i n a =
                 ((if B = [] then 0 else n), replicate (if B = [] then 0 else nat n) 0, s')))
       \<and> (faults (disk s) = None # replicate m None @ [Some e]
          \<and> fill_loop (s\<lparr>disk := (disk s)\<lparr>faults := replicate m None @ [Some e]\<rparr>\<rparr>) i ino
               (uint (size_bytes ino)) offset = (Inl r, s2)
          \<and> device_code r \<longrightarrow>
            write_fs s i B (int (length B)) offset = (r, s2) \<and> reliable s2
          \<and> (\<exists>c'. uint (size_bytes ino) \<le> c' \<and> c' < offset
                \<and> uint (size_bytes (inode_at s2 (nat i))) = c'
                \<and> (\<exists>ino1 s1. fill_loop (s\<lparr>disk := (disk s)\<lparr>faults := replicate m None @ [Some e]\<rparr>\<rparr>)
                       i ino (uint (size_bytes ino)) c' = (Inr ino1, s1))
                \<and> (\<forall>e'. c' < e' \<and> e' \<le> offset \<longrightarrow>
                      (\<exists>r' s1. fill_loop (s\<lparr>disk := (disk s)\<lparr>faults := replicate m None @ [Some e]\<rparr>\<rparr>)
                         i ino (uint (size_bytes ino)) e' = (Inl r', s1)))
                \<and> (\<forall>a n. uint (size_bytes ino) \<le> a \<and> 0 \<le> n \<and> a + n \<le> c' \<longrightarrow>
                      read s2 i n a = (n, replicate (nat n) 0, s2))))"
proof (intro conjI impI allI)
  fix a n
  assume "reliable s \<and> write_fs s i B (int (length B)) offset = (int (length B), s')"
    and "uint (size_bytes ino) \<le> a \<and> 0 \<le> n \<and> a + n \<le> offset"
  then show "read s' i n a =
      ((if B = [] then 0 else n), replicate (if B = [] then 0 else nat n) 0, s')"
    using gap_reads_zero[OF assms(1) _ assms(2-8), of s' a n] by blast
next
  assume h: "faults (disk s) = None # replicate m None @ [Some e]
          \<and> fill_loop (s\<lparr>disk := (disk s)\<lparr>faults := replicate m None @ [Some e]\<rparr>\<rparr>) i ino
               (uint (size_bytes ino)) offset = (Inl r, s2)
          \<and> device_code r"
  have o: "offset \<le> 67375104" using assms(8) by simp
  note f = fill_failure_persisted[OF assms(1-7) o conjunct1[OF h] conjunct1[OF conjunct2[OF h]]
      conjunct2[OF conjunct2[OF h]]]
  show "write_fs s i B (int (length B)) offset = (r, s2)" by (rule f(1))
  show "reliable s2" by (rule f(2))
  show "\<exists>c'. uint (size_bytes ino) \<le> c' \<and> c' < offset
                \<and> uint (size_bytes (inode_at s2 (nat i))) = c'
                \<and> (\<exists>ino1 s1. fill_loop (s\<lparr>disk := (disk s)\<lparr>faults := replicate m None @ [Some e]\<rparr>\<rparr>)
                       i ino (uint (size_bytes ino)) c' = (Inr ino1, s1))
                \<and> (\<forall>e'. c' < e' \<and> e' \<le> offset \<longrightarrow>
                      (\<exists>r' s1. fill_loop (s\<lparr>disk := (disk s)\<lparr>faults := replicate m None @ [Some e]\<rparr>\<rparr>)
                         i ino (uint (size_bytes ino)) e' = (Inl r', s1)))
                \<and> (\<forall>a n. uint (size_bytes ino) \<le> a \<and> 0 \<le> n \<and> a + n \<le> c' \<longrightarrow>
                      read s2 i n a = (n, replicate (nat n) 0, s2))"
    using f(3) unfolding fill_stops_def by blast
qed

theorem sparse_fill_witness:
  "mounted_ok ex_state1 \<and> reliable ex_state1 \<and> valid (inode_at ex_state1 0) \<noteq> 0
   \<and> size_bytes (inode_at ex_state1 0) = 0
   \<and> fst (write_fs ex_state1 0 [1] 1 1000) = 1
   \<and> read (snd (write_fs ex_state1 0 [1] 1 1000)) 0 1000 0 =
       (1000, replicate 1000 0, snd (write_fs ex_state1 0 [1] 1 1000))
   \<and> faults (disk (ex_faulty [None, None, None, Some ESECTOR])) = None # replicate 2 None @ [Some ESECTOR]
   \<and> fill_loop (ex_faulty (replicate 2 None @ [Some ESECTOR])) 0 (inode_at ex_state1 0) 0 2000 =
       (Inl (- 5), put_inode (ex_one zero_block []) 0 (ex_grown_inode\<lparr>size_bytes := 1024\<rparr>))
   \<and> write_fs (ex_faulty [None, None, None, Some ESECTOR]) 0 [1] 1 2000 =
       (- 5, put_inode (ex_one zero_block []) 0 (ex_grown_inode\<lparr>size_bytes := 1024\<rparr>))
   \<and> size_bytes (inode_at (put_inode (ex_one zero_block []) 0 (ex_grown_inode\<lparr>size_bytes := 1024\<rparr>)) 0) = 1024
   \<and> read (put_inode (ex_one zero_block []) 0 (ex_grown_inode\<lparr>size_bytes := 1024\<rparr>)) 0 1024 0 =
       (1024, replicate 1024 0, put_inode (ex_one zero_block []) 0 (ex_grown_inode\<lparr>size_bytes := 1024\<rparr>))"
proof -
  let ?s' = "snd (write_fs ex_state1 0 [1] 1 1000)"
  let ?f = "ex_faulty [None, None, None, Some ESECTOR]"
  let ?s2 = "put_inode (ex_one zero_block []) 0 (ex_grown_inode\<lparr>size_bytes := 1024\<rparr>)"
  have t: "tree_ok s (inode_at ex_state1 0)" for s
    by (simp add: tree_ok_def slot_ptr_all_zero ex_state1_inode0)
  have w: "write_fs ex_state1 0 [1] (int (length [1 :: byte])) 1000 = (int (length [1 :: byte]), ?s')"
    using ex_write_1000 by (simp add: prod_eq_iff)
  have r2: "replicate 2 None @ [Some ESECTOR] = [None, None, Some ESECTOR]"
    by (simp add: numeral_2_eq_2)
  have fl: "fill_loop (ex_faulty (replicate 2 None @ [Some ESECTOR])) 0 (inode_at ex_state1 0) 0 2000 =
      (Inl (- 5), ?s2)"
    unfolding r2 by (simp add: ex_fill_fail_2000 ex_one_persist)
  have sz: "size_bytes (inode_at ?s2 0) = 1024" by (simp add: ex_one_persist)
  from sparse_fill[of ex_state1 0 "inode_at ex_state1 0" 1000 "[1]" ?s']
  have "read ?s' 0 1000 0 = (1000, replicate 1000 0, ?s')"
    using ex_state1_ok t w by (simp add: ex_state1_num_inodes ex_state1_inode0)
  moreover
  from sparse_fill[of ?f 0 "inode_at ex_state1 0" 2000 "[1]" _ 2 ESECTOR "- 5" ?s2]
  have "write_fs ?f 0 [1] 1 2000 = (- 5, ?s2) \<and> read ?s2 0 1024 0 = (1024, replicate 1024 0, ?s2)"
    using t fl sz by (simp add: ex_faulty_facts num_inodes_def ex_sb_def ex_state1_inode0 device_code_def r2)
  ultimately show ?thesis
    using ex_state1_ok ex_write_1000 fl sz by (simp add: ex_state1_inode0 ex_faulty_facts r2)
qed

text \<open>
  The size is not persisted when the device fails again. The empty file of \<open>ex_state1\<close> is
  written at offset 2000: the inode is read, block 2 is allocated and filled with zeros,
  and the zero write of the next block fails. \<open>write_inode\<close> is then called with the size
  1024 and its result is ignored (fs.c 700-701): when its read of the inode block fails
  too, \<open>write\<close> returns the device error and the inode on the disk still has the size 0;
  when the device works again the size on the disk is 1024.
\<close>
theorem fill_not_persisted_counterexample:
  "write_fs (ex_faulty [None, None, None, Some ESECTOR, Some ESECTOR]) 0 [1] 1 2000 =
     (vdisk_code ESECTOR, ex_one zero_block [])
   \<and> size_bytes (inode_at (ex_one zero_block []) 0) = 0
   \<and> block_bitmap (ex_one zero_block []) 2 = 1
   \<and> sectors (disk (ex_one zero_block [])) 2 = zero_block
   \<and> write_fs (ex_faulty [None, None, None, Some ESECTOR]) 0 [1] 1 2000 =
       (vdisk_code ESECTOR, put_inode (ex_one zero_block []) 0 (ex_grown_inode\<lparr>size_bytes := 1024\<rparr>))
   \<and> size_bytes (inode_at (put_inode (ex_one zero_block []) 0 (ex_grown_inode\<lparr>size_bytes := 1024\<rparr>)) 0)
       = 1024"
  by (simp add: ex_double_failure ex_single_failure ex_one_facts ex_state1_inode0 ex_one_persist)

end
